(* ===== verification/Xv6_Prelude.thy ===== *)
theory Xv6_Prelude
  imports Main "HOL-Library.Word"
begin

text \<open>
  The prelude of the development.  It holds
  \<^item> the type of bytes, little-endian encodings of unsigned integers and the \<^emph>\<open>bslice\<close> and
    \<^emph>\<open>bsplice\<close> operations that stand for the \<^verbatim>\<open>memmove\<close>s between a buffer and a part of another;
  \<^item> the kernel computations: functions from a state to an outcome, which is a value with a new
    state, a panic with its message, or the process going to sleep on a channel;
  \<^item> the weakest-precondition calculus in which the component theories state what an operation
    does when it returns normally (total correctness: a panic or a sleep is not a normal return);
  \<^item> generic lemmas on lists and finite sets.
\<close>

unbundle bit_operations_syntax

section \<open>Words\<close>

lemma unat_and_mask: "unat (w AND mask n :: 'a::len word) = unat w mod 2 ^ n"
  by (simp flip: take_bit_eq_mask take_bit_eq_mod add: unsigned_take_bit_eq)

lemma and_not_mask_plus: "(w AND NOT (mask n)) + (w AND mask n) = (w :: 'a::len word)"
  by (subst disjunctive_add_eq_or) (auto simp: bit_eq_iff bit_simps)

lemma unat_and_not_mask: "unat (w AND NOT (mask n) :: 'a::len word) = unat w div 2 ^ n * 2 ^ n"
proof -
  have "w AND NOT (mask n) = w - (w AND mask n)"
    using and_not_mask_plus by (metis add_diff_cancel_right')
  moreover have "unat (w AND mask n) \<le> unat w" by (simp add: unat_and_mask)
  ultimately have "unat (w AND NOT (mask n)) = unat w - unat w mod 2 ^ n"
    by (simp add: unat_sub word_le_nat_alt unat_and_mask)
  then show ?thesis by (simp add: minus_mod_eq_div_mult)
qed

section \<open>Bytes\<close>

type_synonym byte = "8 word"

text \<open>Little-endian bytes of an unsigned integer, as x86 lays it out in memory.\<close>

primrec le_enc :: "nat \<Rightarrow> nat \<Rightarrow> byte list" where
  "le_enc 0 v = []"
| "le_enc (Suc k) v = of_nat v # le_enc k (v div 256)"

primrec le_dec :: "byte list \<Rightarrow> nat" where
  "le_dec [] = 0"
| "le_dec (b # bs) = unat b + 256 * le_dec bs"

lemma length_le_enc [simp]: "length (le_enc k v) = k"
  by (induction k arbitrary: v) auto

lemma unat_of_nat_byte: "unat (of_nat v :: byte) = v mod 256"
  by (simp add: unat_of_nat)

lemma le_dec_enc: "le_dec (le_enc k v) = v mod 256 ^ k"
proof (induction k arbitrary: v)
  case (Suc k)
  have "v mod 256 ^ Suc k = v mod 256 + 256 * (v div 256 mod 256 ^ k)"
    by (metis mod_mult2_eq power_Suc add.commute)
  with Suc show ?case by (simp add: unat_of_nat_byte)
qed simp

lemma unat_byte [simp]: "unat (b :: byte) < 256"
  using unsigned_less [of b] by simp

lemma le_enc_dec: "le_enc (length bs) (le_dec bs) = bs"
proof (induction bs)
  case (Cons b bs)
  have "(of_nat (unat b + 256 * le_dec bs) :: byte) = b"
    by (rule word_unat_eq_iff [THEN iffD2]) (simp only: unat_of_nat_byte, simp)
  moreover have "(unat b + 256 * le_dec bs) div 256 = le_dec bs" by simp
  ultimately show ?case using Cons by simp
qed simp

lemma le_dec_bound: "le_dec bs < 256 ^ length bs"
proof (induction bs)
  case (Cons b bs)
  have "unat b < 256" by simp
  moreover have "le_dec bs + 1 \<le> 256 ^ length bs" using Cons by simp
  ultimately have "unat b + 256 * le_dec bs < 256 * 256 ^ length bs" by linarith
  then show ?case by simp
qed simp

lemma le_dec_enc_id [simp]: "v < 256 ^ k \<Longrightarrow> le_dec (le_enc k v) = v"
  by (simp add: le_dec_enc)

lemma le_dec_enc4 [simp]: "le_dec (le_enc 4 v) = v mod 2 ^ 32"
  using le_dec_enc [of 4 v] by simp

lemma le_dec_enc2 [simp]: "le_dec (le_enc 2 v) = v mod 2 ^ 16"
  using le_dec_enc [of 2 v] by simp

lemma le_dec_replicate_0 [simp]: "le_dec (replicate n 0) = 0"
  by (induction n) auto

lemma le_enc_0: "le_enc k 0 = replicate k 0"
  by (induction k) auto

section \<open>Slices of buffers\<close>

text \<open>\<open>bslice off n xs\<close> is what \<^verbatim>\<open>memmove(dst, xs + off, n)\<close> copies; \<open>bsplice off ys xs\<close> is \<open>xs\<close>
  after \<^verbatim>\<open>memmove(xs + off, ys, length ys)\<close>.\<close>

definition bslice :: "nat \<Rightarrow> nat \<Rightarrow> 'a list \<Rightarrow> 'a list" where
  "bslice off n xs = take n (drop off xs)"

definition bsplice :: "nat \<Rightarrow> 'a list \<Rightarrow> 'a list \<Rightarrow> 'a list" where
  "bsplice off ys xs = take off xs @ ys @ drop (off + length ys) xs"

lemma length_bslice: "length (bslice off n xs) = min n (length xs - off)"
  by (simp add: bslice_def)

lemma length_bslice_fit [simp]: "off + n \<le> length xs \<Longrightarrow> length (bslice off n xs) = n"
  by (simp add: bslice_def)

lemma length_bsplice [simp]: "off + length ys \<le> length xs \<Longrightarrow> length (bsplice off ys xs) = length xs"
  by (simp add: bsplice_def)

lemma nth_bslice: "i < n \<Longrightarrow> off + i < length xs \<Longrightarrow> bslice off n xs ! i = xs ! (off + i)"
  by (simp add: bslice_def)

lemma nth_bsplice:
  assumes "off + length ys \<le> length xs" and "i < length xs"
  shows "bsplice off ys xs ! i =
    (if off \<le> i \<and> i < off + length ys then ys ! (i - off) else xs ! i)"
  using assms by (auto simp: bsplice_def nth_append min_def)

lemma bslice_bsplice_same [simp]:
  "off + length ys \<le> length xs \<Longrightarrow> n = length ys \<Longrightarrow> bslice off n (bsplice off ys xs) = ys"
  by (simp add: bslice_def bsplice_def)

lemma bslice_bsplice_other:
  assumes "off + length ys \<le> length xs" and "o2 + n \<le> length xs"
    and "o2 + n \<le> off \<or> off + length ys \<le> o2"
  shows "bslice o2 n (bsplice off ys xs) = bslice o2 n xs"
  using assms by (intro nth_equalityI) (auto simp: nth_bslice nth_bsplice)

lemma bsplice_bslice_id [simp]: "off + n \<le> length xs \<Longrightarrow> bsplice off (bslice off n xs) xs = xs"
  by (intro nth_equalityI) (auto simp: nth_bslice nth_bsplice)

lemma bsplice_Nil [simp]: "bsplice off [] xs = xs"
  by (simp add: bsplice_def)

lemma bslice_replicate [simp]: "off + n \<le> m \<Longrightarrow> bslice off n (replicate m x) = replicate n x"
  by (simp add: bslice_def)

lemma bslice_all [simp]: "n = length xs \<Longrightarrow> bslice 0 n xs = xs"
  by (simp add: bslice_def)

lemma bslice_add:
  "bslice off (n + m) xs = bslice off n xs @ bslice (off + n) m xs"
  by (simp add: bslice_def take_add)
    (simp add: add.commute)

section \<open>Kernel computations\<close>

text \<open>Sleep channels.  The code uses the address of an object as its channel; the model names the
  object.\<close>

datatype chan =
    Chan_sleeplock_buf nat    \<comment> \<open>\<^verbatim>\<open>&bcache.buf[i].lock\<close>\<close>
  | Chan_sleeplock_inode nat  \<comment> \<open>\<^verbatim>\<open>&icache.inode[i].lock\<close>\<close>
  | Chan_ide nat              \<comment> \<open>\<^verbatim>\<open>&bcache.buf[i]\<close>, waiting for the disk\<close>
  | Chan_log                  \<comment> \<open>\<^verbatim>\<open>&log\<close>\<close>
  | Chan_nread nat            \<comment> \<open>\<^verbatim>\<open>&p->nread\<close> of the pipe at an address\<close>
  | Chan_nwrite nat           \<comment> \<open>\<^verbatim>\<open>&p->nwrite\<close> of the pipe at an address\<close>
  | Chan_input                \<comment> \<open>\<^verbatim>\<open>&input.r\<close>\<close>
  | Chan_ticks                \<comment> \<open>\<^verbatim>\<open>&ticks\<close>\<close>
  | Chan_proc nat             \<comment> \<open>\<^verbatim>\<open>&ptable.proc[i]\<close>\<close>

datatype ('s, 'a) outcome =
    Done 'a 's      \<comment> \<open>the call returns\<close>
  | Panic string    \<comment> \<open>the call ends in \<^verbatim>\<open>panic(msg)\<close>, which never returns\<close>
  | Sleep chan 's   \<comment> \<open>the calling process goes to sleep on a channel\<close>

type_synonym ('s, 'a) kernel = "'s \<Rightarrow> ('s, 'a) outcome"

definition kreturn :: "'a \<Rightarrow> ('s, 'a) kernel" where
  "kreturn a s = Done a s"

definition kpanic :: "string \<Rightarrow> ('s, 'a) kernel" where
  "kpanic msg s = Panic msg"

definition ksleep :: "chan \<Rightarrow> ('s, 'a) kernel" where
  "ksleep c s = Sleep c s"

definition kget :: "('s \<Rightarrow> 'a) \<Rightarrow> ('s, 'a) kernel" where
  "kget f s = Done (f s) s"

definition kmodify :: "('s \<Rightarrow> 's) \<Rightarrow> ('s, unit) kernel" where
  "kmodify f s = Done () (f s)"

definition kbind :: "('s, 'a) kernel \<Rightarrow> ('a \<Rightarrow> ('s, 'b) kernel) \<Rightarrow> ('s, 'b) kernel" where
  "kbind f g s = (case f s of Done a t \<Rightarrow> g a t | Panic msg \<Rightarrow> Panic msg | Sleep c t \<Rightarrow> Sleep c t)"

definition kseq :: "('s, 'a) kernel \<Rightarrow> ('s, 'b) kernel \<Rightarrow> ('s, 'b) kernel" where
  "kseq f g = kbind f (\<lambda>_. g)"

definition kwhen :: "bool \<Rightarrow> ('s, unit) kernel \<Rightarrow> ('s, unit) kernel" where
  "kwhen b f = (if b then f else kreturn ())"

text \<open>A C \<^verbatim>\<open>for\<close> loop over the elements of a list, in order.\<close>

primrec kfor :: "'a list \<Rightarrow> ('a \<Rightarrow> ('s, unit) kernel) \<Rightarrow> ('s, unit) kernel" where
  "kfor [] f = kreturn ()"
| "kfor (x # xs) f = kseq (f x) (kfor xs f)"

lemmas kernel_defs = kreturn_def kpanic_def ksleep_def kget_def kmodify_def kbind_def kseq_def
  kwhen_def

lemma kbind_cong [fundef_cong]:
  "f s = f' s \<Longrightarrow> (\<And>a t. f' s = Done a t \<Longrightarrow> g a t = g' a t) \<Longrightarrow> kbind f g s = kbind f' g' s"
  by (simp add: kbind_def split: outcome.split)

lemma kbind_Done [simp]: "f s = Done a t \<Longrightarrow> kbind f g s = g a t"
  by (simp add: kbind_def)

lemma kbind_assoc: "kbind (kbind f g) h = kbind f (\<lambda>a. kbind (g a) h)"
  by (simp add: kbind_def fun_eq_iff split: outcome.split)

section \<open>Weakest preconditions\<close>

text \<open>\<open>wp f Q s\<close>: run from \<open>s\<close>, \<open>f\<close> returns normally, and the value and the state it returns
  satisfy \<open>Q\<close>.\<close>

definition wp :: "('s, 'a) kernel \<Rightarrow> ('a \<Rightarrow> 's \<Rightarrow> bool) \<Rightarrow> 's \<Rightarrow> bool" where
  "wp f Q s = (case f s of Done a t \<Rightarrow> Q a t | Panic _ \<Rightarrow> False | Sleep _ _ \<Rightarrow> False)"

named_theorems wp_rules \<open>weakest preconditions of the operations of the model\<close>

lemma wp_iff: "wp f Q s \<longleftrightarrow> (\<exists>a t. f s = Done a t \<and> Q a t)"
  by (simp add: wp_def split: outcome.split)

lemma wpI: "f s = Done a t \<Longrightarrow> Q a t \<Longrightarrow> wp f Q s"
  by (simp add: wp_def)

lemma wpE: "wp f Q s \<Longrightarrow> (\<And>a t. f s = Done a t \<Longrightarrow> Q a t \<Longrightarrow> thesis) \<Longrightarrow> thesis"
  by (auto simp: wp_iff)

lemma wp_unitE: "wp f Q s \<Longrightarrow> (\<And>t. f s = Done () t \<Longrightarrow> Q () t \<Longrightarrow> thesis) \<Longrightarrow> thesis"
  by (auto simp: wp_iff)

lemma wp_DoneD: "wp f Q s \<Longrightarrow> f s = Done a t \<Longrightarrow> Q a t"
  by (simp add: wp_def)

lemma wp_mono: "wp f Q s \<Longrightarrow> (\<And>a t. Q a t \<Longrightarrow> R a t) \<Longrightarrow> wp f R s"
  by (auto simp: wp_iff)

lemma wp_conj: "wp f Q s \<Longrightarrow> wp f R s \<Longrightarrow> wp f (\<lambda>a t. Q a t \<and> R a t) s"
  by (auto simp: wp_iff)

lemma wp_kreturn [simp]: "wp (kreturn a) Q = Q a"
  by (simp add: wp_def kreturn_def fun_eq_iff)

lemma wp_kpanic [simp]: "wp (kpanic msg) Q = (\<lambda>_. False)"
  by (simp add: wp_def kpanic_def fun_eq_iff)

lemma wp_ksleep [simp]: "wp (ksleep c) Q = (\<lambda>_. False)"
  by (simp add: wp_def ksleep_def fun_eq_iff)

lemma wp_kget [simp]: "wp (kget f) Q = (\<lambda>s. Q (f s) s)"
  by (simp add: wp_def kget_def fun_eq_iff)

lemma wp_kmodify [simp]: "wp (kmodify f) Q = (\<lambda>s. Q () (f s))"
  by (simp add: wp_def kmodify_def fun_eq_iff)

lemma wp_kbind [simp]: "wp (kbind f g) Q = wp f (\<lambda>a. wp (g a) Q)"
  by (simp add: wp_def kbind_def fun_eq_iff split: outcome.split)

lemma wp_kseq [simp]: "wp (kseq f g) Q = wp f (\<lambda>_. wp g Q)"
  by (simp add: kseq_def)

lemma wp_kwhen [simp]: "wp (kwhen b f) Q = (if b then wp f Q else Q ())"
  by (simp add: kwhen_def)

lemma wp_if: "wp (if b then f else g) Q = (if b then wp f Q else wp g Q)"
  by simp

text \<open>A loop over a list, with an invariant that may mention the elements still to come.\<close>

lemma wp_kfor:
  assumes "I xs s" and "\<And>x ys t. I (x # ys) t \<Longrightarrow> wp (f x) (\<lambda>_. I ys) t"
  shows "wp (kfor xs f) (\<lambda>_. I []) s"
  using assms(1)
proof (induction xs arbitrary: s)
  case (Cons x xs)
  then show ?case by (auto intro: wp_mono [OF assms(2)])
qed simp

section \<open>Lists and finite sets\<close>

lemma find_Some_iff': "List.find P xs = Some x \<Longrightarrow> P x \<and> x \<in> set xs"
  by (induction xs) (auto split: if_splits)

lemma find_None_iff': "List.find P xs = None \<longleftrightarrow> (\<forall>x \<in> set xs. \<not> P x)"
  by (induction xs) auto

lemma find_cong': "(\<And>x. x \<in> set xs \<Longrightarrow> P x = Q x) \<Longrightarrow> List.find P xs = List.find Q xs"
  by (induction xs) auto

lemma find_unique:
  assumes "x \<in> set xs" and "P x" and "\<And>y. y \<in> set xs \<Longrightarrow> P y \<Longrightarrow> y = x"
  shows "List.find P xs = Some x"
proof (cases "List.find P xs")
  case None
  with assms(1,2) show ?thesis by (auto simp: find_None_iff')
next
  case (Some y)
  then show ?thesis using find_Some_iff' [OF Some] assms(3) by blast
qed

lemma card_less_ex:
  fixes A :: "nat set"
  assumes "card A < n" and "finite A"
  shows "\<exists>i < n. i \<notin> A"
proof (rule ccontr)
  assume "\<not> ?thesis"
  then have "{..<n} \<subseteq> A" by auto
  then have "card {..<n} \<le> card A" by (rule card_mono [OF assms(2)])
  with assms(1) show False by simp
qed

end
