(* ===== verification/Memory.thy ===== *)
theory Memory
  imports Xv6_Prelude
begin

text \<open>
  Memory as a function from addresses to bytes, with the block and 32-bit accesses the code uses, and
  C strings in it.  Addresses are natural numbers; code whose addresses can wrap writes that out.
\<close>

section \<open>Memory\<close>

type_synonym memory = "nat \<Rightarrow> byte"

definition mem_read :: "nat \<Rightarrow> nat \<Rightarrow> memory \<Rightarrow> byte list" where
  "mem_read a n m = map m [a..<a + n]"

definition mem_write :: "nat \<Rightarrow> byte list \<Rightarrow> memory \<Rightarrow> memory" where
  "mem_write a bs m = (\<lambda>x. if a \<le> x \<and> x < a + length bs then bs ! (x - a) else m x)"

definition mem_set :: "nat \<Rightarrow> byte \<Rightarrow> nat \<Rightarrow> memory \<Rightarrow> memory" where
  "mem_set a c n m = (\<lambda>x. if a \<le> x \<and> x < a + n then c else m x)"

definition read_u32 :: "nat \<Rightarrow> memory \<Rightarrow> nat" where
  "read_u32 a m = le_dec (mem_read a 4 m)"

definition write_u32 :: "nat \<Rightarrow> nat \<Rightarrow> memory \<Rightarrow> memory" where
  "write_u32 a v m = mem_write a (le_enc 4 v) m"

text \<open>Two memories that agree on a page.\<close>

definition agree_on :: "nat \<Rightarrow> nat \<Rightarrow> memory \<Rightarrow> memory \<Rightarrow> bool" where
  "agree_on a n m m' \<longleftrightarrow> (\<forall>x. a \<le> x \<and> x < a + n \<longrightarrow> m x = m' x)"

lemma length_mem_read [simp]: "length (mem_read a n m) = n"
  by (simp add: mem_read_def)

lemma mem_read_write_same [simp]: "n = length bs \<Longrightarrow> mem_read a n (mem_write a bs m) = bs"
  by (intro nth_equalityI) (auto simp: mem_read_def mem_write_def)

lemma mem_read_cong: "agree_on a n m m' \<Longrightarrow> mem_read a n m = mem_read a n m'"
  by (auto simp: mem_read_def agree_on_def)

lemma read_u32_cong: "agree_on a 4 m m' \<Longrightarrow> read_u32 a m = read_u32 a m'"
  by (simp add: read_u32_def mem_read_cong)

lemma read_write_u32 [simp]: "read_u32 a (write_u32 a v m) = v mod 2 ^ 32"
  by (simp add: read_u32_def write_u32_def)

lemma agree_on_refl [simp]: "agree_on a n m m"
  by (simp add: agree_on_def)

lemma agree_on_sub: "agree_on a n m m' \<Longrightarrow> k \<le> n \<Longrightarrow> agree_on a k m m'"
  by (simp add: agree_on_def)

lemma agree_on_trans: "agree_on a n m m' \<Longrightarrow> agree_on a n m' m'' \<Longrightarrow> agree_on a n m m''"
  by (simp add: agree_on_def)

lemma agree_on_write:
  "a + n \<le> b \<or> b + length bs \<le> a \<Longrightarrow> agree_on a n m (mem_write b bs m)"
  by (auto simp: agree_on_def mem_write_def)

lemma agree_on_set: "a + n \<le> b \<or> b + k \<le> a \<Longrightarrow> agree_on a n m (mem_set b c k m)"
  by (auto simp: agree_on_def mem_set_def)

lemma mem_write_Nil [simp]: "mem_write a [] m = m"
  by (rule ext) (auto simp: mem_write_def)

lemma mem_write_Cons: "mem_write a (x # xs) m = mem_write (Suc a) xs (m(a := x))"
  by (rule ext) (auto simp: mem_write_def nth_Cons')

section \<open>C strings\<close>

text \<open>The string \<open>xs\<close> is at address \<open>p\<close>: its bytes, none of them zero, then a zero byte.\<close>

definition cstr :: "memory \<Rightarrow> nat \<Rightarrow> byte list \<Rightarrow> bool" where
  "cstr m p xs \<longleftrightarrow> 0 \<notin> set xs \<and> mem_read p (length xs + 1) m = xs @ [0]"

lemma mem_read_Suc: "mem_read p (Suc n) m = m p # mem_read (Suc p) n m"
  by (simp add: mem_read_def upt_conv_Cons del: upt_Suc)

lemma mem_read_0 [simp]: "mem_read p 0 m = []"
  by (simp add: mem_read_def)

lemma nth_mem_read [simp]: "i < n \<Longrightarrow> mem_read p n m ! i = m (p + i)"
  by (simp add: mem_read_def)

lemma cstr_Nil: "cstr m p [] \<longleftrightarrow> m p = 0"
  by (simp add: cstr_def mem_read_def)

lemma cstr_Cons: "cstr m p (x # xs) \<longleftrightarrow> x \<noteq> 0 \<and> m p = x \<and> cstr m (Suc p) xs"
  by (auto simp: cstr_def mem_read_Suc)

lemma cstr_unique: "cstr m p xs \<Longrightarrow> cstr m p ys \<Longrightarrow> xs = ys"
proof (induction xs arbitrary: p ys)
  case Nil
  then show ?case by (cases ys) (auto simp: cstr_Nil cstr_Cons)
next
  case (Cons x xs)
  then show ?case by (cases ys) (auto simp: cstr_Nil cstr_Cons)
qed

lemma cstr_nth: "cstr m p xs \<Longrightarrow> i < length xs \<Longrightarrow> m (p + i) = xs ! i \<and> xs ! i \<noteq> 0"
proof -
  assume c: "cstr m p xs" and i: "i < length xs"
  then have "mem_read p (length xs + 1) m ! i = xs ! i" by (simp add: cstr_def nth_append)
  moreover have "xs ! i \<noteq> 0" using c i nth_mem [of i xs] unfolding cstr_def by metis
  ultimately show ?thesis using i by simp
qed

lemma cstr_end: "cstr m p xs \<Longrightarrow> m (p + length xs) = 0"
proof -
  assume c: "cstr m p xs"
  then have "mem_read p (length xs + 1) m ! length xs = 0" by (simp add: cstr_def)
  then show ?thesis by simp
qed

lemma cstrI:
  "(\<And>i. i < length xs \<Longrightarrow> m (p + i) = xs ! i \<and> xs ! i \<noteq> 0) \<Longrightarrow> m (p + length xs) = 0 \<Longrightarrow> cstr m p xs"
  by (auto simp: cstr_def in_set_conv_nth intro!: nth_equalityI)
    (auto simp: nth_append less_Suc_eq)

end
