(* ===== verification/CString.thy ===== *)
theory CString
  imports Memory
begin

text \<open>
  The C string and memory functions of the kernel (\<^verbatim>\<open>string.c\<close>) and of the user library (\<^verbatim>\<open>ulib.c\<close>),
  over a byte memory, pointer by pointer as the loops run, with what each of them computes.  Functions
  of \<^verbatim>\<open>ulib.c\<close> whose name also occurs in \<^verbatim>\<open>string.c\<close> carry a \<open>u\<close>.
\<close>

section \<open>Memory blocks\<close>

text \<open>\<^verbatim>\<open>stosb\<close> and \<^verbatim>\<open>stosl\<close> store a byte, respectively a double word, \<open>n\<close> times.\<close>

primrec stosb :: "memory \<Rightarrow> nat \<Rightarrow> byte \<Rightarrow> nat \<Rightarrow> memory" where
  "stosb m a c 0 = m"
| "stosb m a c (Suc n) = (stosb m a c n)(a + n := c)"

primrec stosl :: "memory \<Rightarrow> nat \<Rightarrow> nat \<Rightarrow> nat \<Rightarrow> memory" where
  "stosl m a v 0 = m"
| "stosl m a v (Suc n) = write_u32 (a + 4 * n) v (stosl m a v n)"

definition memset :: "memory \<Rightarrow> nat \<Rightarrow> int \<Rightarrow> nat \<Rightarrow> memory" where
  "memset m dst c n =
     (if dst mod 4 = 0 \<and> n mod 4 = 0 then
        let c = nat (c mod 256) in stosl m dst (c * 2 ^ 24 + c * 2 ^ 16 + c * 2 ^ 8 + c) (n div 4)
      else stosb m dst (of_int c) n)"

fun memcmp :: "memory \<Rightarrow> nat \<Rightarrow> nat \<Rightarrow> nat \<Rightarrow> int" where
  "memcmp m s1 s2 0 = 0"
| "memcmp m s1 s2 (Suc n) =
     (if m s1 \<noteq> m s2 then int (unat (m s1)) - int (unat (m s2)) else memcmp m (s1 + 1) (s2 + 1) n)"

primrec copy_up :: "nat \<Rightarrow> nat \<Rightarrow> nat \<Rightarrow> memory \<Rightarrow> memory" where
  "copy_up d s 0 m = m"
| "copy_up d s (Suc n) m = copy_up (d + 1) (s + 1) n (m(d := m s))"

primrec copy_down :: "nat \<Rightarrow> nat \<Rightarrow> nat \<Rightarrow> memory \<Rightarrow> memory" where
  "copy_down d s 0 m = m"
| "copy_down d s (Suc n) m = copy_down (d - 1) (s - 1) n (m(d - 1 := m (s - 1)))"

definition memmove :: "memory \<Rightarrow> nat \<Rightarrow> nat \<Rightarrow> nat \<Rightarrow> memory" where
  "memmove m dst src n =
     (if src < dst \<and> src + n > dst then copy_down (dst + n) (src + n) n m else copy_up dst src n m)"

definition memcpy :: "memory \<Rightarrow> nat \<Rightarrow> nat \<Rightarrow> nat \<Rightarrow> memory" where
  "memcpy m dst src n = memmove m dst src n"

definition umemset :: "memory \<Rightarrow> nat \<Rightarrow> int \<Rightarrow> nat \<Rightarrow> memory" where
  "umemset m dst c n = stosb m dst (of_int c) n"

definition umemmove :: "memory \<Rightarrow> nat \<Rightarrow> nat \<Rightarrow> int \<Rightarrow> memory" where
  "umemmove m dst src n = copy_up dst src (nat n) m"

section \<open>Strings\<close>

primrec strncmp :: "memory \<Rightarrow> nat \<Rightarrow> nat \<Rightarrow> nat \<Rightarrow> int" where
  "strncmp m p q 0 = 0"
| "strncmp m p q (Suc n) =
     (if m p \<noteq> 0 \<and> m p = m q then strncmp m (p + 1) (q + 1) n else int (unat (m p)) - int (unat (m q)))"

primrec strncpy_loop :: "nat \<Rightarrow> nat \<Rightarrow> nat \<Rightarrow> memory \<Rightarrow> memory" where
  "strncpy_loop s t 0 m = m"
| "strncpy_loop s t (Suc n) m =
     (if m t \<noteq> 0 then strncpy_loop (s + 1) (t + 1) n (m(s := m t)) else stosb (m(s := m t)) (s + 1) 0 n)"

definition strncpy :: "memory \<Rightarrow> nat \<Rightarrow> nat \<Rightarrow> int \<Rightarrow> memory" where
  "strncpy m s t n = strncpy_loop s t (nat n) m"

primrec safestrcpy_loop :: "nat \<Rightarrow> nat \<Rightarrow> nat \<Rightarrow> memory \<Rightarrow> memory" where
  "safestrcpy_loop s t 0 m = m(s := 0)"
| "safestrcpy_loop s t (Suc n) m =
     (if m t \<noteq> 0 then safestrcpy_loop (s + 1) (t + 1) n (m(s := m t)) else m(s := m t, s + 1 := 0))"

definition safestrcpy :: "memory \<Rightarrow> nat \<Rightarrow> nat \<Rightarrow> int \<Rightarrow> memory" where
  "safestrcpy m s t n = (if n \<le> 0 then m else safestrcpy_loop s t (nat (n - 1)) m)"

text \<open>The loops that stop at a zero byte end only if there is one.\<close>

partial_function (option) strlen_from :: "memory \<Rightarrow> nat \<Rightarrow> nat \<Rightarrow> nat option" where
  "strlen_from m s n = (if m (s + n) = 0 then Some n else strlen_from m s (n + 1))"

definition strlen :: "memory \<Rightarrow> nat \<Rightarrow> nat option" where
  "strlen m s = strlen_from m s 0"

partial_function (option) strcpy :: "memory \<Rightarrow> nat \<Rightarrow> nat \<Rightarrow> memory option" where
  "strcpy m s t = (if m t = 0 then Some (m(s := 0)) else strcpy (m(s := m t)) (s + 1) (t + 1))"

partial_function (option) strcmp :: "memory \<Rightarrow> nat \<Rightarrow> nat \<Rightarrow> int option" where
  "strcmp m p q = (if m p \<noteq> 0 \<and> m p = m q then strcmp m (p + 1) (q + 1)
     else Some (int (unat (m p)) - int (unat (m q))))"

text \<open>\<^verbatim>\<open>strchr\<close>: the address of the first occurrence, \<open>Some None\<close> for the null pointer.\<close>

partial_function (option) strchr :: "memory \<Rightarrow> nat \<Rightarrow> byte \<Rightarrow> nat option option" where
  "strchr m s c = (if m s = 0 then Some None else if m s = c then Some (Some s) else strchr m (s + 1) c)"

text \<open>\<^verbatim>\<open>gets\<close>: \<open>input\<close> is what the one-byte reads on descriptor 0 deliver before they fail.\<close>

fun gets_loop :: "nat \<Rightarrow> nat \<Rightarrow> byte list \<Rightarrow> memory \<Rightarrow> nat \<times> byte list \<times> memory" where
  "gets_loop buf 0 input m = (buf, input, m)"
| "gets_loop buf (Suc k) [] m = (buf, [], m)"
| "gets_loop buf (Suc k) (c # input) m =
     (if c = 10 \<or> c = 13 then (buf + 1, input, m(buf := c)) else gets_loop (buf + 1) k input (m(buf := c)))"

definition gets :: "nat \<Rightarrow> int \<Rightarrow> byte list \<Rightarrow> memory \<Rightarrow> byte list \<times> memory" where
  "gets buf mx input m =
     (let (p, rest, m') = gets_loop buf (nat (mx - 1)) input m in (rest, m'(p := 0)))"

definition to_s32 :: "int \<Rightarrow> int" where
  "to_s32 x = (x + 2 ^ 31) mod 2 ^ 32 - 2 ^ 31"

text \<open>\<^verbatim>\<open>atoi\<close> on the bytes at its argument; the sum wraps at 32 bits.\<close>

fun atoi_loop :: "int \<Rightarrow> byte list \<Rightarrow> int" where
  "atoi_loop n [] = n"
| "atoi_loop n (c # cs) =
     (if 48 \<le> unat c \<and> unat c \<le> 57 then atoi_loop (to_s32 (n * 10 + int (unat c) - 48)) cs else n)"

definition atoi :: "byte list \<Rightarrow> int" where
  "atoi s = atoi_loop 0 s"

section \<open>What the block functions compute\<close>

lemma mem_set_0 [simp]: "mem_set a c 0 m = m"
  by (rule ext) (auto simp: mem_set_def)

lemma stosb_eq: "stosb m a c n = mem_set a c n m"
  by (induction n) (auto simp: mem_set_def fun_eq_iff less_Suc_eq)

lemma le_enc_fill:
  assumes "c < 256"
  shows "le_enc 4 (c * 2 ^ 24 + c * 2 ^ 16 + c * 2 ^ 8 + c) = replicate 4 (of_nat c :: byte)"
proof -
  have "replicate 4 (of_nat c :: byte) = [of_nat c, of_nat c, of_nat c, of_nat c]"
    by (simp add: numeral_eq_Suc)
  then have "le_dec (replicate 4 (of_nat c :: byte)) = c * 2 ^ 24 + c * 2 ^ 16 + c * 2 ^ 8 + c"
    using assms by (simp add: unat_of_nat)
  then show ?thesis using le_enc_dec [of "replicate 4 (of_nat c :: byte)"] by simp
qed

lemma stosl_fill:
  assumes "le_enc 4 v = replicate 4 c"
  shows "stosl m a v n = mem_set a c (4 * n) m"
proof (induction n)
  case (Suc n)
  then show ?case
    using assms by (auto simp: write_u32_def mem_write_def mem_set_def nth_replicate simp del: replicate_Suc)
qed simp

lemma memset_eq: "memset m dst c n = mem_set dst (of_int c) n m"
proof (cases "dst mod 4 = 0 \<and> n mod 4 = 0")
  case True
  let ?c = "nat (c mod 256)"
  have "?c < 256" by (simp add: nat_less_iff)
  have "(of_nat ?c :: byte) = of_int (c mod 256)" by (simp add: of_nat_nat)
  also have "\<dots> = of_int c"
    by (simp add: word_of_int_eq_iff take_bit_eq_mod)
  finally have "le_enc 4 (?c * 2 ^ 24 + ?c * 2 ^ 16 + ?c * 2 ^ 8 + ?c) = replicate 4 (of_int c :: byte)"
    using le_enc_fill [OF \<open>?c < 256\<close>] by simp
  moreover have "4 * (n div 4) = n" using True by auto
  ultimately show ?thesis using True by (simp add: memset_def Let_def stosl_fill)
next
  case False
  then show ?thesis by (auto simp: memset_def stosb_eq)
qed

text \<open>The value of every byte after a copy that works.\<close>

definition copied :: "nat \<Rightarrow> nat \<Rightarrow> nat \<Rightarrow> memory \<Rightarrow> memory" where
  "copied d s n m = (\<lambda>a. if d \<le> a \<and> a < d + n then m (s + (a - d)) else m a)"

lemma copied_0 [simp]: "copied d s 0 m = m"
  by (rule ext) (auto simp: copied_def)

lemma copied_Suc:
  assumes "d < s \<or> s + Suc n \<le> d"
  shows "copied (d + 1) (s + 1) n (m(d := m s)) = copied d s (Suc n) m"
proof
  fix a
  have "s + 1 + (a - (d + 1)) = s + (a - d)" if "d < a" using that by simp
  moreover have "s + (a - d) \<noteq> d" if "d < a" "a < d + Suc n" using that assms by linarith
  ultimately show "copied (d + 1) (s + 1) n (m(d := m s)) a = copied d s (Suc n) m a"
    by (cases "a = d") (auto simp: copied_def)
qed

lemma copied_self: "copied d d n m = m"
  by (auto simp: copied_def)

lemma copy_up_self: "copy_up d d n m = m"
  by (induction n arbitrary: d) auto

lemma copy_up_ok: "d \<le> s \<or> s + n \<le> d \<Longrightarrow> copy_up d s n m = copied d s n m"
proof (induction n arbitrary: d s m)
  case (Suc n)
  show ?case
  proof (cases "d = s")
    case True
    then show ?thesis by (simp only: copy_up_self copied_self)
  next
    case False
    then have "copy_up (d + 1) (s + 1) n (m(d := m s)) = copied (d + 1) (s + 1) n (m(d := m s))"
      using Suc.prems by (intro Suc.IH) auto
    also have "\<dots> = copied d s (Suc n) m" using False Suc.prems by (intro copied_Suc) auto
    finally show ?thesis by simp
  qed
qed simp

lemma copy_down_ok: "s \<le> d \<Longrightarrow> copy_down (d + n) (s + n) n m = copied d s n m"
proof (induction n arbitrary: m)
  case (Suc n)
  then have "copy_down (d + n) (s + n) n (m(d + n := m (s + n))) = copied d s n (m(d + n := m (s + n)))"
    by simp
  then show ?case using Suc.prems by (auto simp: copied_def fun_eq_iff less_Suc_eq)
qed simp

text \<open>C28: The kernel's \<open>memmove\<close> is correct for every overlap of source and destination: afterwards the
  destination holds what the source held before, and no other byte has changed.\<close>

theorem memmove_correct: "memmove m dst src n = copied dst src n m"
  using copy_down_ok [of src dst n m] copy_up_ok [of dst src n m] by (auto simp: memmove_def)



section \<open>What the string functions compute\<close>

lemma strlen_from_cstr: "cstr m (p + n) xs \<Longrightarrow> strlen_from m p n = Some (n + length xs)"
proof (induction xs arbitrary: n)
  case Nil
  then show ?case by (subst strlen_from.simps) (simp add: cstr_Nil)
next
  case (Cons x xs)
  then have "strlen_from m p (n + 1) = Some (n + 1 + length xs)"
    by (intro Cons.IH) (simp add: cstr_Cons)
  then show ?case using Cons.prems by (subst strlen_from.simps) (simp add: cstr_Cons)
qed

lemma strlen_cstr: "cstr m p xs \<Longrightarrow> strlen m p = Some (length xs)"
  using strlen_from_cstr [of m p 0 xs] by (simp add: strlen_def)

lemma strncpy_loop_ok:
  assumes "cstr m t xs" and "s + n \<le> t \<or> t + length xs < s"
  shows "strncpy_loop s t n m = mem_write s (take n (xs @ replicate n 0)) m"
  using assms
proof (induction n arbitrary: s t xs m)
  case 0
  then show ?case by simp
next
  case (Suc n)
  show ?case
  proof (cases xs)
    case Nil
    then have "m t = 0" using Suc.prems by (simp add: cstr_Nil)
    then show ?thesis
      using Nil by (simp add: stosb_eq del: replicate_Suc) (auto simp: mem_set_def mem_write_def fun_eq_iff
          simp del: replicate_Suc)
  next
    case (Cons x ys)
    then have x: "x \<noteq> 0" "m t = x" "cstr m (Suc t) ys" using Suc.prems by (simp_all add: cstr_Cons)
    have c: "cstr (m(s := x)) (t + 1) ys"
      using x(3) Suc.prems(2) Cons cstr_nth [OF x(3)] cstr_end [OF x(3)] by (intro cstrI) auto
    then have "strncpy_loop (s + 1) (t + 1) n (m(s := x)) =
        mem_write (s + 1) (take n (ys @ replicate n 0)) (m(s := x))"
      using Suc.prems(2) Cons by (intro Suc.IH [OF c]) auto
    moreover have "take n (ys @ replicate (Suc n) 0) = take n (ys @ replicate n (0 :: byte))"
      by (simp add: take_append del: replicate_Suc)
    ultimately show ?thesis using x Cons by (simp add: mem_write_Cons del: replicate_Suc)
  qed
qed

lemma strncpy_correct:
  assumes "cstr m t xs" and "0 \<le> n" and "s + nat n \<le> t \<or> t + length xs < s"
  shows "strncpy m s t n = mem_write s (take (nat n) (xs @ replicate (nat n) 0)) m"
  using strncpy_loop_ok [OF assms(1,3)] by (simp add: strncpy_def)

lemma safestrcpy_loop_ok:
  assumes "cstr m t xs" and "s + n < t \<or> t + length xs < s"
  shows "cstr (safestrcpy_loop s t n m) s (take n xs) \<and>
    (\<forall>a. a < s \<or> s + n < a \<longrightarrow> safestrcpy_loop s t n m a = m a)"
  using assms
proof (induction n arbitrary: s t xs m)
  case 0
  then show ?case by (simp add: cstr_Nil)
next
  case (Suc n)
  show ?case
  proof (cases xs)
    case Nil
    then show ?thesis using Suc.prems by (simp add: cstr_Nil)
  next
    case (Cons x ys)
    then have x: "x \<noteq> 0" "m t = x" "cstr m (Suc t) ys" using Suc.prems by (simp_all add: cstr_Cons)
    have c: "cstr (m(s := x)) (t + 1) ys"
      using x(3) Suc.prems(2) Cons cstr_nth [OF x(3)] cstr_end [OF x(3)] by (intro cstrI) auto
    then have "cstr (safestrcpy_loop (s + 1) (t + 1) n (m(s := x))) (s + 1) (take n ys) \<and>
        (\<forall>a. a < s + 1 \<or> s + 1 + n < a \<longrightarrow> safestrcpy_loop (s + 1) (t + 1) n (m(s := x)) a = (m(s := x)) a)"
      using Suc.prems(2) Cons by (intro Suc.IH [OF c]) auto
    then show ?thesis using x Cons by (auto simp: cstr_Cons)
  qed
qed

text \<open>C29: \<open>safestrcpy\<close> with a positive size always leaves a terminated string in the destination, the
  longest prefix of the source that fits, and writes nothing outside the \<open>n\<close> bytes it was given.\<close>

theorem safestrcpy_correct:
  assumes "cstr m t xs" and "0 < n" and "s + nat n \<le> t \<or> t + length xs < s"
  shows "cstr (safestrcpy m s t n) s (take (nat n - 1) xs) \<and>
    (\<forall>a. a < s \<or> s + nat n \<le> a \<longrightarrow> safestrcpy m s t n a = m a)"
proof -
  have n: "nat (n - 1) = nat n - 1" "0 < nat n" using assms(2) by auto
  then show ?thesis
    using safestrcpy_loop_ok [OF assms(1), of s "nat n - 1"] assms(2,3) by (auto simp: safestrcpy_def n)
qed

theorem safestrcpy_correct_witness:
  "cstr (safestrcpy ((\<lambda>_. 0)(8 := 97, 9 := 98, 10 := 99)) 0 8 3) 0 [97, 98]"
proof -
  have "cstr ((\<lambda>_. 0)(8 := 97, 9 := 98, 10 := 99)) 8 [97, 98, 99]"
    by (simp add: cstr_Cons cstr_Nil)
  from safestrcpy_correct [OF this, of 3 0] show ?thesis by simp
qed

lemma byte_diff_0: "uint a = uint b \<longleftrightarrow> a = b" "uint a = 0 \<longleftrightarrow> a = 0" for a b :: byte
  using uint_0_iff [of a] by (simp_all flip: word_uint_eq_iff)

lemma strncmp_cstr:
  assumes "cstr m p xs" and "cstr m q ys"
  shows "strncmp m p q n = 0 \<longleftrightarrow> take n xs = take n ys"
  using assms
proof (induction n arbitrary: p q xs ys)
  case (Suc n)
  then show ?case by (cases xs; cases ys) (auto simp: cstr_Nil cstr_Cons byte_diff_0)
qed simp

lemma strcmp_cstr:
  assumes "cstr m p xs" and "cstr m q ys"
  shows "\<exists>r. strcmp m p q = Some r \<and> (r = 0 \<longleftrightarrow> xs = ys)"
  using assms
proof (induction xs arbitrary: p q ys)
  case Nil
  then show ?case by (cases ys; subst strcmp.simps) (auto simp: cstr_Nil cstr_Cons byte_diff_0)
next
  case (Cons x xs)
  then show ?case by (cases ys; subst strcmp.simps) (auto simp: cstr_Nil cstr_Cons byte_diff_0)
qed

lemma strcpy_cstr:
  assumes "cstr m t xs" and "s + length xs < t \<or> t + length xs < s"
  shows "strcpy m s t = Some (mem_write s (xs @ [0]) m)"
  using assms
proof (induction xs arbitrary: s t m)
  case Nil
  then show ?case by (subst strcpy.simps) (auto simp: cstr_Nil mem_write_def fun_eq_iff)
next
  case (Cons x xs)
  then have x: "x \<noteq> 0" "m t = x" "cstr m (Suc t) xs" by (simp_all add: cstr_Cons)
  have c: "cstr (m(s := x)) (t + 1) xs"
    using x(3) Cons.prems(2) cstr_nth [OF x(3)] cstr_end [OF x(3)] by (intro cstrI) auto
  then have "strcpy (m(s := x)) (s + 1) (t + 1) = Some (mem_write (s + 1) (xs @ [0]) (m(s := x)))"
    using Cons.prems(2) by (intro Cons.IH [OF c]) auto
  then show ?case using x by (subst strcpy.simps) (simp add: mem_write_Cons)
qed

lemma strchr_cstr:
  assumes "cstr m s xs" and "c \<noteq> 0"
  shows "strchr m s c = Some (if c \<in> set xs then Some (s + length (takeWhile (\<lambda>x. x \<noteq> c) xs)) else None)"
  using assms(1)
proof (induction xs arbitrary: s)
  case Nil
  then show ?case by (subst strchr.simps) (simp add: cstr_Nil)
next
  case (Cons x xs)
  then show ?case by (subst strchr.simps) (auto simp: cstr_Cons)
qed

end
