(* ===== verification/Printf.thy ===== *)
theory Printf
  imports CString
begin

text \<open>
  Formatted output: \<^verbatim>\<open>printint\<close> and \<^verbatim>\<open>printf\<close> of the user library (\<^verbatim>\<open>printf.c\<close>) and the kernel's
  \<^verbatim>\<open>printint\<close> and \<^verbatim>\<open>cprintf\<close> (\<^verbatim>\<open>console.c\<close>), as the sequence of characters they emit.  The arguments are
  the stack words after the format, as a function of their position.
\<close>

section \<open>Integers\<close>

text \<open>The digits of \<open>x\<close>, least significant first: the loop that fills \<^verbatim>\<open>buf\<close>.\<close>

function digit_loop :: "byte list \<Rightarrow> nat \<Rightarrow> nat \<Rightarrow> byte list" where
  "digit_loop digits base x =
     digits ! (x mod base) # (if base < 2 \<or> x div base = 0 then [] else digit_loop digits base (x div base))"
  by pat_completeness auto
termination
proof (relation "measure (\<lambda>(digits, base, x). x)")
  fix digits :: "byte list" and base x :: nat
  assume "\<not> (base < 2 \<or> x div base = 0)"
  then have "1 < base" "0 < x" by (auto intro: Nat.gr0I)
  then show "((digits, base, x div base), digits, base, x) \<in> measure (\<lambda>(digits, base, x). x)" by simp
qed simp

declare digit_loop.simps [simp del]

definition bytes_of :: "string \<Rightarrow> byte list" where
  "bytes_of s = map (\<lambda>c. of_char c) s"

definition lower_digits :: "byte list" where
  "lower_digits = bytes_of ''0123456789abcdef''"

definition upper_digits :: "byte list" where
  "upper_digits = bytes_of ''0123456789ABCDEF''"

text \<open>\<open>xx\<close> is an \<^verbatim>\<open>int\<close>; negating it and converting it to \<^verbatim>\<open>uint\<close> are modulo \<open>2 ^ 32\<close>.\<close>

definition print_chars :: "byte list \<Rightarrow> int \<Rightarrow> nat \<Rightarrow> bool \<Rightarrow> byte list" where
  "print_chars digits xx base sg =
     (let neg = sg \<and> xx < 0;
          x = nat ((if neg then - xx else xx) mod 2 ^ 32);
          buf = digit_loop digits base x @ (if neg then [45] else [])
      in rev buf)"

definition printint :: "int \<Rightarrow> nat \<Rightarrow> bool \<Rightarrow> byte list" where
  "printint xx base sg = print_chars upper_digits xx base sg"

definition cons_printint :: "int \<Rightarrow> nat \<Rightarrow> bool \<Rightarrow> byte list" where
  "cons_printint xx base sg = print_chars lower_digits xx base sg"

section \<open>Formats\<close>

text \<open>The string a \<^verbatim>\<open>%s\<close> argument points to, with \<^verbatim>\<open>(null)\<close> for the null pointer; \<open>None\<close> if it does not end.\<close>

partial_function (option) str_at :: "memory \<Rightarrow> nat \<Rightarrow> byte list option" where
  "str_at m p = (if m p = 0 then Some [] else Option.bind (str_at m (p + 1)) (\<lambda>xs. Some (m p # xs)))"

definition str_arg :: "memory \<Rightarrow> nat \<Rightarrow> byte list option" where
  "str_arg m p = (if p = 0 then Some (bytes_of ''(null)'') else str_at m p)"

text \<open>The loop of \<^verbatim>\<open>printf\<close>: \<open>state\<close> is set after a percent sign.\<close>

fun printf_loop :: "memory \<Rightarrow> bool \<Rightarrow> byte list \<Rightarrow> nat \<Rightarrow> (nat \<Rightarrow> nat) \<Rightarrow> byte list option" where
  "printf_loop m state [] ap args = Some []"
| "printf_loop m False (c # fmt) ap args =
     (if c = 37 then printf_loop m True fmt ap args
      else Option.bind (printf_loop m False fmt ap args) (\<lambda>out. Some (c # out)))"
| "printf_loop m True (c # fmt) ap args =
     (if c = 100 then
        Option.bind (printf_loop m False fmt (ap + 1) args)
          (\<lambda>out. Some (printint (to_s32 (int (args ap))) 10 True @ out))
      else if c = 120 \<or> c = 112 then
        Option.bind (printf_loop m False fmt (ap + 1) args)
          (\<lambda>out. Some (printint (to_s32 (int (args ap))) 16 False @ out))
      else if c = 115 then
        Option.bind (str_arg m (args ap)) (\<lambda>s.
        Option.bind (printf_loop m False fmt (ap + 1) args) (\<lambda>out. Some (s @ out)))
      else if c = 99 then
        Option.bind (printf_loop m False fmt (ap + 1) args) (\<lambda>out. Some (of_nat (args ap) # out))
      else if c = 37 then
        Option.bind (printf_loop m False fmt ap args) (\<lambda>out. Some (c # out))
      else Option.bind (printf_loop m False fmt ap args) (\<lambda>out. Some (37 # c # out)))"

definition printf :: "memory \<Rightarrow> byte list \<Rightarrow> (nat \<Rightarrow> nat) \<Rightarrow> byte list option" where
  "printf m fmt args = printf_loop m False fmt 0 args"

text \<open>The kernel's \<^verbatim>\<open>cprintf\<close> reads the character after a percent sign in the same iteration, stops at a
  percent sign that ends the format, and has no \<^verbatim>\<open>%c\<close>.\<close>

fun cprintf_loop :: "memory \<Rightarrow> byte list \<Rightarrow> nat \<Rightarrow> (nat \<Rightarrow> nat) \<Rightarrow> byte list option" where
  "cprintf_loop m [] ap args = Some []"
| "cprintf_loop m [c] ap args = Some (if c = 37 then [] else [c])"
| "cprintf_loop m (p # c # fmt) ap args =
     (if p \<noteq> 37 then Option.bind (cprintf_loop m (c # fmt) ap args) (\<lambda>out. Some (p # out))
      else if c = 100 then
        Option.bind (cprintf_loop m fmt (ap + 1) args)
          (\<lambda>out. Some (cons_printint (to_s32 (int (args ap))) 10 True @ out))
      else if c = 120 \<or> c = 112 then
        Option.bind (cprintf_loop m fmt (ap + 1) args)
          (\<lambda>out. Some (cons_printint (to_s32 (int (args ap))) 16 False @ out))
      else if c = 115 then
        Option.bind (str_arg m (args ap)) (\<lambda>s.
        Option.bind (cprintf_loop m fmt (ap + 1) args) (\<lambda>out. Some (s @ out)))
      else if c = 37 then Option.bind (cprintf_loop m fmt ap args) (\<lambda>out. Some (37 # out))
      else Option.bind (cprintf_loop m fmt ap args) (\<lambda>out. Some (37 # c # out)))"

section \<open>Digits\<close>

lemma upper_digits_nth:
  "d < 10 \<Longrightarrow> upper_digits ! d = of_nat (48 + d)" "d < 10 \<Longrightarrow> lower_digits ! d = of_nat (48 + d)"
proof -
  assume "d < 10"
  then have "d \<in> {0, 1, 2, 3, 4, 5, 6, 7, 8, 9}" by auto
  then show "upper_digits ! d = of_nat (48 + d)" "lower_digits ! d = of_nat (48 + d)"
    by (auto simp: upper_digits_def lower_digits_def bytes_of_def of_char_def)
qed

lemma to_s32_id: "- (2 ^ 31) \<le> x \<Longrightarrow> x < 2 ^ 31 \<Longrightarrow> to_s32 x = x"
  by (simp add: to_s32_def)

lemma atoi_digit:
  assumes "0 \<le> n" "n * 10 + int d < 2 ^ 31" "d < 10"
  shows "atoi_loop n (of_nat (48 + d) # r) = atoi_loop (n * 10 + int d) r"
proof -
  have "unat (of_nat (48 + d) :: byte) = 48 + d" using assms(3) by (simp add: unat_of_nat del: of_nat_add)
  then show ?thesis using assms by (simp add: to_s32_id)
qed

lemma atoi_digit_loop:
  assumes "\<And>d. d < 10 \<Longrightarrow> digits ! d = of_nat (48 + d)" and "x < 2 ^ 31"
  shows "atoi_loop 0 (rev (digit_loop digits 10 x) @ r) = atoi_loop (int x) r"
  using assms
proof (induction digits "10 :: nat" x arbitrary: r rule: digit_loop.induct)
  case (1 digits x)
  show ?case
  proof (cases "x div 10 = 0")
    case True
    then have "x < 10" by simp
    then show ?thesis
      using True atoi_digit [of 0 x r] 1(2) by (subst digit_loop.simps) simp
  next
    case False
    let ?d = "x mod 10"
    have eq: "int (x div 10) * 10 + int ?d = int x"
      by (metis div_mult_mod_eq of_nat_add of_nat_mult of_nat_numeral)
    have "atoi_loop 0 (rev (digit_loop digits 10 (x div 10)) @ of_nat (48 + ?d) # r) =
        atoi_loop (int (x div 10)) (of_nat (48 + ?d) # r)"
      using False 1(2,3) by (intro 1(1)) auto
    also have "\<dots> = atoi_loop (int (x div 10) * 10 + int ?d) r"
      using 1(3) eq by (intro atoi_digit) simp_all
    also have "\<dots> = atoi_loop (int x) r" by (simp only: eq)
    finally show ?thesis using False 1(2) [of ?d] by (subst digit_loop.simps) simp
  qed
qed

text \<open>C27: Printing a number and reading it back are inverse: \<open>atoi\<close> applied to what \<open>printf\<close> emits for
  \<^verbatim>\<open>%d\<close> returns every non-negative \<^verbatim>\<open>int\<close>, whatever follows it that is not a digit.\<close>

theorem atoi_printint:
  assumes "0 \<le> n" and "n < 2 ^ 31" and "c < 48 \<or> 57 < c"
  shows "atoi (printint n 10 True @ [c]) = n"
proof -
  have "atoi (printint n 10 True @ [c]) = atoi_loop 0 (rev (digit_loop upper_digits 10 (nat n)) @ [c])"
    using assms(1,2) by (simp add: atoi_def printint_def print_chars_def Let_def)
  also have "\<dots> = atoi_loop (int (nat n)) [c]"
    using assms(1,2) upper_digits_nth(1) by (intro atoi_digit_loop) auto
  also have "\<dots> = n" using assms(1,3) by (auto simp: word_less_nat_alt)
  finally show ?thesis .
qed

theorem atoi_printint_witness: "atoi (printint 2147483647 10 True @ [0]) = 2147483647"
  using atoi_printint [of 2147483647 0] by simp

lemma length_digit_loop:
  assumes "2 \<le> base" and "x < base ^ k" and "0 < k"
  shows "length (digit_loop digits base x) \<le> k"
  using assms
proof (induction k arbitrary: x)
  case (Suc k)
  show ?case
  proof (cases "x div base = 0")
    case True
    then show ?thesis by (subst digit_loop.simps) simp
  next
    case False
    then have "base \<le> x" using Suc.prems(1) by (auto simp: div_eq_0_iff)
    then have "0 < k" using Suc.prems(2) by (cases k) auto
    have "x div base < base ^ k" using Suc.prems by (simp add: less_mult_imp_div_less mult.commute)
    then show ?thesis using Suc \<open>0 < k\<close> False by (subst digit_loop.simps) simp
  qed
qed simp

lemma print_chars_length:
  assumes "2 \<le> base" and "2 ^ 32 \<le> base ^ k" and "0 < k"
  shows "length (print_chars digits xx base sg) \<le> k + 1"
proof -
  have "nat (y mod 2 ^ 32) < base ^ k" for y :: int
  proof -
    have "nat (y mod 2 ^ 32) < 2 ^ 32" by (simp add: nat_less_iff)
    then show ?thesis using assms(2) by (rule less_le_trans)
  qed
  then have "length (digit_loop digits base (nat (y mod 2 ^ 32))) \<le> k" for y :: int
    using assms by (intro length_digit_loop) auto
  then show ?thesis by (auto simp: print_chars_def Let_def intro: le_SucI)
qed

text \<open>C30: The 16-byte buffers of both \<open>printint\<close> functions suffice: whatever the argument and the sign
  flag, they hold at most eleven characters in base 10 and nine in base 16.\<close>

theorem printint_buffer:
  "length (printint xx 10 sg) \<le> 11 \<and> length (printint xx 16 sg) \<le> 9 \<and>
   length (cons_printint xx 10 sg) \<le> 11 \<and> length (cons_printint xx 16 sg) \<le> 9"
  using print_chars_length [of 10 10 upper_digits xx sg] print_chars_length [of 16 8 upper_digits xx sg]
    print_chars_length [of 10 10 lower_digits xx sg] print_chars_length [of 16 8 lower_digits xx sg]
  by (simp add: printint_def cons_printint_def)

end
