(* ===== verification/Base64.thy ===== *)
theory Base64
  imports Printf
begin

text \<open>
  The program \<^verbatim>\<open>base64.c\<close>.  \<open>encode\<close> is given what the successive three-byte reads of its descriptor
  deliver; \<open>base64_main\<close> the arguments and what opening and examining each of them gives.  \<^verbatim>\<open>char\<close> is
  signed, so a byte is sign-extended when it is added to \<^verbatim>\<open>bits\<close>, a 32-bit \<^verbatim>\<open>int\<close>; shifting right divides
  rounding down, and \<^verbatim>\<open>& 63\<close> is the remainder modulo 64.
\<close>

section \<open>The encoder\<close>

definition key :: "byte list" where
  "key = bytes_of ''ABCDEFGHIJKLMNOPQRSTUVWXYZabcdefghijklmnopqrstuvwxyz0123456789+/''"

definition schar :: "byte \<Rightarrow> int" where
  "schar c = (if unat c < 128 then int (unat c) else int (unat c) - 256)"

definition accumulate :: "byte list \<Rightarrow> int" where
  "accumulate buf = foldl (\<lambda>bits c. to_s32 (to_s32 (bits * 2 ^ 8) + schar c)) 0 buf"

definition sextet :: "nat \<Rightarrow> int \<Rightarrow> byte" where
  "sextet k bits = key ! nat (bits div 2 ^ k mod 64)"

text \<open>One iteration: the characters printed for the bytes one read delivered.\<close>

definition encode_chunk :: "byte list \<Rightarrow> byte list" where
  "encode_chunk buf =
     (let n = length buf; bits = accumulate buf in
      if n = 1 then let bits = to_s32 (bits * 2 ^ 4) in [sextet 6 bits, sextet 0 bits, 61, 61]
      else if n = 2 then let bits = to_s32 (bits * 2 ^ 2) in [sextet 12 bits, sextet 6 bits, sextet 0 bits, 61]
      else if n = 3 then [sextet 18 bits, sextet 12 bits, sextet 6 bits, sextet 0 bits]
      else [])"

text \<open>The loop: it ends at the first read that returns nothing.\<close>

fun encode :: "byte list list \<Rightarrow> byte list" where
  "encode [] = [10]"
| "encode (buf # reads) = (if buf = [] then [10] else encode_chunk buf @ encode reads)"

text \<open>\<^verbatim>\<open>main\<close>: the output on descriptors 1 and 2, in order.  An argument that opens gives the type
  \<^verbatim>\<open>fstat\<close> reports, if it succeeds, and the data its reads deliver.\<close>

fun base64_files :: "(byte list \<Rightarrow> (int option \<times> byte list list) option) \<Rightarrow> byte list list \<Rightarrow> (nat \<times> byte list) list" where
  "base64_files opn [] = []"
| "base64_files opn (arg # args) =
     (case opn arg of
        None \<Rightarrow> [(2, bytes_of ''base64: cannot open '' @ arg @ [10])]
      | Some (st, reads) \<Rightarrow>
          (case st of
             None \<Rightarrow> [(2, bytes_of ''base64: cannot stat '' @ arg @ [10])]
           | Some ty \<Rightarrow>
               if ty \<noteq> 2 then [(2, bytes_of ''base64: cannot encode '' @ arg @ [10])]
               else [(1, arg @ bytes_of '': ''), (1, encode reads)]))
     @ base64_files opn args"

definition base64_main ::
  "(byte list \<Rightarrow> (int option \<times> byte list list) option) \<Rightarrow> byte list list \<Rightarrow> byte list list \<Rightarrow> (nat \<times> byte list) list" where
  "base64_main opn stdin argv =
     (if length argv = 1 then [(1, encode stdin)] else base64_files opn (tl argv))"

section \<open>A decoder\<close>

text \<open>The reference: base-64 decoding of groups of four characters (RFC 4648).\<close>

definition unkey :: "byte \<Rightarrow> nat" where
  "unkey c = length (takeWhile (\<lambda>x. x \<noteq> c) key)"

fun decode :: "byte list \<Rightarrow> byte list" where
  "decode (a # b # c # d # rest) =
     (let v = unkey a * 2 ^ 18 + unkey b * 2 ^ 12 + (if c = 61 then 0 else unkey c) * 2 ^ 6 +
              (if d = 61 then 0 else unkey d)
      in (if c = 61 then [of_nat (v div 2 ^ 16)]
          else if d = 61 then [of_nat (v div 2 ^ 16), of_nat (v div 2 ^ 8)]
          else [of_nat (v div 2 ^ 16), of_nat (v div 2 ^ 8), of_nat v]) @ decode rest)"
| "decode _ = []"

lemma length_key: "length key = 64"
  by (simp add: key_def bytes_of_def)

lemma distinct_key: "distinct key"
  by (simp add: key_def bytes_of_def of_char_def)

lemma pad_not_key: "61 \<notin> set key"
  by (simp add: key_def bytes_of_def of_char_def)

lemma unkey_key:
  assumes "i < 64"
  shows "unkey (key ! i) = i" and "key ! i \<noteq> 61"
proof -
  have i: "i < length key" using assms by (simp add: length_key)
  have "takeWhile (\<lambda>x. x \<noteq> key ! i) key = take i key"
  proof (rule takeWhile_eq_take_P_nth)
    show "key ! j \<noteq> key ! i" if "j < i" "j < length key" for j
      using that i distinct_key by (auto simp: nth_eq_iff_index_eq)
  qed auto
  then show "unkey (key ! i) = i" using i by (simp add: unkey_def)
  show "key ! i \<noteq> 61" using pad_not_key i nth_mem by metis
qed

section \<open>Encoding and decoding\<close>

text \<open>Reads as a file gives them: three bytes each but the last.\<close>

fun reads_of :: "byte list \<Rightarrow> byte list list" where
  "reads_of (a # b # c # rest) = [a, b, c] # reads_of rest"
| "reads_of [] = []"
| "reads_of xs = [xs]"

definition ascii7 :: "byte list \<Rightarrow> bool" where
  "ascii7 xs \<longleftrightarrow> (\<forall>x \<in> set xs. unat x < 128)"

lemma unat_small_byte: "x < 256 \<Longrightarrow> unat (of_nat x :: byte) = x"
  by (simp add: unat_of_nat)

lemma ascii_byte:
  assumes "unat (c :: byte) < 128"
  obtains x where "c = of_nat x" "x < 128"
  using that [of "unat c"] assms by simp

lemma schar_ascii: "x < 128 \<Longrightarrow> schar (of_nat x) = int x"
  unfolding schar_def by (simp only: unat_small_byte) simp

lemma accumulate_ascii:
  "a < 128 \<Longrightarrow> accumulate [of_nat a] = int a"
  "a < 128 \<Longrightarrow> b < 128 \<Longrightarrow> accumulate [of_nat a, of_nat b] = int (a * 256 + b)"
  "a < 128 \<Longrightarrow> b < 128 \<Longrightarrow> c < 128 \<Longrightarrow>
     accumulate [of_nat a, of_nat b, of_nat c] = int (a * 65536 + b * 256 + c)"
  by (simp_all add: accumulate_def schar_ascii to_s32_id)

lemma sextet_nat: "sextet k (int n) = key ! (n div 2 ^ k mod 64)"
proof -
  have "int n div 2 ^ k mod 64 = int (n div 2 ^ k mod 64)" by (simp add: zdiv_int zmod_int)
  then show ?thesis by (simp only: sextet_def nat_int)
qed

lemma unkey_sextet: "unkey (sextet k (int n)) = n div 2 ^ k mod 64" "sextet k (int n) \<noteq> 61"
  by (simp_all add: sextet_nat unkey_key)

lemma sextets:
  assumes "n < 2 ^ 24"
  shows "n div 2 ^ 18 mod 64 * 2 ^ 18 + n div 2 ^ 12 mod 64 * 2 ^ 12 + n div 2 ^ 6 mod 64 * 2 ^ 6 + n mod 64 = (n :: nat)"
proof -
  define q1 q2 q3 where q: "q1 = n div 64" "q2 = q1 div 64" "q3 = q2 div 64"
  have "n div 2 ^ 6 = q1" "n div 2 ^ 12 = q2" "n div 2 ^ 18 = q3" by (simp_all add: q flip: div_mult2_eq)
  moreover have "q3 mod 64 = q3" using assms by (simp add: q flip: div_mult2_eq)
  moreover have "q1 * 64 + n mod 64 = n" "q2 * 64 + q1 mod 64 = q1" "q3 * 64 + q2 mod 64 = q2"
    unfolding q by (rule div_mult_mod_eq)+
  ultimately show ?thesis by simp
qed

lemma of_nat_byte_eqI: "x mod 256 = y mod 256 \<Longrightarrow> (of_nat x :: byte) = of_nat y"
  by (simp add: word_of_nat_eq_iff take_bit_eq_mod)

lemma decode3:
  assumes "n < 2 ^ 24"
  shows "decode (sextet 18 (int n) # sextet 12 (int n) # sextet 6 (int n) # sextet 0 (int n) # rest) =
    [of_nat (n div 2 ^ 16), of_nat (n div 2 ^ 8), of_nat n] @ decode rest"
  using sextets [OF assms] unkey_sextet [of 18 n] unkey_sextet [of 12 n] unkey_sextet [of 6 n]
    unkey_sextet [of 0 n] by (simp add: Let_def)

lemma decode_chunk:
  assumes "ascii7 buf" and "buf \<noteq> []" and "length buf \<le> 3"
  shows "decode (encode_chunk buf @ rest) = buf @ decode rest"
proof -
  consider a where "buf = [a]" | a b where "buf = [a, b]" | a b c where "buf = [a, b, c]"
    using assms(2,3) by (auto simp: neq_Nil_conv le_Suc_eq length_Suc_conv numeral_eq_Suc)
  then show ?thesis
  proof cases
    case 1
    then obtain x where x: "a = of_nat x" "x < 128" using assms(1) by (auto simp: ascii7_def elim: ascii_byte)
    have "to_s32 (int x * 2 ^ 4) = int (x * 16)" using x by (simp add: to_s32_id)
    moreover have "x * 16 div 2 ^ 6 mod 64 * 2 ^ 18 + x * 16 mod 64 * 2 ^ 12 = x * 2 ^ 16"
      using x(2) div_mult_mod_eq [of "x * 16" 64] by simp
    ultimately show ?thesis
      using 1 x unkey_sextet [of 6 "x * 16"] unkey_sextet [of 0 "x * 16"]
      by (simp add: encode_chunk_def accumulate_ascii Let_def)
  next
    case 2
    then obtain x y where x: "a = of_nat x" "x < 128" "b = of_nat y" "y < 128"
      using assms(1) by (auto simp: ascii7_def elim!: ascii_byte)
    let ?n = "(x * 256 + y) * 4"
    have "to_s32 (int (x * 256 + y) * 2 ^ 2) = int ?n" using x by (simp add: to_s32_id)
    moreover have "?n div 2 ^ 12 mod 64 * 2 ^ 18 + ?n div 2 ^ 6 mod 64 * 2 ^ 12 + ?n mod 64 * 2 ^ 6 = (x * 256 + y) * 2 ^ 8"
      using x(2,4) sextets [of ?n] by simp
    moreover have "(x * 256 + y) * 2 ^ 8 div 2 ^ 16 = x" "(x * 256 + y) * 2 ^ 8 div 2 ^ 8 = x * 256 + y"
      using x(4) by simp_all
    moreover have "(of_nat (256 * x + y) :: byte) = of_nat y" by (rule of_nat_byte_eqI) simp
    ultimately show ?thesis
      using 2 x unkey_sextet [of 12 ?n] unkey_sextet [of 6 ?n] unkey_sextet [of 0 ?n]
      by (simp add: encode_chunk_def accumulate_ascii Let_def del: of_nat_add of_nat_mult)
  next
    case 3
    then obtain x y z where x: "a = of_nat x" "x < 128" "b = of_nat y" "y < 128" "c = of_nat z" "z < 128"
      using assms(1) by (auto simp: ascii7_def elim!: ascii_byte)
    let ?n = "x * 65536 + y * 256 + z"
    have "?n < 2 ^ 24" "?n div 2 ^ 16 = x" "?n div 2 ^ 8 = x * 256 + y" using x by simp_all
    moreover have "(of_nat (x * 256 + y) :: byte) = of_nat y" by (rule of_nat_byte_eqI) simp
    moreover have "?n = z + (x * 256 + y) * 256" by simp
    then have "(of_nat ?n :: byte) = of_nat z"
      by (intro of_nat_byte_eqI) (simp only: mod_mult_self1)
    ultimately show ?thesis
      using 3 x decode3 [of ?n rest]
      by (simp add: encode_chunk_def accumulate_ascii Let_def del: of_nat_add of_nat_mult decode.simps)
  qed
qed

lemma encode_reads_of:
  "ascii7 xs \<Longrightarrow> decode (encode (reads_of xs)) = xs"
proof (induction xs rule: reads_of.induct, goal_cases)
  case (1 a b c rest)
  then have "ascii7 [a, b, c]" "ascii7 rest" by (simp_all add: ascii7_def)
  then show ?case using 1(1) decode_chunk [of "[a, b, c]"] by simp
next
  case (3 a)
  then show ?case using decode_chunk [of "[a]" "[10]"] by simp
next
  case (4 a b)
  then show ?case using decode_chunk [of "[a, b]" "[10]"] by simp
qed simp



end
