(* ===== verification/Kalloc.thy ===== *)
theory Kalloc
  imports Memory
begin

text \<open>
  The physical page allocator of \<^verbatim>\<open>kalloc.c\<close>.  Its state is the memory the kernel addresses, the
  head of the free list and the flag \<^verbatim>\<open>use_lock\<close>; the free list is threaded through the first four
  bytes of every free page, as the code does.  \<open>freelist_of\<close> relates the head pointer to the list
  of free pages it denotes, \<open>kmem_inv\<close> is the allocator's invariant, and the lemmas show that
  \<open>kalloc\<close> hands out a page of the list, \<open>kfree\<close> returns one, and that neither they nor writes to
  pages in use break the list.  The spin lock around the list operations makes each of them one
  step, which is how the model has them.  \<open>km_end\<close> is the linker's symbol \<^verbatim>\<open>end\<close>.
\<close>

section \<open>Addresses (mmu.h, memlayout.h)\<close>

abbreviation PGSIZE :: nat where "PGSIZE \<equiv> 4096"
abbreviation EXTMEM :: nat where "EXTMEM \<equiv> 0x100000"
abbreviation PHYSTOP :: nat where "PHYSTOP \<equiv> 0xE000000"
abbreviation DEVSPACE :: nat where "DEVSPACE \<equiv> 0xFE000000"
abbreviation KERNBASE :: nat where "KERNBASE \<equiv> 0x80000000"

definition V2P :: "nat \<Rightarrow> nat" where
  "V2P a = (a + 2 ^ 32 - KERNBASE) mod 2 ^ 32"

definition P2V :: "nat \<Rightarrow> nat" where
  "P2V a = (a + KERNBASE) mod 2 ^ 32"

definition PGROUNDUP :: "nat \<Rightarrow> nat" where
  "PGROUNDUP sz = unat ((of_nat sz + of_nat (PGSIZE - 1) :: 32 word) AND NOT (of_nat (PGSIZE - 1)))"

definition PGROUNDDOWN :: "nat \<Rightarrow> nat" where
  "PGROUNDDOWN a = unat ((of_nat a :: 32 word) AND NOT (of_nat (PGSIZE - 1)))"

lemma mask12: "(of_nat (PGSIZE - 1) :: 32 word) = mask 12"
  by (simp add: mask_eq_exp_minus_1)

lemma PGROUNDUP_eq: "PGROUNDUP sz = (sz + 4095) mod 2 ^ 32 div 4096 * 4096"
proof -
  have "unat (of_nat sz + of_nat (PGSIZE - 1) :: 32 word) = (sz + 4095) mod 2 ^ 32"
    by (simp only: of_nat_add [symmetric] unat_of_nat) simp
  then show ?thesis
    by (simp only: PGROUNDUP_def mask12 unat_and_not_mask) simp
qed

lemma PGROUNDDOWN_eq: "PGROUNDDOWN a = a mod 2 ^ 32 div 4096 * 4096"
proof -
  have "unat (of_nat a :: 32 word) = a mod 2 ^ 32" by (simp add: unat_of_nat)
  then show ?thesis
    by (simp only: PGROUNDDOWN_def mask12 unat_and_not_mask) simp
qed

lemma V2P_kernel: "KERNBASE \<le> v \<Longrightarrow> v < 2 ^ 32 \<Longrightarrow> V2P v = v - KERNBASE"
proof -
  assume "KERNBASE \<le> v" "v < 2 ^ 32"
  then have "v + 2 ^ 32 - KERNBASE = v - KERNBASE + 2 ^ 32" and "v - KERNBASE < 2 ^ 32" by simp_all
  then show ?thesis by (simp only: V2P_def mod_add_self2 mod_less)
qed

lemma P2V_V2P: "v < 2 ^ 32 \<Longrightarrow> P2V (V2P v) = v"
  by (simp add: V2P_def P2V_def mod_simps)

section \<open>The allocator\<close>

record kmem_state =
  km_mem :: memory
  km_freelist :: nat      \<comment> \<open>\<^verbatim>\<open>kmem.freelist\<close>, 0 for the null pointer\<close>
  km_use_lock :: bool
  km_end :: nat

definition kfree :: "nat \<Rightarrow> ('a kmem_state_scheme, unit) kernel" where
  "kfree v = kbind (kget id) (\<lambda>s.
     if v mod PGSIZE \<noteq> 0 \<or> v < km_end s \<or> V2P v \<ge> PHYSTOP
     then kpanic ''kfree''
     else kmodify (\<lambda>s. s\<lparr>km_mem := write_u32 v (km_freelist s) (mem_set v 1 PGSIZE (km_mem s)),
                          km_freelist := v\<rparr>))"

definition kalloc :: "('a kmem_state_scheme, nat) kernel" where
  "kalloc = kbind (kget km_freelist) (\<lambda>r.
     kseq (kwhen (r \<noteq> 0) (kmodify (\<lambda>s. s\<lparr>km_freelist := read_u32 r (km_mem s)\<rparr>)))
          (kreturn r))"

function freerange_loop :: "nat \<Rightarrow> nat \<Rightarrow> ('a kmem_state_scheme, unit) kernel" where
  "freerange_loop p vend =
     (if p + PGSIZE \<le> vend then kseq (kfree p) (freerange_loop (p + PGSIZE) vend)
      else kreturn ())"
  by pat_completeness auto
termination
  by (relation "measure (\<lambda>(p, vend). vend - p)") auto

declare freerange_loop.simps [simp del]

definition freerange :: "nat \<Rightarrow> nat \<Rightarrow> ('a kmem_state_scheme, unit) kernel" where
  "freerange vstart vend = freerange_loop (PGROUNDUP vstart) vend"

definition kinit1 :: "nat \<Rightarrow> nat \<Rightarrow> ('a kmem_state_scheme, unit) kernel" where
  "kinit1 vstart vend =
     kseq (kmodify (\<lambda>s. s\<lparr>km_use_lock := False\<rparr>)) (freerange vstart vend)"

definition kinit2 :: "nat \<Rightarrow> nat \<Rightarrow> ('a kmem_state_scheme, unit) kernel" where
  "kinit2 vstart vend =
     kseq (freerange vstart vend) (kmodify (\<lambda>s. s\<lparr>km_use_lock := True\<rparr>))"

section \<open>The free list and its invariant\<close>

primrec freelist_of :: "memory \<Rightarrow> nat \<Rightarrow> nat list \<Rightarrow> bool" where
  "freelist_of m p [] \<longleftrightarrow> p = 0"
| "freelist_of m p (x # xs) \<longleftrightarrow> p = x \<and> x \<noteq> 0 \<and> freelist_of m (read_u32 x m) xs"

definition page_ok :: "nat \<Rightarrow> nat \<Rightarrow> bool" where
  "page_ok e v \<longleftrightarrow> v mod PGSIZE = 0 \<and> e \<le> v \<and> v < 2 ^ 32 \<and> V2P v < PHYSTOP"

text \<open>\<open>kmem_inv s xs\<close>: the free list of \<open>s\<close> is \<open>xs\<close>, its pages are distinct and lie between the
  end of the kernel and the top of physical memory.\<close>

definition kmem_inv :: "'a kmem_state_scheme \<Rightarrow> nat list \<Rightarrow> bool" where
  "kmem_inv s xs \<longleftrightarrow> freelist_of (km_mem s) (km_freelist s) xs \<and> distinct xs \<and>
     (\<forall>x \<in> set xs. page_ok (km_end s) x) \<and> KERNBASE \<le> km_end s"

lemma page_ok_disjoint:
  "page_ok e x \<Longrightarrow> page_ok e y \<Longrightarrow> x \<noteq> y \<Longrightarrow> x + PGSIZE \<le> y \<or> y + PGSIZE \<le> x"
proof -
  assume "page_ok e x" "page_ok e y" "x \<noteq> y"
  then obtain a b where "x = PGSIZE * a" "y = PGSIZE * b" "a \<noteq> b"
    by (auto simp: page_ok_def mod_eq_0_iff_dvd dvd_def)
  then show ?thesis by (cases "a < b") auto
qed

lemma freelist_of_cong:
  "\<forall>x \<in> set xs. agree_on x 4 m m' \<Longrightarrow> freelist_of m p xs = freelist_of m' p xs"
  by (induction xs arbitrary: p) (auto simp: read_u32_cong)

lemma freelist_of_unique: "freelist_of m p xs \<Longrightarrow> freelist_of m p ys \<Longrightarrow> xs = ys"
proof (induction xs arbitrary: p ys)
  case Nil
  then show ?case by (cases ys) auto
next
  case (Cons x xs)
  then show ?case by (cases ys) auto
qed

lemma kmem_inv_unique: "kmem_inv s xs \<Longrightarrow> kmem_inv s ys \<Longrightarrow> xs = ys"
  by (auto simp: kmem_inv_def dest: freelist_of_unique)

lemma kmem_inv_cong:
  assumes "kmem_inv s xs" and "km_freelist t = km_freelist s" and "km_end t = km_end s"
    and "\<forall>x \<in> set xs. agree_on x PGSIZE (km_mem s) (km_mem t)"
  shows "kmem_inv t xs"
proof -
  have "\<forall>x \<in> set xs. agree_on x 4 (km_mem s) (km_mem t)"
    using assms(4) by (auto intro: agree_on_sub)
  then have "freelist_of (km_mem s) (km_freelist s) xs = freelist_of (km_mem t) (km_freelist s) xs"
    by (rule freelist_of_cong)
  with assms show ?thesis by (simp add: kmem_inv_def)
qed

text \<open>Writing to a page that is not free leaves the allocator alone.\<close>

lemma kmem_inv_write_used:
  assumes "kmem_inv s xs" and "page_ok (km_end s) p" and "p \<notin> set xs"
    and "\<forall>x. \<not> (p \<le> x \<and> x < p + PGSIZE) \<longrightarrow> m x = km_mem s x"
  shows "kmem_inv (s\<lparr>km_mem := m\<rparr>) xs"
proof (rule kmem_inv_cong [OF assms(1)])
  show "\<forall>x \<in> set xs. agree_on x PGSIZE (km_mem s) (km_mem (s\<lparr>km_mem := m\<rparr>))"
  proof
    fix x assume x: "x \<in> set xs"
    then have "page_ok (km_end s) x" "x \<noteq> p" using assms by (auto simp: kmem_inv_def)
    then have "x + PGSIZE \<le> p \<or> p + PGSIZE \<le> x" using assms(2) page_ok_disjoint by blast
    then show "agree_on x PGSIZE (km_mem s) (km_mem (s\<lparr>km_mem := m\<rparr>))"
      using assms(4) by (auto simp: agree_on_def)
  qed
qed simp_all

lemma kalloc_empty: "kmem_inv s [] \<Longrightarrow> kalloc s = Done 0 s"
  by (simp add: kmem_inv_def kalloc_def kernel_defs)

lemma kalloc_Cons:
  assumes "kmem_inv s (x # xs)"
  shows "\<exists>t. kalloc s = Done x t \<and> kmem_inv t xs \<and> km_mem t = km_mem s \<and>
    t = s\<lparr>km_freelist := read_u32 x (km_mem s)\<rparr>"
  using assms by (auto simp: kmem_inv_def kalloc_def kernel_defs)

lemma kfree_panics:
  "\<not> page_ok (km_end s) v \<Longrightarrow> v < 2 ^ 32 \<Longrightarrow> kfree v s = Panic ''kfree''"
  by (auto simp: kfree_def page_ok_def kernel_defs)

lemma kfree_ok:
  assumes inv: "kmem_inv s xs" and ok: "page_ok (km_end s) v" and new: "v \<notin> set xs"
  shows "\<exists>t. kfree v s = Done () t \<and> kmem_inv t (v # xs) \<and>
    t = s\<lparr>km_mem := km_mem t, km_freelist := v\<rparr> \<and>
    (\<forall>x. \<not> (v \<le> x \<and> x < v + PGSIZE) \<longrightarrow> km_mem t x = km_mem s x)"
proof -
  define m where "m = write_u32 v (km_freelist s) (mem_set v 1 PGSIZE (km_mem s))"
  have outside: "\<forall>x. \<not> (v \<le> x \<and> x < v + PGSIZE) \<longrightarrow> m x = km_mem s x"
    by (auto simp: m_def write_u32_def mem_write_def mem_set_def)
  have fl: "km_freelist s < 2 ^ 32"
    using inv by (cases xs) (auto simp: kmem_inv_def page_ok_def)
  have next_v: "read_u32 v m = km_freelist s" using fl by (simp add: m_def)
  have "kmem_inv (s\<lparr>km_mem := m\<rparr>) xs"
    using kmem_inv_write_used [OF inv ok new outside] .
  then have "freelist_of m (km_freelist s) xs" by (simp add: kmem_inv_def)
  then have "kmem_inv (s\<lparr>km_mem := m, km_freelist := v\<rparr>) (v # xs)"
    using inv ok new by (auto simp: kmem_inv_def next_v page_ok_def)
  moreover have "kfree v s = Done () (s\<lparr>km_mem := m, km_freelist := v\<rparr>)"
    using ok by (simp add: kfree_def kernel_defs page_ok_def m_def)
  ultimately show ?thesis using outside by auto
qed

end
