(* ===== verification/Proc.thy ===== *)
theory Proc
  imports Kalloc
begin

text \<open>
  The process table of \<^verbatim>\<open>proc.c\<close>: \<^verbatim>\<open>struct proc\<close> (proc.h), the current process, \<open>sleep\<close> and
  \<open>wakeup\<close>, \<open>kill\<close>, \<open>yield\<close>, the choice the scheduler makes, and \<open>allocproc\<close>.  The state extends the
  allocator's, so that every later state of the kernel carries both; the operations are defined on
  any extension of it.  \<^verbatim>\<open>ptable.lock\<close> makes each operation one step.  A call to \<open>sleep\<close> changes the
  process table and then has the outcome \<open>Sleep\<close>: what runs until the process is woken is other
  processes' code.  \<open>fork\<close>, \<open>exit\<close> and \<open>wait\<close>, which call the file layer, are in a later theory.
\<close>

section \<open>State\<close>

abbreviation NPROC :: nat where "NPROC \<equiv> 64"
abbreviation NOFILE :: nat where "NOFILE \<equiv> 16"
abbreviation KSTACKSIZE :: nat where "KSTACKSIZE \<equiv> 4096"

datatype procstate = UNUSED | EMBRYO | SLEEPING | RUNNABLE | RUNNING | ZOMBIE

text \<open>The fields of the trap frame (x86.h) that the kernel's C code reads or writes.\<close>

record trapframe =
  tf_eax :: int
  tf_es :: nat
  tf_ds :: nat
  tf_trapno :: nat
  tf_eip :: nat
  tf_cs :: nat
  tf_eflags :: nat
  tf_esp :: nat
  tf_ss :: nat

record proc =
  p_sz :: nat
  p_pgdir :: nat                      \<comment> \<open>0 for the null pointer\<close>
  p_kstack :: nat                     \<comment> \<open>0 for the null pointer\<close>
  p_state :: procstate
  p_pid :: int
  p_parent :: "nat option"            \<comment> \<open>index into the process table\<close>
  p_tf :: trapframe                   \<comment> \<open>what \<^verbatim>\<open>*p->tf\<close> holds\<close>
  p_context :: nat                    \<comment> \<open>the address \<^verbatim>\<open>p->context\<close>\<close>
  p_chan :: "chan option"
  p_killed :: bool
  p_ofile :: "nat \<Rightarrow> nat option"      \<comment> \<open>indices into the file table, below \<open>NOFILE\<close>\<close>
  p_cwd :: "nat option"               \<comment> \<open>index into the inode cache\<close>
  p_name :: "byte list"

record proc_state = kmem_state +
  ptable :: "nat \<Rightarrow> proc"             \<comment> \<open>\<^verbatim>\<open>ptable.proc[NPROC]\<close>\<close>
  nextpid :: int
  curproc :: nat                      \<comment> \<open>\<^verbatim>\<open>myproc()\<close>\<close>
  initproc :: nat
  sym_trapret :: nat                  \<comment> \<open>addresses of the assembly entry points\<close>
  sym_forkret :: nat

definition myproc :: "'a proc_state_scheme \<Rightarrow> proc" where
  "myproc s = ptable s (curproc s)"

definition upd_proc :: "nat \<Rightarrow> (proc \<Rightarrow> proc) \<Rightarrow> 'a proc_state_scheme \<Rightarrow> 'a proc_state_scheme" where
  "upd_proc i f s = s\<lparr>ptable := (ptable s)(i := f (ptable s i))\<rparr>"

section \<open>Sleep and wakeup\<close>

definition wakeup1_proc :: "chan \<Rightarrow> proc \<Rightarrow> proc" where
  "wakeup1_proc c p =
     (if p_state p = SLEEPING \<and> p_chan p = Some c then p\<lparr>p_state := RUNNABLE\<rparr> else p)"

definition wake_table :: "chan \<Rightarrow> (nat \<Rightarrow> proc) \<Rightarrow> nat \<Rightarrow> proc" where
  "wake_table c pt = (\<lambda>i. if i < NPROC then wakeup1_proc c (pt i) else pt i)"

definition wake_all :: "chan \<Rightarrow> 'a proc_state_scheme \<Rightarrow> 'a proc_state_scheme" where
  "wake_all c s = s\<lparr>ptable := wake_table c (ptable s)\<rparr>"

definition wakeup1 :: "chan \<Rightarrow> ('a proc_state_scheme, unit) kernel" where
  "wakeup1 c = kmodify (wake_all c)"

definition wakeup :: "chan \<Rightarrow> ('a proc_state_scheme, unit) kernel" where
  "wakeup c = wakeup1 c"

definition sleep :: "chan \<Rightarrow> ('a proc_state_scheme, 'b) kernel" where
  "sleep c = kseq
     (kmodify (\<lambda>s. upd_proc (curproc s) (\<lambda>p. p\<lparr>p_chan := Some c, p_state := SLEEPING\<rparr>) s))
     (ksleep c)"

text \<open>What \<^verbatim>\<open>sleep\<close> does after \<^verbatim>\<open>sched()\<close> returns to it.\<close>

definition sleep_resume :: "('a proc_state_scheme, unit) kernel" where
  "sleep_resume = kmodify (\<lambda>s. upd_proc (curproc s) (\<lambda>p. p\<lparr>p_chan := None\<rparr>) s)"

section \<open>Kill\<close>

definition kill :: "int \<Rightarrow> ('a proc_state_scheme, int) kernel" where
  "kill pid = kbind (kget ptable) (\<lambda>pt.
     case List.find (\<lambda>i. p_pid (pt i) = pid) [0..<NPROC] of
       None \<Rightarrow> kreturn (-1)
     | Some i \<Rightarrow> kseq (kmodify (upd_proc i (\<lambda>p. p\<lparr>p_killed := True,
           p_state := (if p_state p = SLEEPING then RUNNABLE else p_state p)\<rparr>)))
         (kreturn 0))"

section \<open>The scheduler\<close>

definition switchuvm :: "nat \<Rightarrow> ('a proc_state_scheme, unit) kernel" where
  "switchuvm i = kbind (kget ptable) (\<lambda>pt.
     if p_kstack (pt i) = 0 then kpanic ''switchuvm: no kstack''
     else if p_pgdir (pt i) = 0 then kpanic ''switchuvm: no pgdir''
     else kreturn ())"

text \<open>One iteration of the scheduler's inner loop for slot \<open>i\<close>, up to the \<^verbatim>\<open>swtch\<close> into the
  process: \<open>True\<close> when it switches.\<close>

definition scheduler_try :: "nat \<Rightarrow> ('a proc_state_scheme, bool) kernel" where
  "scheduler_try i = kbind (kget ptable) (\<lambda>pt.
     if p_state (pt i) \<noteq> RUNNABLE then kreturn False
     else kseq (kmodify (\<lambda>s. s\<lparr>curproc := i\<rparr>))
         (kseq (switchuvm i)
         (kseq (kmodify (upd_proc i (\<lambda>p. p\<lparr>p_state := RUNNING\<rparr>)))
               (kreturn True))))"

definition yield :: "('a proc_state_scheme, unit) kernel" where
  "yield = kmodify (\<lambda>s. upd_proc (curproc s) (\<lambda>p. p\<lparr>p_state := RUNNABLE\<rparr>) s)"

section \<open>Allocating a process\<close>

text \<open>Sizes of \<^verbatim>\<open>struct trapframe\<close> and \<^verbatim>\<open>struct context\<close>.\<close>

abbreviation sizeof_trapframe :: nat where "sizeof_trapframe \<equiv> 76"
abbreviation sizeof_context :: nat where "sizeof_context \<equiv> 20"

definition allocproc :: "('a proc_state_scheme, nat option) kernel" where
  "allocproc = kbind (kget ptable) (\<lambda>pt.
     case List.find (\<lambda>i. p_state (pt i) = UNUSED) [0..<NPROC] of
       None \<Rightarrow> kreturn None
     | Some i \<Rightarrow>
        kseq (kmodify (\<lambda>s. upd_proc i (\<lambda>p. p\<lparr>p_state := EMBRYO, p_pid := nextpid s\<rparr>)
                             (s\<lparr>nextpid := nextpid s + 1\<rparr>)))
        (kbind kalloc (\<lambda>k.
         kseq (kmodify (upd_proc i (\<lambda>p. p\<lparr>p_kstack := k\<rparr>)))
         (if k = 0
          then kseq (kmodify (upd_proc i (\<lambda>p. p\<lparr>p_state := UNUSED\<rparr>))) (kreturn None)
          else
            (let sp1 = k + KSTACKSIZE - sizeof_trapframe - 4;
                 sp2 = sp1 - sizeof_context
             in kseq (kmodify (\<lambda>s. s\<lparr>km_mem := write_u32 sp1 (sym_trapret s) (km_mem s)\<rparr>))
               (kseq (kmodify (upd_proc i (\<lambda>p. p\<lparr>p_context := sp2\<rparr>)))
               (kseq (kmodify (\<lambda>s. s\<lparr>km_mem :=
                        write_u32 (sp2 + 16) (sym_forkret s) (mem_set sp2 0 sizeof_context (km_mem s))\<rparr>))
                     (kreturn (Some i)))))))))"

section \<open>Frame facts\<close>

lemma wakeup_wp [simp]: "wp (wakeup c) Q s = Q () (wake_all c s)"
  by (simp add: wakeup_def wakeup1_def)

lemma wakeup_Done: "wakeup c s = Done () (wake_all c s)"
  by (simp add: wakeup_def wakeup1_def kmodify_def)

lemma wakeup1_proc_pid [simp]: "p_pid (wakeup1_proc c p) = p_pid p"
  by (simp add: wakeup1_proc_def)

lemma wakeup1_proc_fields [simp]:
  "p_sz (wakeup1_proc c p) = p_sz p" "p_pgdir (wakeup1_proc c p) = p_pgdir p"
  "p_kstack (wakeup1_proc c p) = p_kstack p" "p_parent (wakeup1_proc c p) = p_parent p"
  "p_tf (wakeup1_proc c p) = p_tf p" "p_chan (wakeup1_proc c p) = p_chan p"
  "p_killed (wakeup1_proc c p) = p_killed p" "p_ofile (wakeup1_proc c p) = p_ofile p"
  "p_cwd (wakeup1_proc c p) = p_cwd p" "p_name (wakeup1_proc c p) = p_name p"
  by (simp_all add: wakeup1_proc_def)

lemma wakeup1_proc_running:
  "p_state p \<noteq> SLEEPING \<Longrightarrow> wakeup1_proc c p = p"
  by (simp add: wakeup1_proc_def)

text \<open>\<open>proc_frame s t\<close>: from \<open>s\<close> to \<open>t\<close> the process table and the allocator have not changed, except
  that sleeping processes may have been made runnable.  Everything below the file layer keeps it.\<close>

definition proc_frame :: "'a proc_state_scheme \<Rightarrow> 'a proc_state_scheme \<Rightarrow> bool" where
  "proc_frame s t \<longleftrightarrow>
     curproc t = curproc s \<and> nextpid t = nextpid s \<and> initproc t = initproc s \<and>
     km_mem t = km_mem s \<and> km_freelist t = km_freelist s \<and> km_end t = km_end s \<and>
     (\<forall>i. ptable t i = ptable s i \<or>
          p_state (ptable s i) = SLEEPING \<and> ptable t i = (ptable s i)\<lparr>p_state := RUNNABLE\<rparr>)"

lemma proc_frame_refl [simp, intro]: "proc_frame s s"
  by (simp add: proc_frame_def)

lemma proc_frame_trans [trans]: "proc_frame s t \<Longrightarrow> proc_frame t u \<Longrightarrow> proc_frame s u"
  by (simp add: proc_frame_def) (metis (no_types, lifting) proc.select_convs(4) proc.surjective
      proc.update_convs(4) procstate.distinct(25))

lemma proc_frame_wake_all [simp, intro]: "proc_frame s (wake_all c s)"
  by (auto simp: proc_frame_def wake_all_def wake_table_def wakeup1_proc_def)

lemma proc_frame_wake [intro]: "proc_frame s t \<Longrightarrow> proc_frame s (wake_all c t)"
  by (rule proc_frame_trans [OF _ proc_frame_wake_all])

lemma proc_frame_pid: "proc_frame s t \<Longrightarrow> p_pid (myproc t) = p_pid (myproc s)"
  by (auto simp: proc_frame_def myproc_def dest: spec [where x = "curproc s"])

lemma wake_all_pid [simp]: "p_pid (myproc (wake_all c s)) = p_pid (myproc s)"
  by (rule proc_frame_pid) simp

section \<open>A concrete process table\<close>

text \<open>The table as it is in zeroed memory, and one with a single running process, for examples.\<close>

definition zero_proc :: proc where
  "zero_proc = \<lparr>p_sz = 0, p_pgdir = 0, p_kstack = 0, p_state = UNUSED, p_pid = 0, p_parent = None,
     p_tf = \<lparr>tf_eax = 0, tf_es = 0, tf_ds = 0, tf_trapno = 0, tf_eip = 0, tf_cs = 0, tf_eflags = 0,
       tf_esp = 0, tf_ss = 0\<rparr>,
     p_context = 0, p_chan = None, p_killed = False, p_ofile = \<lambda>_. None, p_cwd = None, p_name = []\<rparr>"

definition demo_ptable :: "nat \<Rightarrow> proc" where
  "demo_ptable = (\<lambda>_. zero_proc)(0 := zero_proc\<lparr>p_state := RUNNING, p_pid := 1\<rparr>)"

end
