(* ===== verification/Sleeplock.thy ===== *)
theory Sleeplock
  imports Proc
begin

text \<open>
  The long-term locks of \<^verbatim>\<open>sleeplock.c\<close>.  A lock is the record of its fields \<^verbatim>\<open>locked\<close> and
  \<^verbatim>\<open>pid\<close>; locks live inside buffers and inodes, so the operations take a reader and a writer for
  the place of the lock and the lock's channel.  \<open>acquiresleep\<close> puts the caller to sleep when the
  lock is taken, which is one pass of the code's loop: a woken process runs the call again.
\<close>

record sleeplock =
  sl_locked :: bool
  sl_pid :: int

definition initsleeplock :: sleeplock where
  "initsleeplock = \<lparr>sl_locked = False, sl_pid = 0\<rparr>"

definition acquiresleep ::
  "('a proc_state_scheme \<Rightarrow> sleeplock) \<Rightarrow> (sleeplock \<Rightarrow> 'a proc_state_scheme \<Rightarrow> 'a proc_state_scheme) \<Rightarrow>
   chan \<Rightarrow> ('a proc_state_scheme, unit) kernel" where
  "acquiresleep lk put c = kbind (kget lk) (\<lambda>l.
     if sl_locked l then sleep c
     else kmodify (\<lambda>s. put \<lparr>sl_locked = True, sl_pid = p_pid (myproc s)\<rparr> s))"

definition releasesleep ::
  "(sleeplock \<Rightarrow> 'a proc_state_scheme \<Rightarrow> 'a proc_state_scheme) \<Rightarrow> chan \<Rightarrow> ('a proc_state_scheme, unit) kernel"
  where
  "releasesleep put c =
     kseq (kmodify (put \<lparr>sl_locked = False, sl_pid = 0\<rparr>)) (wakeup c)"

definition holdingsleep ::
  "('a proc_state_scheme \<Rightarrow> sleeplock) \<Rightarrow> ('a proc_state_scheme, bool) kernel" where
  "holdingsleep lk = kget (\<lambda>s. sl_locked (lk s) \<and> sl_pid (lk s) = p_pid (myproc s))"

lemma wp_holdingsleep [simp]:
  "wp (holdingsleep lk) Q s = Q (sl_locked (lk s) \<and> sl_pid (lk s) = p_pid (myproc s)) s"
  by (simp add: holdingsleep_def)

lemma wp_acquiresleep:
  "\<not> sl_locked (lk s) \<Longrightarrow>
   wp (acquiresleep lk put c) Q s = Q () (put \<lparr>sl_locked = True, sl_pid = p_pid (myproc s)\<rparr> s)"
  by (simp add: acquiresleep_def)

end
