(* ===== verification/Ide.thy ===== *)
theory Ide
  imports Sleeplock
begin

text \<open>
  Buffers (buf.h) and the disk driver of \<^verbatim>\<open>ide.c\<close>, with the in-memory driver of \<^verbatim>\<open>memide.c\<close> that can
  replace it.  A disk is a function from block numbers to blocks; the state also keeps the sequence
  of block writes the disks have received, which crash reasoning replays.  \<open>iderw\<close> appends the buffer
  to the request queue, starts the disk if the queue was empty, and waits; the waiting loop is
  unfolded with the interrupts that serve the queue (\<open>ide_wait\<close>), one interrupt per queued request.
  The I/O port protocol itself (\<^verbatim>\<open>inb\<close>, \<^verbatim>\<open>outb\<close>, \<^verbatim>\<open>idewait\<close>) is the hardware's side: a read or write
  request transfers one block, without error.
\<close>

section \<open>State\<close>

abbreviation BSIZE :: nat where "BSIZE \<equiv> 512"
abbreviation FSSIZE :: nat where "FSSIZE \<equiv> 1000"
abbreviation NBUF :: nat where "NBUF \<equiv> 30"

record buf =
  b_valid :: bool      \<comment> \<open>\<^verbatim>\<open>flags & B_VALID\<close>\<close>
  b_dirty :: bool      \<comment> \<open>\<^verbatim>\<open>flags & B_DIRTY\<close>\<close>
  b_dev :: nat
  b_blockno :: nat
  b_lock :: sleeplock
  b_refcnt :: nat
  b_data :: "byte list"

record disk_state = proc_state +
  disk :: "nat \<Rightarrow> nat \<Rightarrow> byte list"              \<comment> \<open>drive, block number\<close>
  disk_writes :: "(nat \<times> nat \<times> byte list) list"  \<comment> \<open>every write so far, oldest first\<close>
  havedisk1 :: bool
  idequeue :: "nat list"                          \<comment> \<open>indices of buffers, the active one first\<close>
  bufs :: "nat \<Rightarrow> buf"                            \<comment> \<open>\<^verbatim>\<open>bcache.buf[NBUF]\<close>\<close>

definition upd_buf :: "nat \<Rightarrow> (buf \<Rightarrow> buf) \<Rightarrow> 'a disk_state_scheme \<Rightarrow> 'a disk_state_scheme" where
  "upd_buf i f s = s\<lparr>bufs := (bufs s)(i := f (bufs s i))\<rparr>"

text \<open>The drive a buffer lives on: the driver sends \<^verbatim>\<open>(b->dev&1)<<4\<close> as the drive select bit.\<close>

definition drive :: "nat \<Rightarrow> nat" where
  "drive dev = dev mod 2"

definition disk_write :: "nat \<Rightarrow> nat \<Rightarrow> byte list \<Rightarrow> 'a disk_state_scheme \<Rightarrow> 'a disk_state_scheme" where
  "disk_write d b bs s = s\<lparr>disk := (disk s)(d := (disk s d)(b := bs)),
                           disk_writes := disk_writes s @ [(d, b, bs)]\<rparr>"

definition buf_lock :: "nat \<Rightarrow> 'a disk_state_scheme \<Rightarrow> sleeplock" where
  "buf_lock i s = b_lock (bufs s i)"

definition set_buf_lock :: "nat \<Rightarrow> sleeplock \<Rightarrow> 'a disk_state_scheme \<Rightarrow> 'a disk_state_scheme" where
  "set_buf_lock i l = upd_buf i (\<lambda>b. b\<lparr>b_lock := l\<rparr>)"

section \<open>The driver\<close>

definition idestart :: "nat \<Rightarrow> ('a disk_state_scheme, unit) kernel" where
  "idestart i = kbind (kget (\<lambda>s. bufs s i)) (\<lambda>b.
     if b_blockno b \<ge> FSSIZE then kpanic ''incorrect blockno''
     else if b_dirty b then kmodify (disk_write (drive (b_dev b)) (b_blockno b) (b_data b))
     else kreturn ())"

definition ideintr :: "('a disk_state_scheme, unit) kernel" where
  "ideintr = kbind (kget idequeue) (\<lambda>q. case q of
       [] \<Rightarrow> kreturn ()
     | i # rest \<Rightarrow>
         kseq (kmodify (\<lambda>s. s\<lparr>idequeue := rest\<rparr>))
         (kseq (kmodify (\<lambda>s. if b_dirty (bufs s i) then s
                             else upd_buf i (\<lambda>b. b\<lparr>b_data := disk s (drive (b_dev b)) (b_blockno b)\<rparr>) s))
         (kseq (kmodify (upd_buf i (\<lambda>b. b\<lparr>b_valid := True, b_dirty := False\<rparr>)))
         (kseq (wakeup (Chan_ide i))
               (case rest of [] \<Rightarrow> kreturn () | j # _ \<Rightarrow> idestart j)))))"

definition ide_done :: "nat \<Rightarrow> 'a disk_state_scheme \<Rightarrow> bool" where
  "ide_done i s \<longleftrightarrow> b_valid (bufs s i) \<and> \<not> b_dirty (bufs s i)"

primrec ide_wait :: "nat \<Rightarrow> nat \<Rightarrow> ('a disk_state_scheme, unit) kernel" where
  "ide_wait 0 i = kbind (kget (ide_done i)) (\<lambda>d. if d then kreturn () else sleep (Chan_ide i))"
| "ide_wait (Suc n) i = kbind (kget (ide_done i)) (\<lambda>d.
     if d then kreturn () else kseq ideintr (ide_wait n i))"

definition iderw :: "nat \<Rightarrow> ('a disk_state_scheme, unit) kernel" where
  "iderw i = kbind (holdingsleep (buf_lock i)) (\<lambda>h. kbind (kget id) (\<lambda>s.
     if \<not> h then kpanic ''iderw: buf not locked''
     else if ide_done i s then kpanic ''iderw: nothing to do''
     else if b_dev (bufs s i) \<noteq> 0 \<and> \<not> havedisk1 s then kpanic ''iderw: ide disk 1 not present''
     else kseq (kmodify (\<lambda>s. s\<lparr>idequeue := idequeue s @ [i]\<rparr>))
         (kseq (kwhen (idequeue s = []) (idestart i))
               (ide_wait (Suc (length (idequeue s))) i))))"

text \<open>The in-memory driver: \<open>disksize\<close> is the size of the image in blocks, \<^verbatim>\<open>_binary_fs_img_size/BSIZE\<close>.\<close>

definition mem_iderw :: "nat \<Rightarrow> nat \<Rightarrow> ('a disk_state_scheme, unit) kernel" where
  "mem_iderw disksize i = kbind (holdingsleep (buf_lock i)) (\<lambda>h. kbind (kget (\<lambda>s. bufs s i)) (\<lambda>b.
     if \<not> h then kpanic ''iderw: buf not locked''
     else if b_valid b \<and> \<not> b_dirty b then kpanic ''iderw: nothing to do''
     else if b_dev b \<noteq> 1 then kpanic ''iderw: request not for disk 1''
     else if b_blockno b \<ge> disksize then kpanic ''iderw: block out of range''
     else kseq
       (if b_dirty b
        then kseq (kmodify (upd_buf i (\<lambda>b. b\<lparr>b_dirty := False\<rparr>)))
                  (kmodify (disk_write 1 (b_blockno b) (b_data b)))
        else kmodify (\<lambda>s. upd_buf i (\<lambda>b. b\<lparr>b_data := disk s 1 (b_blockno b)\<rparr>) s))
       (kmodify (upd_buf i (\<lambda>b. b\<lparr>b_valid := True\<rparr>)))))"

section \<open>What a request does when the queue is empty\<close>

lemma upd_buf_simps [simp]:
  "bufs (upd_buf i f s) = (bufs s)(i := f (bufs s i))"
  "disk (upd_buf i f s) = disk s" "disk_writes (upd_buf i f s) = disk_writes s"
  "idequeue (upd_buf i f s) = idequeue s" "havedisk1 (upd_buf i f s) = havedisk1 s"
  "ptable (upd_buf i f s) = ptable s" "curproc (upd_buf i f s) = curproc s"
  "myproc (upd_buf i f s) = myproc s"
  by (simp_all add: upd_buf_def myproc_def)

lemma upd_buf_upd_buf [simp]: "upd_buf i f (upd_buf i g s) = upd_buf i (\<lambda>b. f (g b)) s"
  by (simp add: upd_buf_def)

lemma upd_buf_cong: "f (bufs s i) = g (bufs s i) \<Longrightarrow> upd_buf i f s = upd_buf i g s"
  by (simp add: upd_buf_def)

lemma disk_write_simps [simp]:
  "bufs (disk_write d b bs s) = bufs s"
  "disk (disk_write d b bs s) = (disk s)(d := (disk s d)(b := bs))"
  "disk_writes (disk_write d b bs s) = disk_writes s @ [(d, b, bs)]"
  "idequeue (disk_write d b bs s) = idequeue s" "havedisk1 (disk_write d b bs s) = havedisk1 s"
  "ptable (disk_write d b bs s) = ptable s" "curproc (disk_write d b bs s) = curproc s"
  "myproc (disk_write d b bs s) = myproc s"
  by (simp_all add: disk_write_def myproc_def)

lemma wake_all_disk_simps [simp]:
  "bufs (wake_all c s) = bufs s" "disk (wake_all c s) = disk s"
  "disk_writes (wake_all c s) = disk_writes s" "idequeue (wake_all c s) = idequeue s"
  "havedisk1 (wake_all c s) = havedisk1 s"
  by (simp_all add: wake_all_def)

lemma proc_frame_disk_simps [simp]:
  "proc_frame s (upd_buf i f t) = proc_frame s t"
  "proc_frame s (disk_write d b bs t) = proc_frame s t"
  by (simp_all add: proc_frame_def upd_buf_def disk_write_def)

definition ide_transfer :: "nat \<Rightarrow> 'a disk_state_scheme \<Rightarrow> 'a disk_state_scheme" where
  "ide_transfer i s =
     (let b = bufs s i in
      if b_dirty b
      then upd_buf i (\<lambda>b. b\<lparr>b_valid := True, b_dirty := False\<rparr>)
             (disk_write (drive (b_dev b)) (b_blockno b) (b_data b) s)
      else upd_buf i (\<lambda>b. b\<lparr>b_data := disk s (drive (b_dev b)) (b_blockno b),
                            b_valid := True, b_dirty := False\<rparr>) s)"

text \<open>A request that can be served: the caller holds the buffer, there is something to do, the drive
  and the block exist.\<close>

definition ide_ready :: "nat \<Rightarrow> 'a disk_state_scheme \<Rightarrow> bool" where
  "ide_ready i s \<longleftrightarrow> sl_locked (b_lock (bufs s i)) \<and> sl_pid (b_lock (bufs s i)) = p_pid (myproc s) \<and>
     \<not> ide_done i s \<and> (b_dev (bufs s i) = 0 \<or> havedisk1 s) \<and> b_blockno (bufs s i) < FSSIZE \<and>
     idequeue s = []"

lemma iderw_ready:
  assumes "ide_ready i s"
  shows "iderw i s = Done () (wake_all (Chan_ide i) (ide_transfer i s))"
proof (cases "b_dirty (bufs s i)")
  case True
  with assms show ?thesis
    by (simp add: ide_ready_def iderw_def holdingsleep_def buf_lock_def kernel_defs idestart_def
        ide_done_def ideintr_def wakeup_Done ide_transfer_def Let_def fun_upd_def)
      (simp add: upd_buf_def disk_write_def wake_all_def)
next
  case False
  with assms show ?thesis
    by (simp add: ide_ready_def iderw_def holdingsleep_def buf_lock_def kernel_defs idestart_def
        ide_done_def ideintr_def wakeup_Done ide_transfer_def Let_def fun_upd_def)
      (simp add: upd_buf_def wake_all_def)
qed

end
