(* ===== verification/Layout.thy ===== *)
theory Layout
  imports Ide
begin

text \<open>
  The on-disk format of \<^verbatim>\<open>fs.h\<close>: the super block, inodes and directory entries as the bytes the C
  structures occupy on a 32-bit little-endian machine, with the macros that locate them.  For each
  structure there is a reader, a writer and their round trips.
\<close>

section \<open>Constants\<close>

definition ROOTINO :: nat where "ROOTINO = 1"
abbreviation NDIRECT :: nat where "NDIRECT \<equiv> 11"
abbreviation NINDIRECT :: nat where "NINDIRECT \<equiv> 128"
abbreviation MAXFILE :: nat where "MAXFILE \<equiv> 139"
abbreviation DIRSIZ :: nat where "DIRSIZ \<equiv> 14"
abbreviation sizeof_dinode :: nat where "sizeof_dinode \<equiv> 64"
abbreviation sizeof_dirent :: nat where "sizeof_dirent \<equiv> 16"
abbreviation IPB :: nat where "IPB \<equiv> 8"      \<comment> \<open>\<^verbatim>\<open>BSIZE / sizeof(struct dinode)\<close>\<close>
abbreviation BPB :: nat where "BPB \<equiv> 4096"   \<comment> \<open>\<^verbatim>\<open>BSIZE*8\<close>\<close>

definition T_DIR :: int where "T_DIR = 1"
definition T_FILE :: int where "T_FILE = 2"
definition T_DEV :: int where "T_DEV = 3"

lemma T_distinct [simp]:
  "T_DIR \<noteq> 0" "T_FILE \<noteq> 0" "T_DEV \<noteq> 0" "T_DIR \<noteq> T_FILE" "T_DIR \<noteq> T_DEV" "T_FILE \<noteq> T_DEV"
  "T_FILE \<noteq> T_DIR" "T_DEV \<noteq> T_DIR" "T_DEV \<noteq> T_FILE"
  by (simp_all add: T_DIR_def T_FILE_def T_DEV_def)

section \<open>Signed 16-bit fields\<close>

definition enc_s16 :: "int \<Rightarrow> byte list" where
  "enc_s16 v = le_enc 2 (nat (v mod 2 ^ 16))"

definition dec_s16 :: "byte list \<Rightarrow> int" where
  "dec_s16 bs = (let n = int (le_dec bs) in if n < 2 ^ 15 then n else n - 2 ^ 16)"

definition is_s16 :: "int \<Rightarrow> bool" where
  "is_s16 v \<longleftrightarrow> - (2 ^ 15) \<le> v \<and> v < 2 ^ 15"

lemma length_enc_s16 [simp]: "length (enc_s16 v) = 2"
  by (simp add: enc_s16_def)

lemma mod_negative_s16:
  assumes "- (2 ^ 15) \<le> (v :: int)" and "v < 0"
  shows "v mod 2 ^ 16 = v + 2 ^ 16"
proof -
  have "(v + 2 ^ 16) mod 2 ^ 16 = v + 2 ^ 16"
    using assms by (intro mod_pos_pos_trivial) auto
  then show ?thesis by (simp only: mod_add_self2)
qed

lemma dec_enc_s16 [simp]:
  assumes "is_s16 v"
  shows "dec_s16 (enc_s16 v) = v"
proof (cases "0 \<le> v")
  case True
  then have "v mod 2 ^ 16 = v" using assms by (simp add: is_s16_def)
  then show ?thesis
    using assms True by (simp add: dec_s16_def enc_s16_def is_s16_def le_dec_enc)
next
  case False
  then have "v mod 2 ^ 16 = v + 2 ^ 16"
    using assms by (intro mod_negative_s16) (auto simp: is_s16_def)
  then show ?thesis
    using assms False by (simp add: dec_s16_def enc_s16_def is_s16_def le_dec_enc)
qed

section \<open>Arrays of 32-bit words\<close>

definition u32_at :: "byte list \<Rightarrow> nat \<Rightarrow> nat" where
  "u32_at data i = le_dec (bslice (4 * i) 4 data)"

definition set_u32 :: "nat \<Rightarrow> nat \<Rightarrow> byte list \<Rightarrow> byte list" where
  "set_u32 i v data = bsplice (4 * i) (le_enc 4 v) data"

lemma length_set_u32 [simp]: "4 * i + 4 \<le> length data \<Longrightarrow> length (set_u32 i v data) = length data"
  by (simp add: set_u32_def)

lemma u32_at_bound: "u32_at data i < 2 ^ 32"
proof -
  have "length (bslice (4 * i) 4 data) \<le> 4" by (simp add: length_bslice)
  then have "256 ^ length (bslice (4 * i) 4 data) \<le> (256 ^ 4 :: nat)"
    by (intro power_increasing) auto
  then show ?thesis
    using le_dec_bound [of "bslice (4 * i) 4 data"] by (simp add: u32_at_def)
qed

lemma u32_at_set_u32:
  assumes "4 * i + 4 \<le> length data" and "4 * j + 4 \<le> length data"
  shows "u32_at (set_u32 i v data) j = (if i = j then v mod 2 ^ 32 else u32_at data j)"
proof (cases "i = j")
  case True
  then show ?thesis using assms by (simp add: u32_at_def set_u32_def)
next
  case False
  then have "4 * j + 4 \<le> 4 * i \<or> 4 * i + 4 \<le> 4 * j" by linarith
  then show ?thesis
    using assms False by (simp add: u32_at_def set_u32_def bslice_bsplice_other)
qed

lemma u32_at_zero [simp]: "4 * i + 4 \<le> n \<Longrightarrow> u32_at (replicate n 0) i = 0"
  by (simp add: u32_at_def)

definition enc_u32s :: "nat list \<Rightarrow> byte list" where
  "enc_u32s vs = concat (map (le_enc 4) vs)"

fun dec_u32s :: "nat \<Rightarrow> byte list \<Rightarrow> nat list" where
  "dec_u32s 0 bs = []"
| "dec_u32s (Suc n) bs = le_dec (take 4 bs) # dec_u32s n (drop 4 bs)"

lemma length_enc_u32s [simp]: "length (enc_u32s vs) = 4 * length vs"
  by (induction vs) (auto simp: enc_u32s_def)

lemma length_dec_u32s [simp]: "length (dec_u32s n bs) = n"
  by (induction n bs rule: dec_u32s.induct) auto

lemma dec_enc_u32s:
  "\<forall>v \<in> set vs. v < 2 ^ 32 \<Longrightarrow> n = length vs \<Longrightarrow> dec_u32s n (enc_u32s vs @ rest) = vs"
  by (induction vs arbitrary: n) (auto simp: enc_u32s_def)

lemma enc_dec_u32s: "length bs = 4 * n \<Longrightarrow> enc_u32s (dec_u32s n bs) = bs"
proof (induction n bs rule: dec_u32s.induct)
  case (2 n bs)
  have "le_enc 4 (le_dec (take 4 bs)) = take 4 bs"
    using le_enc_dec [of "take 4 bs"] 2 by simp
  then show ?case using 2 by (simp add: enc_u32s_def)
qed (simp add: enc_u32s_def)

lemma dec_u32s_bound: "v \<in> set (dec_u32s n bs) \<Longrightarrow> v < 2 ^ 32"
proof (induction n bs rule: dec_u32s.induct)
  case (2 n bs)
  have "le_dec (take 4 bs) < 2 ^ 32"
    using u32_at_bound [of bs 0] by (simp add: u32_at_def bslice_def)
  then show ?case using 2 by auto
qed simp

section \<open>The super block\<close>

record superblock =
  sb_size :: nat
  sb_nblocks :: nat
  sb_ninodes :: nat
  sb_nlog :: nat
  sb_logstart :: nat
  sb_inodestart :: nat
  sb_bmapstart :: nat

definition decode_sb :: "byte list \<Rightarrow> superblock" where
  "decode_sb data = \<lparr>
     sb_size = u32_at data 0, sb_nblocks = u32_at data 1, sb_ninodes = u32_at data 2,
     sb_nlog = u32_at data 3, sb_logstart = u32_at data 4, sb_inodestart = u32_at data 5,
     sb_bmapstart = u32_at data 6 \<rparr>"

text \<open>Block containing inode \<open>i\<close>, and block of the free map containing the bit for block \<open>b\<close>.\<close>

definition IBLOCK :: "nat \<Rightarrow> superblock \<Rightarrow> nat" where
  "IBLOCK i sb = i div IPB + sb_inodestart sb"

definition BBLOCK :: "nat \<Rightarrow> superblock \<Rightarrow> nat" where
  "BBLOCK b sb = b div BPB + sb_bmapstart sb"

section \<open>Inodes on disk\<close>

record dinode =
  d_type :: int
  d_major :: int
  d_minor :: int
  d_nlink :: int
  d_mode :: nat
  d_size :: nat
  d_addrs :: "nat list"

definition encode_dinode :: "dinode \<Rightarrow> byte list" where
  "encode_dinode d = enc_s16 (d_type d) @ enc_s16 (d_major d) @ enc_s16 (d_minor d) @
     enc_s16 (d_nlink d) @ le_enc 4 (d_mode d) @ le_enc 4 (d_size d) @ enc_u32s (d_addrs d)"

definition decode_dinode :: "byte list \<Rightarrow> dinode" where
  "decode_dinode bs = \<lparr>
     d_type = dec_s16 (bslice 0 2 bs), d_major = dec_s16 (bslice 2 2 bs),
     d_minor = dec_s16 (bslice 4 2 bs), d_nlink = dec_s16 (bslice 6 2 bs),
     d_mode = le_dec (bslice 8 4 bs), d_size = le_dec (bslice 12 4 bs),
     d_addrs = dec_u32s (NDIRECT + 1) (drop 16 bs) \<rparr>"

definition dinode_wf :: "dinode \<Rightarrow> bool" where
  "dinode_wf d \<longleftrightarrow> is_s16 (d_type d) \<and> is_s16 (d_major d) \<and> is_s16 (d_minor d) \<and>
     is_s16 (d_nlink d) \<and> d_mode d < 2 ^ 32 \<and> d_size d < 2 ^ 32 \<and>
     length (d_addrs d) = NDIRECT + 1 \<and> (\<forall>a \<in> set (d_addrs d). a < 2 ^ 32)"

lemma length_encode_dinode [simp]: "length (d_addrs d) = 12 \<Longrightarrow> length (encode_dinode d) = 64"
  by (simp add: encode_dinode_def)

lemma decode_encode_dinode:
  assumes "dinode_wf d"
  shows "decode_dinode (encode_dinode d) = d"
proof -
  have "dec_u32s 12 (enc_u32s (d_addrs d)) = d_addrs d"
    using dec_enc_u32s [of "d_addrs d" 12 "[]"] assms by (simp add: dinode_wf_def)
  then show ?thesis
    using assms
    by (cases d) (simp add: decode_dinode_def encode_dinode_def dinode_wf_def bslice_def)
qed

text \<open>The \<open>k\<close>-th inode of a block: \<^verbatim>\<open>(struct dinode*)bp->data + k\<close>.\<close>

definition dinode_at :: "byte list \<Rightarrow> nat \<Rightarrow> dinode" where
  "dinode_at data k = decode_dinode (bslice (sizeof_dinode * k) sizeof_dinode data)"

definition set_dinode :: "nat \<Rightarrow> dinode \<Rightarrow> byte list \<Rightarrow> byte list" where
  "set_dinode k d data = bsplice (sizeof_dinode * k) (encode_dinode d) data"

lemma length_set_dinode [simp]:
  "dinode_wf d \<Longrightarrow> k < IPB \<Longrightarrow> length data = BSIZE \<Longrightarrow> length (set_dinode k d data) = BSIZE"
  by (simp add: set_dinode_def dinode_wf_def)

lemma dinode_at_set_dinode:
  assumes "dinode_wf d" and "length data = BSIZE" and "k < IPB" and "j < IPB"
  shows "dinode_at (set_dinode k d data) j = (if j = k then d else dinode_at data j)"
proof (cases "j = k")
  case True
  then show ?thesis
    using assms
    by (simp add: dinode_at_def set_dinode_def decode_encode_dinode dinode_wf_def)
next
  case False
  then have "64 * j + 64 \<le> 64 * k \<or> 64 * k + 64 \<le> 64 * j" by linarith
  then show ?thesis
    using assms False
    by (simp add: dinode_at_def set_dinode_def bslice_bsplice_other dinode_wf_def)
qed

lemma dec_s16_is_s16 [simp]: "length bs = 2 \<Longrightarrow> is_s16 (dec_s16 bs)"
  using le_dec_bound [of bs] by (auto simp: dec_s16_def is_s16_def Let_def)

lemma dinode_at_wf [simp]:
  assumes "length data = BSIZE" and "k < IPB"
  shows "dinode_wf (dinode_at data k)"
proof -
  define bs where "bs = bslice (sizeof_dinode * k) sizeof_dinode data"
  have len: "length bs = 64" using assms by (simp add: bs_def)
  have "le_dec (bslice 8 4 bs) < 2 ^ 32" "le_dec (bslice 12 4 bs) < 2 ^ 32"
    using le_dec_bound [of "bslice 8 4 bs"] le_dec_bound [of "bslice 12 4 bs"] len by simp_all
  then show ?thesis
    using len by (auto simp: dinode_at_def decode_dinode_def dinode_wf_def dec_u32s_bound
        simp flip: bs_def dest: dec_u32s_bound)
qed

section \<open>Directory entries\<close>

record dirent =
  de_inum :: nat
  de_name :: "byte list"

definition encode_dirent :: "dirent \<Rightarrow> byte list" where
  "encode_dirent de = le_enc 2 (de_inum de) @ de_name de"

definition decode_dirent :: "byte list \<Rightarrow> dirent" where
  "decode_dirent bs = \<lparr> de_inum = le_dec (take 2 bs), de_name = drop 2 bs \<rparr>"

definition dirent_wf :: "dirent \<Rightarrow> bool" where
  "dirent_wf de \<longleftrightarrow> de_inum de < 2 ^ 16 \<and> length (de_name de) = DIRSIZ"

lemma length_encode_dirent [simp]: "dirent_wf de \<Longrightarrow> length (encode_dirent de) = 16"
  by (simp add: encode_dirent_def dirent_wf_def)

lemma decode_encode_dirent [simp]: "dirent_wf de \<Longrightarrow> decode_dirent (encode_dirent de) = de"
  by (cases de) (simp add: encode_dirent_def decode_dirent_def dirent_wf_def)

lemma decode_dirent_wf: "length bs = 16 \<Longrightarrow> dirent_wf (decode_dirent bs)"
  using le_dec_bound [of "take 2 bs"] by (simp add: dirent_wf_def decode_dirent_def)

section \<open>File status\<close>

text \<open>\<^verbatim>\<open>struct stat\<close> of \<^verbatim>\<open>stat.h\<close>; the mode union is kept as its integer representation.\<close>

record stat =
  st_type :: int
  st_dev :: nat
  st_ino :: nat
  st_nlink :: int
  st_size :: nat
  st_mode :: nat

end
