(* ===== verification/Factor.thy ===== *)
theory Factor
  imports Printf
begin

text \<open>
  The program \<^verbatim>\<open>factor.c\<close>.  Arithmetic is on 32-bit \<^verbatim>\<open>int\<close>s: products wrap, division and remainder
  truncate towards zero.  The loops are partial functions, so that a loop that runs forever is \<open>None\<close>.
\<close>

section \<open>The program\<close>

definition c_div :: "int \<Rightarrow> int \<Rightarrow> int" where
  "c_div a b = sgn a * sgn b * (\<bar>a\<bar> div \<bar>b\<bar>)"

definition c_mod :: "int \<Rightarrow> int \<Rightarrow> int" where
  "c_mod a b = a - b * c_div a b"

partial_function (option) isqrt_loop :: "int \<Rightarrow> int \<Rightarrow> int option" where
  "isqrt_loop n i = (if to_s32 (i * i) \<le> n then isqrt_loop n (to_s32 (i + 1)) else Some (i - 1))"

definition integerSqrt :: "int \<Rightarrow> int option" where
  "integerSqrt n = isqrt_loop n 1"

text \<open>\<open>divide_out i\<close>: the loop that prints \<open>i\<close> and divides by it as long as it divides \<open>n\<close>.\<close>

partial_function (option) divide_out :: "int \<Rightarrow> int \<Rightarrow> int list \<Rightarrow> (int list \<times> int) option" where
  "divide_out i n out = (if c_mod n i = 0 then divide_out i (c_div n i) (out @ [i]) else Some (out, n))"

partial_function (option) odd_loop :: "int \<Rightarrow> int \<Rightarrow> int \<Rightarrow> int list \<Rightarrow> (int list \<times> int) option" where
  "odd_loop i e n out =
     (if i \<le> e then Option.bind (divide_out i n out) (\<lambda>r. odd_loop (to_s32 (i + 2)) e (snd r) (fst r))
      else Some (out, n))"

text \<open>The numbers printed, in order.\<close>

definition printFactor :: "int \<Rightarrow> int list option" where
  "printFactor n =
     Option.bind (divide_out 2 n []) (\<lambda>r. let n = snd r in
     Option.bind (integerSqrt n) (\<lambda>e.
     Option.bind (odd_loop 3 e n (fst r)) (\<lambda>r.
       Some (if snd r > 2 then fst r @ [snd r] else fst r))))"

definition checkInt :: "byte list \<Rightarrow> bool" where
  "checkInt arg = list_all (\<lambda>c. 48 \<le> unat c \<and> unat c \<le> 57) arg"

text \<open>\<^verbatim>\<open>main\<close>: the output on descriptors 1 and 2, argument by argument; \<open>None\<close> if it does not end.\<close>

fun factor_main :: "byte list list \<Rightarrow> (nat \<times> byte list) list option" where
  "factor_main [] = Some []"
| "factor_main (arg # args) =
     (if \<not> checkInt arg then
        Option.bind (factor_main args)
          (\<lambda>out. Some ((2, bytes_of ''factor: cannot calculate '' @ arg @ [10]) # out))
      else let n = atoi arg in
        Option.bind (printFactor n) (\<lambda>fs.
        Option.bind (factor_main args) (\<lambda>out.
          Some ((1, printint n 10 True @ [58] @ concat (map (\<lambda>f. 32 # printint f 10 True) fs) @ [10]) # out))))"

section \<open>The square root\<close>

lemma c_div_pos: "0 \<le> a \<Longrightarrow> 0 < b \<Longrightarrow> c_div a b = a div b"
  by (cases "a = 0") (simp_all add: c_div_def)

lemma c_mod_pos: "0 \<le> a \<Longrightarrow> 0 < b \<Longrightarrow> c_mod a b = a mod b"
  by (simp add: c_mod_def c_div_pos minus_mult_div_eq_mod)

lemma isqrt_loop_ok:
  assumes "1 \<le> i" "(i - 1) * (i - 1) \<le> n" "i \<le> 46340" "n < 46340 * 46340"
  shows "\<exists>r. isqrt_loop n i = Some r \<and> 0 \<le> r \<and> r * r \<le> n \<and> n < (r + 1) * (r + 1) \<and> r \<le> 46340"
  using assms
proof (induction "nat (46340 - i)" arbitrary: i rule: less_induct)
  case less
  have "i * i \<le> 46340 * 46340" using less.prems by (intro mult_mono) auto
  moreover have "- (2 ^ 31) \<le> i * i" by (rule order_trans [of _ 0]) simp_all
  ultimately have ii: "to_s32 (i * i) = i * i" by (intro to_s32_id) auto
  have i1: "to_s32 (i + 1) = i + 1" using less.prems by (simp add: to_s32_id)
  show ?case
  proof (cases "i * i \<le> n")
    case True
    then have "i * i < 46340 * 46340" using less.prems by linarith
    then have "i < 46340" using less.prems by (metis linorder_not_less mult_mono' zero_le_numeral)
    then have "\<exists>r. isqrt_loop n (i + 1) = Some r \<and> 0 \<le> r \<and> r * r \<le> n \<and> n < (r + 1) * (r + 1) \<and> r \<le> 46340"
      using less.prems True by (intro less.hyps) auto
    then show ?thesis using True by (subst isqrt_loop.simps) (simp add: ii i1)
  next
    case False
    then show ?thesis using less.prems by (subst isqrt_loop.simps) (simp add: ii)
  qed
qed

lemma integerSqrt_ok:
  assumes "0 \<le> n" "n < 46340 * 46340"
  obtains r where "integerSqrt n = Some r" "0 \<le> r" "r * r \<le> n" "n < (r + 1) * (r + 1)" "r \<le> 46340"
  using isqrt_loop_ok [of 1 n] assms by (auto simp: integerSqrt_def)

section \<open>The factors\<close>

definition is_prime :: "int \<Rightarrow> bool" where
  "is_prime p \<longleftrightarrow> 2 \<le> p \<and> (\<forall>d. 1 < d \<longrightarrow> d dvd p \<longrightarrow> d = p)"

lemma divide_out_ok:
  assumes "2 \<le> i" "0 < n"
  shows "\<exists>k m. divide_out i n out = Some (out @ replicate k i, m) \<and> n = i ^ k * m \<and> \<not> i dvd m \<and> 0 < m \<and>
    (k > 0 \<longleftrightarrow> i dvd n)"
  using assms(2)
proof (induction "nat n" arbitrary: n out rule: less_induct)
  case less
  show ?case
  proof (cases "i dvd n")
    case True
    then obtain q where q: "n = i * q" by blast
    then have "0 < q" using less.prems assms(1) by (simp add: zero_less_mult_iff)
    then have "q < n" using q assms(1) by simp
    then obtain k m where "divide_out i q (out @ [i]) = Some ((out @ [i]) @ replicate k i, m)"
      "q = i ^ k * m" "\<not> i dvd m" "0 < m"
      using less.hyps [of q "out @ [i]"] \<open>0 < q\<close> less.prems by auto
    moreover have "c_mod n i = 0" "c_div n i = q"
      using q assms(1) less.prems by (simp_all add: c_mod_pos c_div_pos)
    ultimately have "divide_out i n out = Some (out @ replicate (Suc k) i, m) \<and> n = i ^ Suc k * m \<and>
        \<not> i dvd m \<and> 0 < m \<and> (Suc k > 0 \<longleftrightarrow> i dvd n)"
      using q by (subst divide_out.simps) simp
    then show ?thesis by blast
  next
    case False
    then have "c_mod n i \<noteq> 0" using assms(1) less.prems by (simp add: c_mod_pos dvd_eq_mod_eq_0)
    then have "divide_out i n out = Some (out @ replicate 0 i, n)" by (subst divide_out.simps) simp
    then show ?thesis using False less.prems by (intro exI [of _ 0] exI [of _ n]) simp
  qed
qed

text \<open>The smallest divisor above 1 is prime.\<close>

lemma least_divisor_prime:
  assumes "2 \<le> i" "i dvd n" "\<And>d. 1 < d \<Longrightarrow> d < i \<Longrightarrow> \<not> d dvd n"
  shows "is_prime i"
  unfolding is_prime_def
proof (intro conjI allI impI)
  fix d
  assume d: "1 < d" "d dvd i"
  then have "d dvd n" using assms(2) dvd_trans by blast
  moreover have "d \<le> i" using d(2) assms(1) by (intro zdvd_imp_le) auto
  ultimately show "d = i" using assms(3) [of d] d(1) by force
qed fact

lemma odd_loop_ok:
  assumes "3 \<le> i" "odd i" "0 < n" "odd n" "e \<le> 46340" "\<And>d. 1 < d \<Longrightarrow> d < i \<Longrightarrow> \<not> d dvd n"
  shows "\<exists>fs m. odd_loop i e n out = Some (out @ fs, m) \<and> prod_list fs * m = n \<and> 0 < m \<and> odd m \<and>
    (\<forall>f \<in> set fs. is_prime f \<and> i \<le> f \<and> f \<le> e) \<and> sorted fs \<and> (\<forall>d. 1 < d \<longrightarrow> d \<le> e \<longrightarrow> \<not> d dvd m)"
  using assms
proof (induction "nat (e + 2 - i)" arbitrary: i n out rule: less_induct)
  case less
  show ?case
  proof (cases "i \<le> e")
    case False
    then have "odd_loop i e n out = Some (out @ [], n)" by (subst odd_loop.simps) simp
    moreover have "\<not> d dvd n" if "1 < d" "d \<le> e" for d using False that less.prems(6) by simp
    ultimately show ?thesis using less.prems by (intro exI [of _ "[]"] exI [of _ n]) simp
  next
    case True
    obtain k m where km: "divide_out i n out = Some (out @ replicate k i, m)" "n = i ^ k * m" "\<not> i dvd m"
        "0 < m" "k > 0 \<longleftrightarrow> i dvd n"
      using divide_out_ok [of i n out] less.prems by auto
    have m: "odd m" using km(2) less.prems(4) by simp
    have nd: "\<not> d dvd m" if "1 < d" "d < i + 2" for d
    proof -
      consider "d < i" | "d = i" | "d = i + 1" using \<open>d < i + 2\<close> by linarith
      then show ?thesis
      proof cases
        case 1
        then show ?thesis using less.prems(6) [OF \<open>1 < d\<close>] km(2) by (auto dest: dvd_mult)
      next
        case 2
        then show ?thesis using km(3) by simp
      next
        case 3
        then have "even d" using less.prems(2) by simp
        then show ?thesis using m dvd_trans [of 2 d m] by blast
      qed
    qed
    have "\<exists>fs m'. odd_loop (i + 2) e m (out @ replicate k i) = Some ((out @ replicate k i) @ fs, m') \<and>
        prod_list fs * m' = m \<and> 0 < m' \<and> odd m' \<and> (\<forall>f \<in> set fs. is_prime f \<and> i + 2 \<le> f \<and> f \<le> e) \<and> sorted fs \<and>
        (\<forall>d. 1 < d \<longrightarrow> d \<le> e \<longrightarrow> \<not> d dvd m')"
      by (rule less.hyps) (use True less.prems km m nd in auto)
    then obtain fs m' where fs: "odd_loop (i + 2) e m (out @ replicate k i) = Some ((out @ replicate k i) @ fs, m')"
      "prod_list fs * m' = m" "0 < m'" "odd m'" "\<forall>f \<in> set fs. is_prime f \<and> i + 2 \<le> f \<and> f \<le> e" "sorted fs"
      "\<forall>d. 1 < d \<longrightarrow> d \<le> e \<longrightarrow> \<not> d dvd m'" by blast
    have "to_s32 (i + 2) = i + 2" using True less.prems by (simp add: to_s32_id)
    then have "odd_loop i e n out = Some (out @ (replicate k i @ fs), m')"
      using True km(1) fs(1) by (subst odd_loop.simps) simp
    moreover have "is_prime i" if "k > 0"
      using least_divisor_prime [of i n] less.prems that km(5) by auto
    moreover have "prod_list (replicate k i @ fs) * m' = n" using fs(2) km(2) by (simp add: mult.assoc)
    moreover have "sorted (replicate k i @ fs)" using fs(5,6) by (auto simp: sorted_append)
    ultimately show ?thesis
      using fs(3,4,5,7) True by (intro exI [of _ "replicate k i @ fs"] exI [of _ m']) auto
  qed
qed

lemma cofactor_prime:
  assumes "0 < m" "2 < m" "m < (e + 1) * (e + 1)" "0 \<le> e" "\<forall>d. 1 < d \<longrightarrow> d \<le> e \<longrightarrow> \<not> d dvd m"
  shows "is_prime m"
  unfolding is_prime_def
proof (intro conjI allI impI)
  fix d
  assume d: "1 < d" "d dvd m"
  then obtain c where c: "m = d * c" by blast
  have "0 < c" using c d assms(1) by (simp add: zero_less_mult_iff)
  have "e < d" using assms(5) d by force
  show "d = m"
  proof (cases "c = 1")
    case False
    then have "e < c" using assms(5) \<open>0 < c\<close> c by (metis dvd_triv_right linorder_not_less not_less_iff_gr_or_eq
          int_one_le_iff_zero_less order_le_less)
    then have "(e + 1) * (e + 1) \<le> d * c" using \<open>e < d\<close> assms(4) by (intro mult_mono) auto
    then show ?thesis using assms(3) c by simp
  qed (use c in simp)
qed (use assms in simp)

text \<open>C20: For every number from 1 up to \<open>46340\<^sup>2 - 1\<close> the program's loops end and it prints the prime
  factorisation: all factors are prime, they come in ascending order, and their product is the
  number.\<close>

theorem factor_correct:
  assumes "1 \<le> n" and "n < 46340 * 46340"
  shows "\<exists>fs. printFactor n = Some fs \<and> (\<forall>f \<in> set fs. is_prime f) \<and> sorted fs \<and> prod_list fs = n"
proof -
  obtain k m where km: "divide_out 2 n [] = Some (replicate k 2, m)" "n = 2 ^ k * m" "odd m" "0 < m"
    using divide_out_ok [of 2 n "[]"] assms(1) by auto
  have "(1 :: int) \<le> 2 ^ k" by simp
  then have "m \<le> n" using km(2,4) mult_right_mono [of 1 "2 ^ k" m] by simp
  then obtain e where e: "integerSqrt m = Some e" "0 \<le> e" "e * e \<le> m" "m < (e + 1) * (e + 1)" "e \<le> 46340"
    using integerSqrt_ok [of m] km(4) assms(2) by auto
  have "\<exists>fs m'. odd_loop 3 e m (replicate k 2) = Some (replicate k 2 @ fs, m') \<and> prod_list fs * m' = m \<and> 0 < m' \<and>
      odd m' \<and> (\<forall>f \<in> set fs. is_prime f \<and> 3 \<le> f \<and> f \<le> e) \<and> sorted fs \<and> (\<forall>d. 1 < d \<longrightarrow> d \<le> e \<longrightarrow> \<not> d dvd m')"
  proof (rule odd_loop_ok)
    show "\<not> d dvd m" if "1 < d" "d < 3" for d
      using that km(3) by (cases "d = 2") auto
  qed (use km e in auto)
  then obtain fs m' where fs: "odd_loop 3 e m (replicate k 2) = Some (replicate k 2 @ fs, m')"
    "prod_list fs * m' = m" "0 < m'" "odd m'" "\<forall>f \<in> set fs. is_prime f \<and> 3 \<le> f \<and> f \<le> e" "sorted fs"
    "\<forall>d. 1 < d \<longrightarrow> d \<le> e \<longrightarrow> \<not> d dvd m'" by blast
  have two: "is_prime 2" by (auto simp: is_prime_def dest: zdvd_imp_le)
  show ?thesis
  proof (cases "2 < m'")
    case True
    have "1 \<le> prod_list fs" using fs(2,3) km(4) by (metis int_one_le_iff_zero_less zero_less_mult_pos2)
    then have "m' \<le> m" using fs(2,3) mult_right_mono [of 1 "prod_list fs" m'] by simp
    then have "is_prime m'" using True fs e by (intro cofactor_prime [of m' e]) auto
    moreover have "\<not> m' \<le> e" using fs(7) [rule_format, of m'] True by auto
    ultimately show ?thesis
      using True km e fs two
      by (intro exI [of _ "replicate k 2 @ fs @ [m']"]) (auto simp: printFactor_def sorted_append mult.assoc)
  next
    case False
    then have "m' = 1" using fs(3,4) by (cases "m' = 2") auto
    then show ?thesis
      using False km e fs two
      by (intro exI [of _ "replicate k 2 @ fs"]) (auto simp: printFactor_def sorted_append)
  qed
qed

theorem factor_correct_witness:
  "\<exists>fs. printFactor 360 = Some fs \<and> (\<forall>f \<in> set fs. is_prime f) \<and> sorted fs \<and> prod_list fs = 360"
  by (rule factor_correct) simp_all

lemma divide_out_zero:
  assumes "divide_out i n out = Some r"
  shows "n \<noteq> 0"
  by (rule divide_out.raw_induct [OF _ assms, where P = "\<lambda>i n out r. n \<noteq> 0"])
    (fastforce simp: c_mod_def c_div_def split: if_splits)

text \<open>C32: For 0 the program does not end: the loop that divides by 2 never finds a remainder.\<close>

theorem factor_zero_diverges: "printFactor 0 = None"
  using divide_out_zero [of 2 0 "[]"] by (cases "divide_out 2 0 []") (auto simp: printFactor_def)

end
