(* ===== verification/Grep.thy ===== *)
theory Grep
  imports Printf
begin

text \<open>
  The program \<^verbatim>\<open>grep.c\<close>: its regular-expression matcher on strings, as lists of non-zero bytes, with a
  declarative meaning of patterns it is proved to decide, and the loop that cuts its input into lines.
\<close>

section \<open>The matcher\<close>

abbreviation Star :: byte where "Star \<equiv> 42"
abbreviation Dot :: byte where "Dot \<equiv> 46"
abbreviation Dollar :: byte where "Dollar \<equiv> 36"
abbreviation Caret :: byte where "Caret \<equiv> 94"

function matchhere :: "byte list \<Rightarrow> byte list \<Rightarrow> bool"
  and matchstar :: "byte \<Rightarrow> byte list \<Rightarrow> byte list \<Rightarrow> bool" where
  "matchhere re str =
     (case re of
        [] \<Rightarrow> True
      | c # re' \<Rightarrow>
          if re' \<noteq> [] \<and> hd re' = Star then matchstar c (tl re') str
          else if c = Dollar \<and> re' = [] then str = []
          else (case str of [] \<Rightarrow> False | x # str' \<Rightarrow> (c = Dot \<or> c = x) \<and> matchhere re' str'))"
| "matchstar c re str =
     (if matchhere re str then True
      else (case str of [] \<Rightarrow> False | x # str' \<Rightarrow> (x = c \<or> c = Dot) \<and> matchstar c re str'))"
  by pat_completeness auto
termination
  by (relation "measure (\<lambda>x. case x of Inl (re, str) \<Rightarrow> 2 * (length re + length str)
      | Inr (c, re, str) \<Rightarrow> 2 * (length re + length str) + 1)") (auto simp: neq_Nil_conv)

declare matchhere.simps [simp del] matchstar.simps [simp del]

text \<open>The loop of \<^verbatim>\<open>match\<close>: try every suffix, the empty one included.\<close>

fun match_from :: "byte list \<Rightarrow> byte list \<Rightarrow> bool" where
  "match_from re [] = matchhere re []"
| "match_from re (x # str) = (matchhere re (x # str) \<or> match_from re str)"

definition match :: "byte list \<Rightarrow> byte list \<Rightarrow> bool" where
  "match re str = (if re \<noteq> [] \<and> hd re = Caret then matchhere (tl re) str else match_from re str)"

section \<open>The meaning of patterns\<close>

text \<open>\<open>here re str\<close>: some prefix of \<open>str\<close> is an instance of \<open>re\<close> (all of it if \<open>re\<close> ends in a dollar sign).\<close>

inductive here :: "byte list \<Rightarrow> byte list \<Rightarrow> bool" where
  here_Nil: "here [] str"
| here_star: "\<forall>x \<in> set xs. c = Dot \<or> x = c \<Longrightarrow> here re ys \<Longrightarrow> here (c # Star # re) (xs @ ys)"
| here_end: "here [Dollar] []"
| here_one: "re = [] \<or> hd re \<noteq> Star \<Longrightarrow> \<not> (c = Dollar \<and> re = []) \<Longrightarrow> c = Dot \<or> c = x \<Longrightarrow> here re str \<Longrightarrow>
    here (c # re) (x # str)"

inductive_cases here_starE: "here (c # Star # re) str"
inductive_cases here_endE: "here [Dollar] str"
inductive_cases here_oneE: "here (c # re) str"

lemma matchstar_iff:
  assumes "\<And>ys. length ys \<le> length str \<Longrightarrow> matchhere re ys \<longleftrightarrow> here re ys"
  shows "matchstar c re str \<longleftrightarrow> here (c # Star # re) str"
  using assms
proof (induction str)
  case Nil
  have "here (c # Star # re) [] \<longleftrightarrow> here re []"
    using here_star [of "[]" c re "[]"] by (auto elim: here_starE)
  then show ?case using Nil by (subst matchstar.simps) simp
next
  case (Cons x str)
  have IH: "matchstar c re str \<longleftrightarrow> here (c # Star # re) str" using Cons by simp
  have m: "matchhere re (x # str) \<longleftrightarrow> here re (x # str)" using Cons.prems by simp
  show ?case
  proof
    assume "matchstar c re (x # str)"
    then consider "here re (x # str)" | "x = c \<or> c = Dot" "here (c # Star # re) str"
      using IH m by (subst (asm) matchstar.simps) (auto split: if_splits)
    then show "here (c # Star # re) (x # str)"
    proof cases
      case 1
      then show ?thesis using here_star [of "[]" c re "x # str"] by simp
    next
      case 2
      from 2(2) obtain xs ys where "str = xs @ ys" "\<forall>x \<in> set xs. c = Dot \<or> x = c" "here re ys"
        by (auto elim: here_starE)
      then show ?thesis using here_star [of "x # xs" c re ys] 2(1) by auto
    qed
  next
    assume "here (c # Star # re) (x # str)"
    then obtain xs ys where xs: "x # str = xs @ ys" "\<forall>x \<in> set xs. c = Dot \<or> x = c" "here re ys"
      by (auto elim: here_starE)
    show "matchstar c re (x # str)"
    proof (cases xs)
      case Nil
      then show ?thesis using xs m by (subst matchstar.simps) simp
    next
      case (Cons x' xs')
      then have "here (c # Star # re) str" using xs here_star [of xs' c re ys] by auto
      then show ?thesis using IH xs Cons by (subst matchstar.simps) auto
    qed
  qed
qed

lemma matchhere_iff: "matchhere re str \<longleftrightarrow> here re str"
proof (induction "length re" arbitrary: re str rule: less_induct)
  case less
  show ?case
  proof (cases re)
    case Nil
    then show ?thesis by (subst matchhere.simps) (simp add: here_Nil)
  next
    case (Cons c re')
    show ?thesis
    proof (cases "re' \<noteq> [] \<and> hd re' = Star")
      case True
      then obtain re'' where re'': "re' = Star # re''" by (cases re') auto
      have "matchstar c re'' str \<longleftrightarrow> here (c # Star # re'') str"
        using less Cons re'' by (intro matchstar_iff) simp
      then show ?thesis using Cons re'' by (subst matchhere.simps) simp
    next
      case star: False
      show ?thesis
      proof (cases "c = Dollar \<and> re' = []")
        case True
        then show ?thesis
          using Cons here_end by (subst matchhere.simps) (auto elim: here_endE)
      next
        case False
        have "here (c # re') str \<longleftrightarrow> (\<exists>x str'. str = x # str' \<and> (c = Dot \<or> c = x) \<and> here re' str')"
          using star False by (auto elim!: here_oneE intro: here_one)
        then show ?thesis
          using Cons star False less [of re'] by (subst matchhere.simps) (auto split: list.splits)
      qed
    qed
  qed
qed

lemma match_from_iff: "match_from re str \<longleftrightarrow> (\<exists>xs ys. str = xs @ ys \<and> here re ys)"
proof (induction str)
  case Nil
  then show ?case by (simp add: matchhere_iff)
next
  case (Cons x str)
  have "(\<exists>xs ys. x # str = xs @ ys \<and> here re ys) \<longleftrightarrow> here re (x # str) \<or> (\<exists>xs ys. str = xs @ ys \<and> here re ys)"
    by (auto simp: Cons_eq_append_conv)
  then show ?case using Cons by (simp add: matchhere_iff)
qed

text \<open>C19: The backtracking matcher decides the pattern language: \<open>match\<close> returns true exactly if the
  pattern after a caret matches at the beginning of the text, or, without a caret, at the beginning
  of some suffix of it, where the meaning of a pattern is given by \<open>here\<close>.\<close>

theorem match_correct:
  "match re str \<longleftrightarrow>
     (if re \<noteq> [] \<and> hd re = Caret then here (tl re) str else \<exists>xs ys. str = xs @ ys \<and> here re ys)"
  by (simp add: match_def matchhere_iff match_from_iff)

section \<open>Lines\<close>

text \<open>\<^verbatim>\<open>strchr(p, '\n')\<close> on the buffer from \<open>p\<close>, as an offset; a zero byte ends the string.\<close>

definition newline_at :: "byte list \<Rightarrow> nat option" where
  "newline_at p = (let s = takeWhile (\<lambda>x. x \<noteq> 0) p in
     if 10 \<in> set s then Some (length (takeWhile (\<lambda>x. x \<noteq> 10) s)) else None)"

lemma length_takeWhile_neq: "x \<in> set s \<Longrightarrow> length (takeWhile (\<lambda>y. y \<noteq> x) s) < length s"
  by (induction s) auto

lemma newline_at_bound: "newline_at p = Some k \<Longrightarrow> k < length p"
proof -
  assume a: "newline_at p = Some k"
  let ?s = "takeWhile (\<lambda>x. x \<noteq> 0) p"
  have "10 \<in> set ?s" "k = length (takeWhile (\<lambda>x. x \<noteq> 10) ?s)"
    using a by (auto simp: newline_at_def Let_def split: if_splits)
  then have "k < length ?s" by (simp add: length_takeWhile_neq)
  also have "\<dots> \<le> length p" by (rule length_takeWhile_le)
  finally show ?thesis .
qed

text \<open>The inner loop: the output and what is left of the buffer after the last newline.\<close>

function grep_lines :: "byte list \<Rightarrow> byte list \<Rightarrow> byte list \<times> byte list" where
  "grep_lines pat p =
     (case newline_at p of
        None \<Rightarrow> ([], p)
      | Some k \<Rightarrow>
          let line = take k p; r = grep_lines pat (drop (k + 1) p) in
          ((if match pat (takeWhile (\<lambda>x. x \<noteq> 0) line) then take (k + 1) p else []) @ fst r, snd r))"
  by pat_completeness auto
termination
  by (relation "measure (\<lambda>(pat, p). length p)") (auto dest: newline_at_bound)

declare grep_lines.simps [simp del]

text \<open>The loop over the reads; \<open>buf\<close> is the part of a line kept from the reads before.\<close>

fun grep :: "byte list \<Rightarrow> byte list \<Rightarrow> byte list list \<Rightarrow> byte list" where
  "grep pat buf [] = []"
| "grep pat buf (chunk # reads) =
     (if chunk = [] then []
      else let b = buf @ chunk; r = grep_lines pat b in
        fst r @ grep pat (if length (snd r) = length b then [] else snd r) reads)"

text \<open>\<^verbatim>\<open>main\<close>: the output on descriptors 1 and 2.\<close>

fun grep_files :: "(byte list \<Rightarrow> byte list list option) \<Rightarrow> byte list \<Rightarrow> byte list list \<Rightarrow> (nat \<times> byte list) list" where
  "grep_files opn pat [] = []"
| "grep_files opn pat (arg # args) =
     (case opn arg of
        None \<Rightarrow> [(1, bytes_of ''grep: cannot open '' @ arg @ [10])]
      | Some reads \<Rightarrow> (1, grep pat [] reads) # grep_files opn pat args)"

definition grep_main ::
  "(byte list \<Rightarrow> byte list list option) \<Rightarrow> byte list list \<Rightarrow> byte list list \<Rightarrow> (nat \<times> byte list) list" where
  "grep_main opn stdin argv =
     (if length argv \<le> 1 then [(2, bytes_of ''usage: grep pattern [file ...]'' @ [10])]
      else if length argv \<le> 2 then [(1, grep (argv ! 1) [] stdin)]
      else grep_files opn (argv ! 1) (drop 2 argv))"

definition unlines :: "byte list list \<Rightarrow> byte list" where
  "unlines ls = concat (map (\<lambda>l. l @ [10]) ls)"

lemma newline_at_line:
  assumes "10 \<notin> set l" "0 \<notin> set l"
  shows "newline_at (l @ 10 # rest) = Some (length l)"
proof -
  have "takeWhile (\<lambda>x. x \<noteq> 0) (l @ 10 # rest) = l @ 10 # takeWhile (\<lambda>x. x \<noteq> 0) rest"
    using assms(2) by (subst takeWhile_append2) auto
  moreover have "takeWhile (\<lambda>x. x \<noteq> 10) (l @ 10 # takeWhile (\<lambda>x. x \<noteq> 0) rest) = l"
    using assms(1) by (subst takeWhile_append2) auto
  ultimately show ?thesis by (simp add: newline_at_def)
qed

lemma grep_lines_unlines:
  assumes "\<forall>l \<in> set ls. 10 \<notin> set l \<and> 0 \<notin> set l"
  shows "grep_lines pat (unlines ls) = (unlines (filter (match pat) ls), [])"
  using assms
proof (induction ls)
  case Nil
  then show ?case by (subst grep_lines.simps) (simp add: unlines_def newline_at_def)
next
  case (Cons l ls)
  then have l: "10 \<notin> set l" "0 \<notin> set l" by simp_all
  have tw: "takeWhile (\<lambda>x. x \<noteq> 0) l = l" by (rule takeWhile_eq_all_conv [THEN iffD2]) (use l(2) in auto)
  have "unlines (l # ls) = l @ 10 # unlines ls" "unlines (l # ls') = (l @ [10]) @ unlines ls'" for ls'
    by (simp_all add: unlines_def)
  then show ?case
    using Cons newline_at_line [OF l, of "unlines ls"]
    by (subst grep_lines.simps) (simp add: Let_def tw)
qed



end
