(* ===== verification/Split.thy ===== *)
theory Split
  imports Grep
begin

text \<open>
  The program \<^verbatim>\<open>split.c\<close>: file suffixes as numbers in base 26 and the loop that distributes lines over
  files.  Three things the code reads are not initialised by it and are parameters here: the bytes
  after the array \<^verbatim>\<open>suffix\<close>, which is not terminated (\<open>junk\<close>, up to the first zero byte), the
  contents of \<^verbatim>\<open>buf\<close> before the first read (\<open>old\<close>), and the bytes after \<^verbatim>\<open>buf\<close> (\<open>beyond\<close>), which the
  string functions reach when a read fills it.
\<close>

section \<open>Suffixes\<close>

definition default_suffix :: "byte list" where
  "default_suffix = bytes_of ''abcdefghijklmnopqrstuvwxyz''"

definition split_checkInt :: "byte list \<Rightarrow> bool" where
  "split_checkInt arg = list_all (\<lambda>c. 48 \<le> unat c \<and> unat c \<le> 57) arg"

text \<open>\<^verbatim>\<open>strchr(default_suffix, c) - default_suffix\<close> for a letter of the alphabet.\<close>

definition suffix_pos :: "byte \<Rightarrow> nat" where
  "suffix_pos c = length (takeWhile (\<lambda>x. x \<noteq> c) default_suffix)"

text \<open>The loop runs from the last character to the first; the result is the new suffix and the carry.\<close>

primrec nextSuffix :: "byte list \<Rightarrow> byte list \<times> bool" where
  "nextSuffix [] = ([], True)"
| "nextSuffix (c # cs) =
     (let (cs', carrier) = nextSuffix cs in
      if carrier then
        let cursor = suffix_pos c + 1 in
        if cursor = length default_suffix then (default_suffix ! 0 # cs', True)
        else (default_suffix ! cursor # cs', False)
      else (c # cs', False))"

definition suffix_val :: "byte list \<Rightarrow> nat" where
  "suffix_val cs = foldl (\<lambda>n c. n * 26 + suffix_pos c) 0 cs"

definition suffix_ok :: "byte list \<Rightarrow> bool" where
  "suffix_ok cs \<longleftrightarrow> set cs \<subseteq> set default_suffix"

lemma length_default_suffix [simp]: "length default_suffix = 26"
  by (simp add: default_suffix_def bytes_of_def)

lemma distinct_default_suffix: "distinct default_suffix"
  by (simp add: default_suffix_def bytes_of_def of_char_def)

lemma suffix_pos_nth: "k < 26 \<Longrightarrow> suffix_pos (default_suffix ! k) = k"
proof -
  assume k: "k < 26"
  have "takeWhile (\<lambda>x. x \<noteq> default_suffix ! k) default_suffix = take k default_suffix"
  proof (rule takeWhile_eq_take_P_nth)
    show "default_suffix ! j \<noteq> default_suffix ! k" if "j < k" "j < length default_suffix" for j
      using that k distinct_default_suffix by (auto simp: nth_eq_iff_index_eq)
  qed auto
  then show ?thesis using k by (simp add: suffix_pos_def)
qed

lemma suffix_pos_bound: "c \<in> set default_suffix \<Longrightarrow> suffix_pos c < 26"
  using length_takeWhile_neq [of c default_suffix] by (simp add: suffix_pos_def)

lemma suffix_val_foldl:
  "foldl (\<lambda>n c. n * 26 + suffix_pos c) a cs = a * 26 ^ length cs + suffix_val cs"
proof (induction cs arbitrary: a)
  case (Cons c cs)
  have "suffix_val (c # cs) = suffix_pos c * 26 ^ length cs + suffix_val cs"
    using Cons [of "suffix_pos c"] by (simp add: suffix_val_def)
  then show ?case using Cons [of "a * 26 + suffix_pos c"] by (simp add: algebra_simps)
qed (simp add: suffix_val_def)

lemma suffix_val_simps [simp]:
  "suffix_val [] = 0" "suffix_val (c # cs) = suffix_pos c * 26 ^ length cs + suffix_val cs"
  using suffix_val_foldl [of "suffix_pos c" cs] by (simp_all add: suffix_val_def)

lemma suffix_val_bound: "suffix_ok cs \<Longrightarrow> suffix_val cs < 26 ^ length cs"
proof (induction cs)
  case (Cons c cs)
  then have "suffix_pos c + 1 \<le> 26" "suffix_val cs < 26 ^ length cs"
    using suffix_pos_bound [of c] by (simp_all add: suffix_ok_def)
  moreover have "suffix_pos c * 26 ^ length cs + 26 ^ length cs = (suffix_pos c + 1) * 26 ^ length cs"
    by simp
  ultimately have "suffix_pos c * 26 ^ length cs + 26 ^ length cs \<le> 26 * 26 ^ length cs"
    using mult_right_mono [of "suffix_pos c + 1" 26 "26 ^ length cs"] by linarith
  then have "suffix_pos c * 26 ^ length cs + suffix_val cs < 26 * 26 ^ length cs"
    using \<open>suffix_val cs < 26 ^ length cs\<close> by linarith
  then show ?case by simp
qed simp

lemma nextSuffix_props:
  assumes "suffix_ok cs"
  shows "length (fst (nextSuffix cs)) = length cs \<and> suffix_ok (fst (nextSuffix cs)) \<and>
    (snd (nextSuffix cs) \<longrightarrow> suffix_val cs + 1 = 26 ^ length cs \<and> suffix_val (fst (nextSuffix cs)) = 0) \<and>
    (\<not> snd (nextSuffix cs) \<longrightarrow> suffix_val (fst (nextSuffix cs)) = suffix_val cs + 1)"
  using assms
proof (induction cs)
  case (Cons c cs)
  obtain cs' carrier where n: "nextSuffix cs = (cs', carrier)" by fastforce
  have c: "suffix_pos c < 26" "suffix_ok cs" "c \<in> set default_suffix"
    using Cons.prems suffix_pos_bound [of c] by (auto simp: suffix_ok_def)
  have a: "default_suffix ! k \<in> set default_suffix" if "k < 26" for k using that by simp
  show ?case
  proof (cases carrier)
    case False
    then show ?thesis using Cons.IH [OF c(2)] n c by (simp add: suffix_ok_def)
  next
    case True
    then show ?thesis
      using Cons.IH [OF c(2)] n c a suffix_pos_nth [of 0] suffix_pos_nth [of "suffix_pos c + 1"]
      by (auto simp: suffix_ok_def Let_def algebra_simps)
  qed
qed (simp add: suffix_ok_def)

text \<open>C23: \<open>nextSuffix\<close> is the successor in base 26: it adds one to the value of the suffix, and reports a
  carry exactly when the suffix was the last of its length, which it then turns into the first.\<close>

theorem nextSuffix_successor:
  assumes "suffix_ok cs"
  shows "suffix_val (fst (nextSuffix cs)) = (suffix_val cs + 1) mod 26 ^ length cs \<and>
    (snd (nextSuffix cs) \<longleftrightarrow> suffix_val cs + 1 = 26 ^ length cs) \<and>
    length (fst (nextSuffix cs)) = length cs"
proof -
  have "suffix_val (fst (nextSuffix cs)) < 26 ^ length cs"
    using suffix_val_bound nextSuffix_props [OF assms] by metis
  then show ?thesis using nextSuffix_props [OF assms] by (cases "snd (nextSuffix cs)") auto
qed

theorem nextSuffix_successor_witness:
  "suffix_val (fst (nextSuffix (bytes_of ''az''))) = (suffix_val (bytes_of ''az'') + 1) mod 26 ^ 2"
proof -
  have "suffix_ok (bytes_of ''az'')"
    by (simp add: suffix_ok_def default_suffix_def bytes_of_def of_char_def)
  then show ?thesis using nextSuffix_successor [of "bytes_of ''az''"] by (simp add: bytes_of_def)
qed

section \<open>Splitting\<close>

text \<open>The parts already closed (path and contents), the open part, its suffix, and the lines in it.\<close>

record split_state =
  parts :: "(byte list \<times> byte list) list"
  part_path :: "byte list"
  part_data :: "byte list"
  part_suffix :: "byte list"
  num_line :: int

text \<open>The bytes the string functions see in \<^verbatim>\<open>buf\<close> after a read delivered \<open>chunk\<close>.\<close>

definition buf_string :: "byte list \<Rightarrow> byte list \<Rightarrow> byte list \<Rightarrow> byte list" where
  "buf_string old beyond chunk = takeWhile (\<lambda>c. c \<noteq> 0) (chunk @ drop (length chunk) old @ beyond)"

definition split_part :: "split_state \<Rightarrow> byte list \<Rightarrow> split_state" where
  "split_part st bs = st\<lparr>part_data := part_data st @ bs\<rparr>"

definition next_part :: "byte list \<Rightarrow> byte list \<Rightarrow> split_state \<Rightarrow> split_state" where
  "next_part prefix suffix st =
     \<lparr>parts = parts st @ [(part_path st, part_data st)], part_path = prefix @ suffix, part_data = [],
      part_suffix = suffix, num_line = 0\<rparr>"

text \<open>The inner loop.  \<open>Inl\<close> is the exit with the message that the suffixes are used up.\<close>

function split_lines :: "int \<Rightarrow> byte list \<Rightarrow> split_state \<Rightarrow> byte list \<Rightarrow> split_state + split_state" where
  "split_lines max_line prefix st s =
     (case newline_at s of
        None \<Rightarrow> Inr (if s = [] then st else split_part st s)
      | Some k \<Rightarrow>
          let st = split_part st (take (k + 1) s); st = st\<lparr>num_line := num_line st + 1\<rparr> in
          if num_line st = max_line then
            let (suffix, carrier) = nextSuffix (part_suffix st) in
            if carrier then Inl st
            else split_lines max_line prefix (next_part prefix suffix st) (drop (k + 1) s)
          else split_lines max_line prefix st (drop (k + 1) s))"
  by pat_completeness auto
termination
  by (relation "measure (\<lambda>(m, p, st, s). length s)") (auto dest: newline_at_bound)

declare split_lines.simps [simp del]

fun split_loop ::
  "int \<Rightarrow> byte list \<Rightarrow> byte list \<Rightarrow> split_state \<Rightarrow> byte list \<Rightarrow> byte list list \<Rightarrow> split_state + split_state"
where
  "split_loop max_line prefix beyond st old [] = Inr st"
| "split_loop max_line prefix beyond st old (chunk # chunks) =
     (if chunk = [] then Inr st else
      case split_lines max_line prefix st (buf_string old beyond chunk) of
        Inl st \<Rightarrow> Inl st
      | Inr st \<Rightarrow> split_loop max_line prefix beyond st (replicate 1024 0) chunks)"

definition split ::
  "byte list \<Rightarrow> byte list \<Rightarrow> byte list \<Rightarrow> int \<Rightarrow> nat \<Rightarrow> byte list \<Rightarrow> byte list list \<Rightarrow> split_state + split_state"
where
  "split junk old beyond max_line max_suffix prefix chunks =
     (let suffix = replicate max_suffix (default_suffix ! 0) @ junk in
      split_loop max_line prefix beyond
        \<lparr>parts = [], part_path = prefix @ suffix, part_data = [], part_suffix = suffix, num_line = 0\<rparr>
        old chunks)"

text \<open>The option loop of \<^verbatim>\<open>main\<close>: \<open>None\<close> for the exit with a message, otherwise the limits and the arguments
  from \<^verbatim>\<open>pos\<close> on.\<close>

fun split_opts :: "int \<Rightarrow> int \<Rightarrow> byte list list \<Rightarrow> (int \<times> int \<times> byte list list) option" where
  "split_opts max_line max_suffix [] = Some (max_line, max_suffix, [])"
| "split_opts max_line max_suffix (arg # args) =
     (if arg = bytes_of ''-a'' then
        case args of [] \<Rightarrow> None
        | n # rest \<Rightarrow> if \<not> split_checkInt n then None else split_opts max_line (atoi n) rest
      else if arg = bytes_of ''-l'' then
        case args of [] \<Rightarrow> None
        | n # rest \<Rightarrow> if \<not> split_checkInt n then None else split_opts (atoi n) max_suffix rest
      else Some (max_line, max_suffix, arg # args))"

datatype split_outcome = Split_message "byte list" | Split_ran "split_state + split_state"

text \<open>\<^verbatim>\<open>main\<close>.  The parameter \<open>opn\<close> is what the system calls say of the file named by its argument, which
  is a null pointer when no name is given: whether it opens, the type \<^verbatim>\<open>fstat\<close> reports, if it succeeds,
  and the results of the reads.  A negative number of letters is not a valid array size; \<open>nat\<close> makes
  it an empty suffix.\<close>

definition split_main ::
  "byte list \<Rightarrow> byte list \<Rightarrow> byte list \<Rightarrow> (byte list option \<Rightarrow> (int option \<times> byte list list) option) \<Rightarrow>
   byte list list \<Rightarrow> split_outcome"
where
  "split_main junk old beyond opn argv =
     (case split_opts 1000 2 (drop 1 argv) of
        None \<Rightarrow> Split_message (bytes_of ''split: wrong arguments'' @ [10])
      | Some (max_line, max_suffix, rest) \<Rightarrow>
          let prefix = (case rest of _ # p # _ \<Rightarrow> p | _ \<Rightarrow> bytes_of ''x'');
              name = (case rest of [] \<Rightarrow> None | f # _ \<Rightarrow> Some f) in
          case opn name of
            None \<Rightarrow> Split_message (bytes_of ''split: cannot open'' @ [10])
          | Some (None, reads) \<Rightarrow> Split_message (bytes_of ''split: cannot stat'' @ [10])
          | Some (Some type, reads) \<Rightarrow>
              if type \<noteq> 2 then Split_message (bytes_of ''split: cannot split'' @ [10])
              else Split_ran (split junk old beyond max_line (nat max_suffix) prefix reads))"

text \<open>The files a run leaves behind: the closed parts and, at the end of the input, the open one.\<close>

definition split_files :: "split_state + split_state \<Rightarrow> (byte list \<times> byte list) list" where
  "split_files r = (case r of Inl st \<Rightarrow> parts st @ [(part_path st, part_data st)]
                            | Inr st \<Rightarrow> parts st @ [(part_path st, part_data st)])"

definition split_content :: "split_state \<Rightarrow> byte list" where
  "split_content st = concat (map snd (parts st)) @ part_data st"

text \<open>Every closed part has exactly \<open>max_line\<close> lines, and the counter counts those of the open one.\<close>

definition split_inv :: "int \<Rightarrow> split_state \<Rightarrow> bool" where
  "split_inv max_line st \<longleftrightarrow>
     (\<forall>(p, d) \<in> set (parts st). int (count_list d 10) = max_line \<and> last d = 10) \<and>
     num_line st = int (count_list (part_data st) 10)"

lemma newline_at_Some:
  assumes "newline_at s = Some k"
  shows "k < length s" "s ! k = 10" "count_list (take (k + 1) s) 10 = 1" "take (k + 1) s \<noteq> []"
    "last (take (k + 1) s) = 10"
proof -
  let ?s = "takeWhile (\<lambda>x. x \<noteq> 0) s"
  have a: "10 \<in> set ?s" "k = length (takeWhile (\<lambda>x. x \<noteq> 10) ?s)"
    using assms by (auto simp: newline_at_def Let_def split: if_splits)
  show k: "k < length s" by (rule newline_at_bound [OF assms])
  have l: "k < length ?s" using a by (simp add: length_takeWhile_neq)
  have nth: "?s ! k = 10" using nth_length_takeWhile [of "\<lambda>x. x \<noteq> 10" ?s] l a(2) by simp
  show s: "s ! k = 10" using nth l by (metis takeWhile_nth)
  have "takeWhile (\<lambda>x. x \<noteq> 10) ?s = take k ?s" unfolding a(2) by (rule takeWhile_eq_take)
  also have "\<dots> = take k (take (length ?s) s)" by (simp only: takeWhile_eq_take [symmetric])
  also have "\<dots> = take k s" using l by (simp add: min_def)
  finally have tk: "take k s = takeWhile (\<lambda>x. x \<noteq> 10) ?s" by simp
  have "10 \<notin> set (take k s)"
    unfolding tk using set_takeWhileD [of 10 "\<lambda>x. x \<noteq> 10" ?s] by blast
  then show "count_list (take (k + 1) s) 10 = 1"
    using k s by (simp add: take_Suc_conv_app_nth count_list_0_iff)
  show "take (k + 1) s \<noteq> []" "last (take (k + 1) s) = 10" using k s by (auto simp: take_Suc_conv_app_nth)
qed

lemma newline_at_None: "newline_at s = None \<Longrightarrow> 0 \<notin> set s \<Longrightarrow> 10 \<notin> set s"
proof -
  assume a: "newline_at s = None" "0 \<notin> set s"
  then have tw: "takeWhile (\<lambda>x. x \<noteq> 0) s = s" by (auto simp: takeWhile_eq_all_conv)
  show ?thesis using a(1) unfolding newline_at_def Let_def tw by (simp split: if_splits)
qed

lemma split_lines_Inr:
  assumes "split_lines m prefix st s = Inr st'" "split_inv m st" "0 \<notin> set s"
  shows "split_content st' = split_content st @ s \<and> split_inv m st'"
  using assms
proof (induction m prefix st s rule: split_lines.induct)
  case (1 m prefix st s)
  show ?case
  proof (cases "newline_at s")
    case None
    then show ?thesis using "1.prems" newline_at_None [OF None]
      by (auto simp: split_lines.simps [of m prefix st s] split_content_def split_inv_def split_part_def
          split: if_splits)
  next
    case (Some k)
    note k = newline_at_Some [OF Some]
    let ?st = "(split_part st (take (k + 1) s))\<lparr>num_line := num_line st + 1\<rparr>"
    have st: "split_inv m ?st" "split_content ?st = split_content st @ take (k + 1) s"
      using "1.prems" k by (auto simp: split_inv_def split_part_def split_content_def)
    have z: "0 \<notin> set (drop (k + 1) s)" using "1.prems"(3) by (meson in_set_dropD)
    have lst: "last (part_data ?st) = 10" using k by (simp add: split_part_def)
    show ?thesis
    proof (cases "num_line st + 1 = m")
      case False
      then show ?thesis
        using "1.IH"(2) [OF Some refl refl] "1.prems"(1) Some st z
        by (simp add: split_lines.simps [of m prefix st s] split_part_def Let_def)
    next
      case True
      obtain suf car where n: "nextSuffix (part_suffix st) = (suf, car)" by fastforce
      have "\<not> car" and r: "split_lines m prefix (next_part prefix suf ?st) (drop (k + 1) s) = Inr st'"
        using "1.prems"(1) Some True n
        by (auto simp: split_lines.simps [of m prefix st s] split_part_def Let_def split: if_splits)
      have "split_inv m (next_part prefix suf ?st)"
        "split_content (next_part prefix suf ?st) = split_content ?st"
        using st(1) True lst by (auto simp: split_inv_def next_part_def split_content_def split_part_def)
      then show ?thesis
        using "1.IH"(1) [OF Some refl refl _ refl, of suf car] r n True \<open>\<not> car\<close> st z
        by (simp add: split_part_def)
    qed
  qed
qed

lemma buf_string_clean:
  assumes "0 \<notin> set chunk" "length chunk \<le> 1024" "length chunk = 1024 \<longrightarrow> beyond = [] \<or> hd beyond = 0"
  shows "buf_string (replicate 1024 0) beyond chunk = chunk"
proof -
  have "takeWhile (\<lambda>c. c \<noteq> 0) (chunk @ drop (length chunk) (replicate 1024 0) @ beyond) =
    chunk @ takeWhile (\<lambda>c. c \<noteq> 0) (replicate (1024 - length chunk) 0 @ beyond)"
    using assms(1) by (subst takeWhile_append2) auto
  moreover have "takeWhile (\<lambda>c. c \<noteq> 0) (replicate (1024 - length chunk) 0 @ beyond) = []"
    using assms(2,3) by (cases "length chunk = 1024"; cases "1024 - length chunk"; cases beyond) auto
  ultimately show ?thesis by (simp add: buf_string_def)
qed

definition clean_reads :: "byte list \<Rightarrow> byte list list \<Rightarrow> bool" where
  "clean_reads beyond chunks \<longleftrightarrow> (\<forall>chunk \<in> set chunks. chunk \<noteq> [] \<and> 0 \<notin> set chunk \<and> length chunk \<le> 1024 \<and>
     (length chunk = 1024 \<longrightarrow> beyond = [] \<or> hd beyond = 0))"

lemma split_loop_Inr:
  assumes "split_loop m prefix beyond st (replicate 1024 0) chunks = Inr st'" "split_inv m st"
    "clean_reads beyond chunks"
  shows "split_content st' = split_content st @ concat chunks \<and> split_inv m st'"
  using assms
proof (induction chunks arbitrary: st)
  case (Cons chunk chunks)
  have c: "chunk \<noteq> []" "0 \<notin> set chunk" "buf_string (replicate 1024 0) beyond chunk = chunk"
    using Cons.prems(3) buf_string_clean by (auto simp: clean_reads_def)
  obtain st1 where s: "split_lines m prefix st chunk = Inr st1"
    "split_loop m prefix beyond st1 (replicate 1024 0) chunks = Inr st'"
    using Cons.prems(1) c by (auto split: sum.splits)
  show ?case
    using split_lines_Inr [OF s(1) Cons.prems(2) c(2)] Cons.IH [OF s(2)] Cons.prems(3)
    by (auto simp: clean_reads_def)
qed simp



end
