(* ===== verification/Utils.thy ===== *)
theory Utils
  imports Layout Factor Split
begin

text \<open>
  The small user programs \<^verbatim>\<open>chmod\<close>, \<^verbatim>\<open>ls\<close>, \<^verbatim>\<open>wc\<close>, \<^verbatim>\<open>cat\<close>, \<^verbatim>\<open>echo\<close>, \<^verbatim>\<open>kill\<close>, \<^verbatim>\<open>mkdir\<close>, \<^verbatim>\<open>ln\<close>, \<^verbatim>\<open>rm\<close> and \<^verbatim>\<open>clear\<close>.  A
  program is a function of its arguments and of what the system calls it makes return; its result is
  the sequence of its outputs and calls.
\<close>

datatype event =
    Out nat "byte list"
  | Chmod "byte list" int
  | Kill int
  | Mkdir "byte list"
  | Link "byte list" "byte list"
  | Unlink "byte list"

abbreviation msg :: "nat \<Rightarrow> string \<Rightarrow> event" where
  "msg fd m \<equiv> Out fd (bytes_of m)"

section \<open>chmod\<close>

definition chmod_checkInt :: "byte list \<Rightarrow> bool" where
  "chmod_checkInt arg = list_all (\<lambda>c. 48 \<le> unat c \<and> unat c \<le> 57) arg"

text \<open>The parameter \<open>sys\<close> is the result of the system call.\<close>

definition chmod_main :: "(byte list \<Rightarrow> int \<Rightarrow> int) \<Rightarrow> byte list list \<Rightarrow> event list" where
  "chmod_main sys argv =
     (if length argv \<noteq> 3 then [Out 1 (bytes_of ''chmod: wrong arguments'' @ [10])]
      else if length (argv ! 1) \<noteq> 3 then [Out 1 (bytes_of ''chmod: wrong mode'' @ [10])]
      else if \<not> chmod_checkInt (argv ! 1) then [Out 1 (bytes_of ''chmod: wrong mode'' @ [10])]
      else
        let modeInt = atoi (argv ! 1);
            other = c_mod modeInt 10;
            group = c_mod (c_div modeInt 10) 10;
            user = c_mod (c_div modeInt 100) 10 in
        if user > 7 \<or> group > 7 \<or> other > 7 then [Out 1 (bytes_of ''chmod: wrong mode'' @ [10])]
        else
          let mode = push_bit 6 user + push_bit 3 group + other in
          Chmod (argv ! 2) mode #
          (if sys (argv ! 2) mode \<noteq> 0 then [Out 1 (bytes_of ''chmod: failed to change permission'' @ [10])]
           else []))"

section \<open>ls\<close>

definition last_slash :: "byte list \<Rightarrow> byte list" where
  "last_slash path = rev (takeWhile (\<lambda>c. c \<noteq> 47) (rev path))"

text \<open>The part of the path after its last slash, padded with blanks to \<open>DIRSIZ\<close>.\<close>

definition fmtname :: "byte list \<Rightarrow> byte list" where
  "fmtname path = (let p = last_slash path in
     if length p \<ge> DIRSIZ then p else p @ replicate (DIRSIZ - length p) 32)"

definition mode_char :: "nat \<Rightarrow> nat \<Rightarrow> byte \<Rightarrow> byte" where
  "mode_char mode k c = (if bit mode k then c else 45)"

text \<open>The bit fields of \<^verbatim>\<open>union stat_mode_t\<close> are allocated from the least significant bit.\<close>

definition print_mode :: "stat \<Rightarrow> byte list" where
  "print_mode st =
     (if st_type st = T_DIR then [100] else if st_type st = T_FILE then [45]
      else if st_type st = T_DEV then [99] else [63]) @
     [mode_char (st_mode st) 8 114, mode_char (st_mode st) 7 119, mode_char (st_mode st) 6 120,
      mode_char (st_mode st) 5 114, mode_char (st_mode st) 4 119, mode_char (st_mode st) 3 120,
      mode_char (st_mode st) 2 114, mode_char (st_mode st) 1 119, mode_char (st_mode st) 0 120]"

definition ls_line :: "stat \<Rightarrow> byte list \<Rightarrow> byte list" where
  "ls_line st path = print_mode st @ [9] @ fmtname path @ [9] @
     printint (to_s32 (int (st_ino st))) 10 True @ [9] @ printint (to_s32 (int (st_size st))) 10 True @ [10]"

text \<open>The loop over the entries: a read that does not deliver a whole entry ends it.\<close>

fun ls_dir :: "(byte list \<Rightarrow> stat option) \<Rightarrow> byte list \<Rightarrow> byte list list \<Rightarrow> event list" where
  "ls_dir stat_of path [] = []"
| "ls_dir stat_of path (r # reads) =
     (if length r \<noteq> sizeof_dirent then []
      else let de = decode_dirent r in
        if de_inum de = 0 then ls_dir stat_of path reads
        else
          let name = path @ [47] @ takeWhile (\<lambda>c. c \<noteq> 0) (de_name de) in
          (case stat_of name of
             None \<Rightarrow> Out 1 (bytes_of ''ls: cannot stat '' @ name @ [10])
           | Some st \<Rightarrow> Out 1 (ls_line st name)) # ls_dir stat_of path reads)"

text \<open>\<open>opn\<close> gives the result of \<^verbatim>\<open>fstat\<close> and of the reads on the file it opens, \<open>stat_of\<close> that of \<^verbatim>\<open>stat\<close>.\<close>

definition ls ::
  "(byte list \<Rightarrow> (stat option \<times> byte list list) option) \<Rightarrow> (byte list \<Rightarrow> stat option) \<Rightarrow> byte list \<Rightarrow> event list"
where
  "ls opn stat_of path =
     (case opn path of
        None \<Rightarrow> [Out 2 (bytes_of ''ls: cannot open '' @ path @ [10])]
      | Some (None, reads) \<Rightarrow> [Out 2 (bytes_of ''ls: cannot stat '' @ path @ [10])]
      | Some (Some st, reads) \<Rightarrow>
          Out 1 (bytes_of ''mode'' @ [9, 9] @ bytes_of ''name'' @ [9, 9] @ bytes_of ''inode'' @ [9] @
                 bytes_of ''size'' @ [10]) #
          (if st_type st = T_FILE then [Out 1 (ls_line st path)]
           else if st_type st = T_DIR then
             if length path + 1 + DIRSIZ + 1 > 512 then [Out 1 (bytes_of ''ls: path too long'' @ [10])]
             else ls_dir stat_of path reads
           else []))"

definition ls_main ::
  "(byte list \<Rightarrow> (stat option \<times> byte list list) option) \<Rightarrow> (byte list \<Rightarrow> stat option) \<Rightarrow>
   byte list list \<Rightarrow> event list"
where
  "ls_main opn stat_of argv =
     (if length argv < 2 then ls opn stat_of [46] else concat (map (ls opn stat_of) (drop 1 argv)))"

section \<open>wc\<close>

definition is_blank :: "byte \<Rightarrow> bool" where
  "is_blank c \<longleftrightarrow> c \<in> {32, 13, 9, 10, 11}"

text \<open>The body of the inner loop on the counters of lines, words and characters and the flag \<^verbatim>\<open>inword\<close>.\<close>

fun wc_char :: "byte \<Rightarrow> int \<times> int \<times> int \<times> bool \<Rightarrow> int \<times> int \<times> int \<times> bool" where
  "wc_char b (l, w, c, inword) =
     (let c = c + 1; l = (if b = 10 then l + 1 else l) in
      if is_blank b then (l, w, c, False)
      else if \<not> inword then (l, w + 1, c, True)
      else (l, w, c, inword))"

text \<open>A read returns \<open>None\<close> for an error and an empty list at the end of the file.\<close>

fun wc_loop :: "byte list option list \<Rightarrow> int \<times> int \<times> int \<times> bool \<Rightarrow> (int \<times> int \<times> int) option" where
  "wc_loop [] (l, w, c, inword) = Some (l, w, c)"
| "wc_loop (None # reads) st = None"
| "wc_loop (Some r # reads) st =
     (if r = [] then (case st of (l, w, c, inword) \<Rightarrow> Some (l, w, c)) else wc_loop reads (fold wc_char r st))"

text \<open>The output and whether the program goes on.\<close>

definition wc :: "byte list option list \<Rightarrow> byte list \<Rightarrow> event list \<times> bool" where
  "wc reads name =
     (case wc_loop reads (0, 0, 0, False) of
        None \<Rightarrow> ([Out 1 (bytes_of ''wc: read error'' @ [10])], False)
      | Some (l, w, c) \<Rightarrow>
          ([Out 1 (printint (to_s32 l) 10 True @ [32] @ printint (to_s32 w) 10 True @ [32] @
                   printint (to_s32 c) 10 True @ [32] @ name @ [10])], True))"

fun wc_files :: "(byte list \<Rightarrow> byte list option list option) \<Rightarrow> byte list list \<Rightarrow> event list" where
  "wc_files opn [] = []"
| "wc_files opn (arg # args) =
     (case opn arg of
        None \<Rightarrow> [Out 1 (bytes_of ''wc: cannot open '' @ arg @ [10])]
      | Some reads \<Rightarrow> let (out, ok) = wc reads arg in out @ (if ok then wc_files opn args else []))"

definition wc_main :: "(byte list \<Rightarrow> byte list option list option) \<Rightarrow> byte list option list \<Rightarrow> byte list list \<Rightarrow> event list"
where
  "wc_main opn stdin argv = (if length argv \<le> 1 then fst (wc stdin []) else wc_files opn (drop 1 argv))"

section \<open>cat\<close>

text \<open>\<open>wr\<close> is the result of a \<^verbatim>\<open>write\<close> of these bytes to the standard output.\<close>

fun cat :: "(byte list \<Rightarrow> int) \<Rightarrow> byte list option list \<Rightarrow> event list \<times> bool" where
  "cat wr [] = ([], True)"
| "cat wr (None # reads) = ([Out 1 (bytes_of ''cat: read error'' @ [10])], False)"
| "cat wr (Some r # reads) =
     (if r = [] then ([], True)
      else if wr r \<noteq> int (length r) then ([Out 1 r, Out 1 (bytes_of ''cat: write error'' @ [10])], False)
      else let (out, ok) = cat wr reads in (Out 1 r # out, ok))"

fun cat_files ::
  "(byte list \<Rightarrow> int) \<Rightarrow> (byte list \<Rightarrow> byte list option list option) \<Rightarrow> byte list list \<Rightarrow> event list" where
  "cat_files wr opn [] = []"
| "cat_files wr opn (arg # args) =
     (case opn arg of
        None \<Rightarrow> [Out 1 (bytes_of ''cat: cannot open '' @ arg @ [10])]
      | Some reads \<Rightarrow> let (out, ok) = cat wr reads in out @ (if ok then cat_files wr opn args else []))"

definition cat_main ::
  "(byte list \<Rightarrow> int) \<Rightarrow> (byte list \<Rightarrow> byte list option list option) \<Rightarrow> byte list option list \<Rightarrow>
   byte list list \<Rightarrow> event list"
where
  "cat_main wr opn stdin argv =
     (if length argv \<le> 1 then fst (cat wr stdin) else cat_files wr opn (drop 1 argv))"

section \<open>echo, kill, mkdir, ln, rm and clear\<close>

fun echo_args :: "byte list list \<Rightarrow> event list" where
  "echo_args [] = []"
| "echo_args (arg # args) = Out 1 (arg @ (if args \<noteq> [] then [32] else [10])) # echo_args args"

definition echo_main :: "byte list list \<Rightarrow> event list" where
  "echo_main argv = echo_args (drop 1 argv)"

definition kill_main :: "byte list list \<Rightarrow> event list" where
  "kill_main argv =
     (if length argv < 2 then [Out 2 (bytes_of ''usage: kill pid...'' @ [10])]
      else map (\<lambda>arg. Kill (atoi arg)) (drop 1 argv))"

fun mkdir_args :: "(byte list \<Rightarrow> int) \<Rightarrow> byte list list \<Rightarrow> event list" where
  "mkdir_args sys [] = []"
| "mkdir_args sys (arg # args) =
     Mkdir arg #
     (if sys arg < 0 then [Out 2 (bytes_of ''mkdir: '' @ arg @ bytes_of '' failed to create'' @ [10])]
      else mkdir_args sys args)"

definition mkdir_main :: "(byte list \<Rightarrow> int) \<Rightarrow> byte list list \<Rightarrow> event list" where
  "mkdir_main sys argv =
     (if length argv < 2 then [Out 2 (bytes_of ''Usage: mkdir files...'' @ [10])]
      else mkdir_args sys (drop 1 argv))"

definition ln_main :: "(byte list \<Rightarrow> byte list \<Rightarrow> int) \<Rightarrow> byte list list \<Rightarrow> event list" where
  "ln_main sys argv =
     (if length argv \<noteq> 3 then [Out 2 (bytes_of ''Usage: ln old new'' @ [10])]
      else Link (argv ! 1) (argv ! 2) #
        (if sys (argv ! 1) (argv ! 2) < 0
         then [Out 2 (bytes_of ''link '' @ (argv ! 1) @ [32] @ (argv ! 2) @ bytes_of '': failed'' @ [10])]
         else []))"

fun rm_args :: "(byte list \<Rightarrow> int) \<Rightarrow> byte list list \<Rightarrow> event list" where
  "rm_args sys [] = []"
| "rm_args sys (arg # args) =
     Unlink arg #
     (if sys arg < 0 then [Out 2 (bytes_of ''rm: '' @ arg @ bytes_of '' failed to delete'' @ [10])]
      else rm_args sys args)"

definition rm_main :: "(byte list \<Rightarrow> int) \<Rightarrow> byte list list \<Rightarrow> event list" where
  "rm_main sys argv =
     (if length argv < 2 then [Out 2 (bytes_of ''Usage: rm files...'' @ [10])]
      else rm_args sys (drop 1 argv))"

definition clear_main :: "byte list list \<Rightarrow> event list" where
  "clear_main argv =
     (if length argv > 1 then [Out 1 (bytes_of ''clear: too much arguments'')]
      else [Out 1 ([27] @ bytes_of ''[1;1H'' @ [27] @ bytes_of ''[2J'')])"

section \<open>The properties\<close>

text \<open>The three letters of a permission digit.\<close>

definition rwx :: "nat \<Rightarrow> byte list" where
  "rwx d = [if 4 \<le> d then 114 else 45, if 2 \<le> d mod 4 then 119 else 45, if odd d then 120 else 45]"

definition digit :: "nat \<Rightarrow> byte" where
  "digit d = of_nat (48 + d)"

lemma unat_digit: "d < 10 \<Longrightarrow> unat (digit d) = 48 + d"
  unfolding digit_def by (subst unat_of_nat) simp

lemma atoi_digits:
  assumes "u < 10" "g < 10" "o' < 10"
  shows "atoi [digit u, digit g, digit o'] = int (100 * u + 10 * g + o')"
  using assms by (simp add: atoi_def unat_digit to_s32_id)

lemma mode_bits:
  assumes "u < 8" "g < 8" "o' < (8 :: nat)"
  defines "m \<equiv> 64 * u + 8 * g + o'"
  shows "bit m 8 = (4 \<le> u)" "bit m 7 = (2 \<le> u mod 4)" "bit m 6 = odd u"
    "bit m 5 = (4 \<le> g)" "bit m 4 = (2 \<le> g mod 4)" "bit m 3 = odd g"
    "bit m 2 = (4 \<le> o')" "bit m (Suc 0) = (2 \<le> o' mod 4)" "bit m 0 = odd o'"
proof -
  have e: "m div 8 = 8 * u + g" using assms(3) by (simp add: m_def)
  have f: "m div (8 * k) = (8 * u + g) div k" for k by (simp only: div_mult2_eq e)
  have "m div 64 = u" using f [of 8] assms(2) by simp
  then have h: "m div (64 * k) = u div k" for k using div_mult2_eq [of m 64 k] by simp
  have r: "(8 * u + g) div 4 = 2 * u + g div 4" "(8 * u + g) div 2 = 4 * u + g div 2" by presburger+
  have d: "m div 256 = u div 4" "m div 128 = u div 2" "m div 64 = u" "m div 32 = 2 * u + g div 4"
    "m div 16 = 4 * u + g div 2" "m div 8 = 8 * u + g"
    using f [of 4] f [of 2] h [of 4] h [of 2] h [of 1] e r by simp_all
  have d2: "m div 4 = 16 * u + 2 * g + o' div 4" "m div 2 = 32 * u + 4 * g + o' div 2"
    unfolding m_def by presburger+
  have z: "odd m = odd o'" by (simp add: m_def)
  have o: "odd (x div 4) = (4 \<le> x)" "odd (x div 2) = (2 \<le> x mod 4)" if "x < 8" for x :: nat
    using that by presburger+
  show "bit m 8 = (4 \<le> u)" "bit m 7 = (2 \<le> u mod 4)" "bit m 6 = odd u"
    "bit m 5 = (4 \<le> g)" "bit m 4 = (2 \<le> g mod 4)" "bit m 3 = odd g"
    "bit m 2 = (4 \<le> o')" "bit m (Suc 0) = (2 \<le> o' mod 4)" "bit m 0 = odd o'"
    using o [OF assms(1)] o [OF assms(2)] o [OF assms(3)] z by (simp_all add: bit_iff_odd d d2)
qed

text \<open>C25: \<^verbatim>\<open>chmod ugo path\<close> and \<^verbatim>\<open>ls\<close> agree on the mode: for octal digits the program makes exactly the
  system call whose mode, read back from the inode, \<^verbatim>\<open>ls\<close> prints as the letters of the three digits.\<close>

theorem chmod_ls_agree:
  assumes "u < 8" "g < 8" "o' < 8" and "st_type st = T_FILE"
  shows "\<exists>mode. hd (chmod_main sys [prog, [digit u, digit g, digit o'], path]) = Chmod path (int mode) \<and>
    mode \<le> 511 \<and> print_mode (st\<lparr>st_mode := mode\<rparr>) = 45 # rwx u @ rwx g @ rwx o'"
proof -
  let ?m = "64 * u + 8 * g + o'"
  have n: "atoi [digit u, digit g, digit o'] = int (100 * u + 10 * g + o')"
    using assms by (intro atoi_digits) auto
  have q: "(100 * u + 10 * g + o') mod 10 = o'" "(100 * u + 10 * g + o') div 10 mod 10 = g"
    "(100 * u + 10 * g + o') div 100 mod 10 = u"
  proof -
    have t: "(100 * u + 10 * g + o') div 10 = 10 * u + g" using assms by simp
    then show "(100 * u + 10 * g + o') div 10 mod 10 = g" using assms by simp
    have "(100 * u + 10 * g + o') div (10 * 10) = u" unfolding div_mult2_eq t using assms by simp
    then show "(100 * u + 10 * g + o') div 100 mod 10 = u" using assms by simp
    have "(o' + (10 * u + g) * 10) mod 10 = o'" using assms by (simp only: mod_mult_self1) simp
    then show "(100 * u + 10 * g + o') mod 10 = o'" by (simp add: ac_simps)
  qed
  have c: "chmod_checkInt [digit u, digit g, digit o']"
    using assms by (simp add: chmod_checkInt_def unat_digit)
  define N where "N = 100 * u + 10 * g + o'"
  have "c_mod (int k) 10 = int (k mod 10)" "c_div (int k) 10 = int (k div 10)" "c_div (int k) 100 = int (k div 100)"
    for k by (simp_all add: c_mod_pos c_div_pos zmod_int zdiv_int)
  then have "hd (chmod_main sys [prog, [digit u, digit g, digit o'], path]) = Chmod path (int ?m)"
    using c q [folded N_def] assms by (simp add: chmod_main_def n [folded N_def] Let_def push_bit_eq_mult)
  moreover have "print_mode (st\<lparr>st_mode := ?m\<rparr>) = 45 # rwx u @ rwx g @ rwx o'"
    using mode_bits [OF assms(1-3)] assms(4) by (simp add: print_mode_def mode_char_def rwx_def)
  moreover have "?m \<le> 511" using assms by simp
  ultimately show ?thesis by blast
qed

theorem chmod_ls_agree_witness:
  "\<exists>mode. hd (chmod_main (\<lambda>_ _. 0) [[], [digit 6, digit 4, digit 0], [102]]) = Chmod [102] (int mode) \<and>
     print_mode (\<lparr>st_type = T_FILE, st_dev = 1, st_ino = 2, st_nlink = 1, st_size = 0, st_mode = 493\<rparr>
       \<lparr>st_mode := mode\<rparr>) = [45, 114, 119, 45, 114, 45, 45, 45, 45, 45]"
  using chmod_ls_agree [of 6 4 0 "\<lparr>st_type = T_FILE, st_dev = 1, st_ino = 2, st_nlink = 1, st_size = 0,
    st_mode = 493\<rparr>" "\<lambda>_ _. 0" "[]" "[102]"]
  by (auto simp: rwx_def)

text \<open>The reference for \<open>wc\<close>: a word starts at a character that is not blank and follows a blank one.\<close>

definition word_starts :: "bool \<Rightarrow> byte list \<Rightarrow> nat" where
  "word_starts inword s =
     card {i. i < length s \<and> \<not> is_blank (s ! i) \<and> (if i = 0 then \<not> inword else is_blank (s ! (i - 1)))}"

lemma word_starts_Nil [simp]: "word_starts b [] = 0"
  by (simp add: word_starts_def)

lemma word_starts_Cons:
  "word_starts b (x # s) = (if \<not> is_blank x \<and> \<not> b then 1 else 0) + word_starts (\<not> is_blank x) s"
proof -
  let ?A = "\<lambda>b s. {i. i < length s \<and> \<not> is_blank (s ! i) \<and> (if i = 0 then \<not> b else is_blank (s ! (i - 1)))}"
  have "?A b (x # s) = (if \<not> is_blank x \<and> \<not> b then {0} else {}) \<union> Suc ` ?A (\<not> is_blank x) s"
  proof (rule set_eqI)
    fix i
    show "i \<in> ?A b (x # s) \<longleftrightarrow>
      i \<in> (if \<not> is_blank x \<and> \<not> b then {0} else {}) \<union> Suc ` ?A (\<not> is_blank x) s"
      by (cases i; cases "i - 1") (auto simp: image_iff nth_Cons')
  qed
  moreover have "finite (?A (\<not> is_blank x) s)" by simp
  ultimately show ?thesis
    unfolding word_starts_def by (auto simp: card_Un_disjoint card_image)
qed

lemma wc_fold:
  "\<exists>b. fold wc_char s (l, w, c, inword) =
     (l + int (count_list s 10), w + int (word_starts inword s), c + int (length s), b)
     \<and> (\<forall>t. word_starts inword (s @ t) = word_starts inword s + word_starts b t)"
proof (induction s arbitrary: l w c inword)
  case (Cons x s)
  obtain l1 w1 b where x: "wc_char x (l, w, c, inword) = (l1, w1, c + 1, b)" "b \<longleftrightarrow> \<not> is_blank x"
    "l1 = l + (if x = 10 then 1 else 0)" "w1 = w + (if \<not> is_blank x \<and> \<not> inword then 1 else 0)"
    by (auto simp: Let_def)
  show ?case using Cons [of l1 w1 "c + 1" b] x
    by (auto simp: word_starts_Cons)
qed simp



end
