(* ===== verification/Sh.thy ===== *)
theory Sh
  imports Grep
begin

text \<open>
  The shell, \<^verbatim>\<open>sh.c\<close>.  The input line is a list of bytes without its terminator; a pointer into it is an
  index and \<^verbatim>\<open>es\<close> is the length.  Allocation succeeds, so a \<^verbatim>\<open>struct cmd*\<close> is a value of the datatype
  \<open>cmd\<close>; an argument is the pair of \<^verbatim>\<open>argv[i]\<close> and \<^verbatim>\<open>eargv[i]\<close>.  The parser returns \<open>Inl\<close> with the message
  when the code panics.
\<close>

section \<open>Commands and tokens\<close>

type_synonym span = "nat \<times> nat"

datatype cmd =
    EXEC "span list"
  | REDIR cmd span int int
  | PIPE cmd cmd
  | LIST cmd cmd
  | BACK cmd

abbreviation MAXARGS :: nat where "MAXARGS \<equiv> 10"
definition O_RDONLY :: int where "O_RDONLY = 0"
definition O_WRONLY :: int where "O_WRONLY = 1"
definition O_RDWR :: int where "O_RDWR = 2"
definition O_CREATE :: int where "O_CREATE = 512"

definition whitespace :: "byte list" where
  "whitespace = [32, 9, 13, 10, 11]"

definition symbols :: "byte list" where
  "symbols = bytes_of ''<|>&;()''"

definition byte_at :: "byte list \<Rightarrow> nat \<Rightarrow> byte" where
  "byte_at b p = (if p < length b then b ! p else 0)"

definition skip_ws :: "byte list \<Rightarrow> nat \<Rightarrow> nat" where
  "skip_ws b p = p + length (takeWhile (\<lambda>c. c \<in> set whitespace) (drop p b))"

definition word_char :: "byte \<Rightarrow> bool" where
  "word_char c \<longleftrightarrow> c \<notin> set whitespace \<and> c \<notin> set symbols"

definition skip_word :: "byte list \<Rightarrow> nat \<Rightarrow> nat" where
  "skip_word b p = p + length (takeWhile word_char (drop p b))"

text \<open>The token, its span and the position after the blanks that follow it.\<close>

definition gettoken :: "byte list \<Rightarrow> nat \<Rightarrow> byte \<times> span \<times> nat" where
  "gettoken b p =
     (let s = skip_ws b p; q = s; c = byte_at b s;
          (ret, s) =
            (if c = 0 then (c, s)
             else if c \<in> set (bytes_of ''|();&<'') then (c, s + 1)
             else if c = 62 then (if byte_at b (s + 1) = 62 then (43, s + 2) else (62, s + 1))
             else (97, skip_word b s)) in
      (ret, (q, s), skip_ws b s))"

definition peek :: "byte list \<Rightarrow> nat \<Rightarrow> byte list \<Rightarrow> bool \<times> nat" where
  "peek b p toks = (let s = skip_ws b p in (byte_at b s \<noteq> 0 \<and> byte_at b s \<in> set toks, s))"

lemma skip_ws_ge: "p \<le> skip_ws b p"
  by (simp add: skip_ws_def)

lemma skip_word_ge: "p \<le> skip_word b p"
  by (simp add: skip_word_def)

lemma skip_word_step: "p < length b \<Longrightarrow> word_char (b ! p) \<Longrightarrow> p < skip_word b p"
  by (simp add: skip_word_def Cons_nth_drop_Suc [symmetric])

lemma length_takeWhile_drop: "p \<le> length b \<Longrightarrow> p + length (takeWhile P (drop p b)) \<le> length b"
  using length_takeWhile_le [of P "drop p b"] by simp

lemma skip_le: "p \<le> length b \<Longrightarrow> skip_ws b p \<le> length b" "p \<le> length b \<Longrightarrow> skip_word b p \<le> length b"
  by (simp_all add: skip_ws_def skip_word_def length_takeWhile_drop)

lemma byte_at_neq_0: "byte_at b p \<noteq> 0 \<Longrightarrow> p < length b"
  by (simp add: byte_at_def split: if_splits)

lemma after_takeWhile:
  "p + length (takeWhile P (drop p b)) < length b \<Longrightarrow> \<not> P (b ! (p + length (takeWhile P (drop p b))))"
  using nth_length_takeWhile [of P "drop p b"] by simp

lemma skip_ws_stop: "skip_ws b p < length b \<Longrightarrow> b ! skip_ws b p \<notin> set whitespace"
  unfolding skip_ws_def by (rule after_takeWhile)

lemma skip_word_stop: "skip_word b p < length b \<Longrightarrow> \<not> word_char (b ! skip_word b p)"
  unfolding skip_word_def by (rule after_takeWhile)

lemma other_symbols:
  "c \<in> set symbols \<Longrightarrow> c \<in> set (bytes_of ''|();&<'') \<or> c = 62"
  by (auto simp: symbols_def bytes_of_def of_char_def)

text \<open>A token other than the end of the line consumes something.\<close>

lemma gettoken_progress:
  assumes "gettoken b p = (ret, span, p')"
  shows "p \<le> p'" "ret \<noteq> 0 \<Longrightarrow> p < p'" "p \<le> length b \<Longrightarrow> p' \<le> length b"
proof -
  define s where "s = skip_ws b p"
  obtain e where e: "p' = skip_ws b e"
    "(ret, e) = (let c = byte_at b s in if c = 0 then (c, s)
             else if c \<in> set (bytes_of ''|();&<'') then (c, s + 1)
             else if c = 62 then (if byte_at b (s + 1) = 62 then (43, s + 2) else (62, s + 1))
             else (97, skip_word b s))"
    using assms unfolding gettoken_def s_def [symmetric] Let_def by (auto split: prod.splits)
  have w: "s < skip_word b s" if "byte_at b s \<noteq> 0" "byte_at b s \<notin> set (bytes_of ''|();&<'')" "byte_at b s \<noteq> 62"
    using that skip_word_step [of s b] other_symbols [of "byte_at b s"] skip_ws_stop [of b p]
      byte_at_neq_0 [OF that(1)]
    by (auto simp: s_def word_char_def byte_at_def split: if_splits)
  have ps: "p \<le> s" by (simp add: s_def skip_ws_ge)
  have se: "s \<le> e" "ret \<noteq> 0 \<Longrightarrow> s < e" using e(2) w skip_word_ge [of s b]
    by (auto simp: Let_def split: if_splits)
  then show "p \<le> p'" "ret \<noteq> 0 \<Longrightarrow> p < p'" using skip_ws_ge [of e b] ps e(1) by auto
  assume "p \<le> length b"
  then have "s \<le> length b" by (simp add: s_def skip_le)
  then have "e \<le> length b"
    using e(2) byte_at_neq_0 [of b s] byte_at_neq_0 [of b "s + 1"] skip_le(2) [of s b]
    by (auto simp: Let_def split: if_splits)
  then show "p' \<le> length b" by (simp add: e(1) skip_le)
qed

lemma skip_ws_id: "p < length b \<Longrightarrow> b ! p \<notin> set whitespace \<Longrightarrow> skip_ws b p = p"
  by (simp add: skip_ws_def Cons_nth_drop_Suc [symmetric])

lemma gettoken_nonzero:
  "p < length b \<Longrightarrow> b ! p \<notin> set whitespace \<Longrightarrow> b ! p \<noteq> 0 \<Longrightarrow> gettoken b p = (tok, r) \<Longrightarrow> tok \<noteq> 0"
  by (auto simp: gettoken_def Let_def skip_ws_id byte_at_def split: if_splits)

lemma peek_true:
  "peek b p toks = (True, s) \<Longrightarrow> s = skip_ws b p \<and> s < length b \<and> b ! s \<in> set toks"
proof -
  assume "peek b p toks = (True, s)"
  then have h: "s = skip_ws b p" "byte_at b s \<noteq> 0" "byte_at b s \<in> set toks" by (auto simp: peek_def Let_def)
  have l: "s < length b" using h(2) by (rule byte_at_neq_0)
  then have "b ! s \<in> set toks" using h(3) by (simp add: byte_at_def)
  then show ?thesis using h(1) l by simp
qed

lemma peek_pos: "peek b p toks = (t, s) \<Longrightarrow> s = skip_ws b p"
  by (simp add: peek_def Let_def)

section \<open>The parser\<close>

definition redir_of :: "byte \<Rightarrow> cmd \<Rightarrow> span \<Rightarrow> cmd" where
  "redir_of tok cmd qe =
     (if tok = 60 then REDIR cmd qe O_RDONLY 0
      else if tok = 62 then REDIR cmd qe (O_WRONLY + O_CREATE) 1
      else if tok = 43 then REDIR cmd qe (O_WRONLY + O_CREATE) 1
      else cmd)"

function parseredirs :: "byte list \<Rightarrow> cmd \<Rightarrow> nat \<Rightarrow> byte list + cmd \<times> nat" where
  "parseredirs b cmd p =
     (case peek b p (bytes_of ''<>'') of (t, p) \<Rightarrow>
      if \<not> t then Inr (cmd, p)
      else case gettoken b p of (tok, _, p) \<Rightarrow>
        case gettoken b p of (a, qe, p) \<Rightarrow>
        if a \<noteq> 97 then Inl (bytes_of ''missing file for redirection'')
        else parseredirs b (redir_of tok cmd qe) p)"
  by pat_completeness auto
termination
proof (relation "measure (\<lambda>(b, cmd, p). length b - p)", simp)
  fix b cmd p p0 t tok r q p1 a r' qe p2
  assume h: "(t, p0) = peek b p (bytes_of ''<>'')" "\<not> \<not> t" "(tok, r) = gettoken b p0" "(q, p1) = r"
    "(a, r') = gettoken b p1" "(qe, p2) = r'" "\<not> a \<noteq> 97"
  have "p0 < length b" using peek_true [of b p _ p0] h(1,2) by auto
  moreover have "p \<le> p0" using peek_pos [of b p _ t p0] h(1) by (simp add: skip_ws_ge)
  moreover have "p0 \<le> p1" using gettoken_progress(1) [of b p0 tok q p1] h by simp
  moreover have "p1 < p2" using gettoken_progress(2) [of b p1 a qe p2] h by auto
  ultimately show "((b, redir_of tok cmd qe, p2), b, cmd, p) \<in> measure (\<lambda>(b, cmd, p). length b - p)" by auto
qed

declare parseredirs.simps [simp del]

text \<open>In the code the words are stored in the \<^verbatim>\<open>struct execcmd\<close> that the redirections collected so far are
  wrapped around.\<close>

primrec add_arg :: "cmd \<Rightarrow> span \<Rightarrow> cmd" where
  "add_arg (EXEC args) a = EXEC (args @ [a])"
| "add_arg (REDIR c f m fd) a = REDIR (add_arg c a) f m fd"
| "add_arg (PIPE l r) a = PIPE l r"
| "add_arg (LIST l r) a = LIST l r"
| "add_arg (BACK c) a = BACK c"

lemma parseredirs_pos: "parseredirs b cmd p = Inr (cmd', p') \<Longrightarrow> p \<le> p'"
proof (induction b cmd p rule: parseredirs.induct)
  case (1 b cmd p)
  obtain t p0 where pk: "peek b p (bytes_of ''<>'') = (t, p0)" by fastforce
  obtain tok q p1 where g1: "gettoken b p0 = (tok, q, p1)" by (cases "gettoken b p0") auto
  obtain a qe p2 where g2: "gettoken b p1 = (a, qe, p2)" by (cases "gettoken b p1") auto
  have "p \<le> p0" using peek_pos [OF pk] by (simp add: skip_ws_ge)
  moreover have "p0 \<le> p1" "p1 \<le> p2" using gettoken_progress(1) [OF g1] gettoken_progress(1) [OF g2] by auto
  ultimately show ?case
    using "1.prems" "1.IH" [OF pk [symmetric] _ g1 [symmetric] refl g2 [symmetric] refl]
    by (auto simp: parseredirs.simps [of b cmd p] pk g1 g2 split: if_splits)
qed

function exec_loop :: "byte list \<Rightarrow> cmd \<Rightarrow> nat \<Rightarrow> nat \<Rightarrow> byte list + cmd \<times> nat" where
  "exec_loop b ret argc p =
     (case peek b p (bytes_of ''|)&;'') of (t, p) \<Rightarrow>
      if t then Inr (ret, p)
      else case gettoken b p of (tok, qe, p) \<Rightarrow>
        if tok = 0 then Inr (ret, p)
        else if tok \<noteq> 97 then Inl (bytes_of ''syntax'')
        else if argc + 1 \<ge> MAXARGS then Inl (bytes_of ''too many args'')
        else case parseredirs b (add_arg ret qe) p of
          Inl e \<Rightarrow> Inl e
        | Inr (ret, p) \<Rightarrow> exec_loop b ret (argc + 1) p)"
  by pat_completeness auto
termination
  by (relation "measure (\<lambda>(b, ret, argc, p). MAXARGS - argc)") auto

declare exec_loop.simps [simp del]

function back_loop :: "byte list \<Rightarrow> cmd \<Rightarrow> nat \<Rightarrow> cmd \<times> nat" where
  "back_loop b cmd p =
     (case peek b p [38] of (t, p) \<Rightarrow>
      if \<not> t then (cmd, p)
      else case gettoken b p of (tok, qe, p) \<Rightarrow> back_loop b (BACK cmd) p)"
  by pat_completeness auto
termination
proof (relation "measure (\<lambda>(b, cmd, p). length b - p)", simp)
  fix b :: "byte list" and cmd p t p0 tok r qe p1
  assume h: "(t, p0) = peek b p [38]" "\<not> \<not> t" "(tok, r) = gettoken b p0" "(qe, p1) = r"
  have s: "p0 = skip_ws b p" "p0 < length b" "b ! p0 = 38" using peek_true [of b p "[38]" p0] h(1,2) by auto
  have "tok \<noteq> 0" using gettoken_nonzero [of p0 b tok r] h(3) s by (simp add: whitespace_def)
  then have "p0 < p1" using gettoken_progress(2) [of b p0 tok qe p1] h by simp
  then show "((b, BACK cmd, p1), b, cmd, p) \<in> measure (\<lambda>(b, cmd, p). length b - p)"
    using s skip_ws_ge [of p b] by auto
qed

declare back_loop.simps [simp del]

text \<open>The mutually recursive part; the fuel bounds the depth of the recursion and \<open>None\<close> means that it
  was not enough.\<close>

type_synonym parse = "(byte list + cmd \<times> nat) option"

definition pbind :: "parse \<Rightarrow> (cmd \<Rightarrow> nat \<Rightarrow> parse) \<Rightarrow> parse" where
  "pbind r f = (case r of None \<Rightarrow> None | Some (Inl e) \<Rightarrow> Some (Inl e) | Some (Inr (c, p)) \<Rightarrow> f c p)"

fun parseline :: "nat \<Rightarrow> byte list \<Rightarrow> nat \<Rightarrow> parse"
  and parsepipe :: "nat \<Rightarrow> byte list \<Rightarrow> nat \<Rightarrow> parse"
  and parseblock :: "nat \<Rightarrow> byte list \<Rightarrow> nat \<Rightarrow> parse"
  and parseexec :: "nat \<Rightarrow> byte list \<Rightarrow> nat \<Rightarrow> parse"
where
  "parseline 0 b p = None"
| "parseline (Suc n) b p =
     pbind (parsepipe n b p) (\<lambda>cmd p.
       case back_loop b cmd p of (cmd, p) \<Rightarrow>
       case peek b p [59] of (t, p) \<Rightarrow>
       if t then case gettoken b p of (_, _, p) \<Rightarrow>
         pbind (parseline n b p) (\<lambda>r p. Some (Inr (LIST cmd r, p)))
       else Some (Inr (cmd, p)))"
| "parsepipe 0 b p = None"
| "parsepipe (Suc n) b p =
     pbind (parseexec n b p) (\<lambda>cmd p.
       case peek b p [124] of (t, p) \<Rightarrow>
       if t then case gettoken b p of (_, _, p) \<Rightarrow>
         pbind (parsepipe n b p) (\<lambda>r p. Some (Inr (PIPE cmd r, p)))
       else Some (Inr (cmd, p)))"
| "parseblock 0 b p = None"
| "parseblock (Suc n) b p =
     (case peek b p [40] of (t, p) \<Rightarrow>
      if \<not> t then Some (Inl (bytes_of ''parseblock''))
      else case gettoken b p of (_, _, p) \<Rightarrow>
        pbind (parseline n b p) (\<lambda>cmd p.
          case peek b p [41] of (t, p) \<Rightarrow>
          if \<not> t then Some (Inl (bytes_of ''syntax - missing )''))
          else case gettoken b p of (_, _, p) \<Rightarrow> Some (parseredirs b cmd p)))"
| "parseexec 0 b p = None"
| "parseexec (Suc n) b p =
     (case peek b p [40] of (t, p) \<Rightarrow>
      if t then parseblock n b p
      else case parseredirs b (EXEC []) p of
        Inl e \<Rightarrow> Some (Inl e)
      | Inr (ret, p) \<Rightarrow> Some (exec_loop b ret 0 p))"

text \<open>\<^verbatim>\<open>parsecmd\<close> up to \<^verbatim>\<open>nulterminate\<close>; enough fuel for any line is given, see \<open>parsecmd_total\<close>.\<close>

definition parse_fuel :: "byte list \<Rightarrow> nat" where
  "parse_fuel b = 4 * length b + 4"

section \<open>Terminating the strings\<close>

primrec nulterminate :: "cmd \<Rightarrow> byte list \<Rightarrow> byte list" where
  "nulterminate (EXEC args) b = fold (\<lambda>(q, eq) b. b[eq := 0]) args b"
| "nulterminate (REDIR c f m fd) b = (nulterminate c b)[snd f := 0]"
| "nulterminate (PIPE l r) b = nulterminate r (nulterminate l b)"
| "nulterminate (LIST l r) b = nulterminate r (nulterminate l b)"
| "nulterminate (BACK c) b = nulterminate c b"

text \<open>The command and the buffer with the terminators, which includes the byte at \<^verbatim>\<open>es\<close>.\<close>

definition parsecmd :: "byte list \<Rightarrow> (byte list + cmd \<times> byte list) option" where
  "parsecmd b =
     (case parseline (parse_fuel b) b 0 of
        None \<Rightarrow> None
      | Some (Inl e) \<Rightarrow> Some (Inl e)
      | Some (Inr (cmd, p)) \<Rightarrow>
          case peek b p [] of (_, p) \<Rightarrow>
          if p \<noteq> length b then Some (Inl (bytes_of ''syntax''))
          else Some (Inr (cmd, nulterminate cmd (b @ [0]))))"

section \<open>The parser ends\<close>

lemma pbind_simps [simp]:
  "pbind None f = None" "pbind (Some (Inl e)) f = Some (Inl e)" "pbind (Some (Inr (c, p))) f = f c p"
  by (simp_all add: pbind_def)

lemma pbind_InrE:
  assumes "pbind r f = Some (Inr x)"
  obtains c p where "r = Some (Inr (c, p))" "f c p = Some (Inr x)"
  using assms by (auto simp: pbind_def split: option.splits sum.splits)

lemma pbind_neq_None:
  "r \<noteq> None \<Longrightarrow> (\<And>c p. r = Some (Inr (c, p)) \<Longrightarrow> f c p \<noteq> None) \<Longrightarrow> pbind r f \<noteq> None"
  by (auto simp: pbind_def split: option.splits sum.splits)

lemma pbind_Some: "(\<exists>y. pbind r (\<lambda>c p. Some (f c p)) = Some y) = (\<exists>y. r = Some y)"
  by (auto simp: pbind_def split: option.splits sum.splits)

lemma peek_ge: "peek b p toks = (t, s) \<Longrightarrow> p \<le> s"
  using peek_pos [of b p toks t s] skip_ws_ge [of p b] by simp

lemma gettoken_ge: "gettoken b p = (tok, qe, p') \<Longrightarrow> p \<le> p'"
  by (rule gettoken_progress)

lemma exec_loop_pos: "exec_loop b ret argc p = Inr (cmd', p') \<Longrightarrow> p \<le> p'"
proof (induction b ret argc p rule: exec_loop.induct)
  case (1 b ret argc p)
  obtain t p0 where pk: "peek b p (bytes_of ''|)&;'') = (t, p0)" by fastforce
  obtain tok qe p1 where g: "gettoken b p0 = (tok, qe, p1)" by (cases "gettoken b p0") auto
  have le: "p \<le> p0" "p0 \<le> p1" using peek_ge [OF pk] gettoken_ge [OF g] by auto
  show ?case
  proof (cases "t \<or> tok = 0")
    case True
    then show ?thesis using "1.prems" le by (auto simp: exec_loop.simps [of b ret argc p] pk g split: if_splits)
  next
    case False
    then obtain r p2 where r: "parseredirs b (add_arg ret qe) p1 = Inr (r, p2)" "tok = 97"
      "\<not> argc + 1 \<ge> MAXARGS" "exec_loop b r (argc + 1) p2 = Inr (cmd', p')"
      using "1.prems" by (auto simp: exec_loop.simps [of b ret argc p] pk g split: if_splits sum.splits)
    have "p2 \<le> p'"
      using "1.IH" [OF pk [symmetric] _ g [symmetric] refl _ _ _ r(1) refl r(4)] False r by simp
    then show ?thesis using parseredirs_pos [OF r(1)] le by simp
  qed
qed

lemma back_loop_pos: "back_loop b cmd p = (cmd', p') \<Longrightarrow> p \<le> p'"
proof (induction b cmd p rule: back_loop.induct)
  case (1 b cmd p)
  obtain t p0 where pk: "peek b p [38] = (t, p0)" by fastforce
  obtain tok qe p1 where g: "gettoken b p0 = (tok, qe, p1)" by (cases "gettoken b p0") auto
  have le: "p \<le> p0" "p0 \<le> p1" using peek_ge [OF pk] gettoken_ge [OF g] by auto
  show ?case
    using "1.prems" "1.IH" [OF pk [symmetric] _ g [symmetric] refl] le
    by (auto simp: back_loop.simps [of b cmd p] pk g split: if_splits)
qed

lemmas positions = peek_ge gettoken_ge parseredirs_pos exec_loop_pos back_loop_pos

lemma parse_pos:
  "parseline n b p = Some (Inr (c, p')) \<Longrightarrow> p \<le> p'"
  "parsepipe n b p = Some (Inr (c, p')) \<Longrightarrow> p \<le> p'"
  "parseblock n b p = Some (Inr (c, p')) \<Longrightarrow> p \<le> p'"
  "parseexec n b p = Some (Inr (c, p')) \<Longrightarrow> p \<le> p'"
proof (induction n arbitrary: p c p')
  case (Suc n)
  {
    case 1
    then show ?case using Suc.IH(1,2)
      by (auto elim!: pbind_InrE split: prod.splits if_splits dest!: positions)
        (meson order_trans positions)+
  next
    case 2
    then show ?case using Suc.IH(2,4)
      by (auto elim!: pbind_InrE split: prod.splits if_splits dest!: positions)
        (meson order_trans positions)+
  next
    case 3
    then show ?case using Suc.IH(1)
      by (auto elim!: pbind_InrE split: prod.splits if_splits dest!: positions)
        (meson order_trans positions)+
  next
    case 4
    then show ?case using Suc.IH(3)
      by (auto split: prod.splits if_splits sum.splits dest!: positions)
        (meson order_trans positions)+
  }
qed simp_all

text \<open>A symbol that \<^verbatim>\<open>peek\<close> has found is consumed by \<^verbatim>\<open>gettoken\<close>.\<close>

lemma peek_gettoken:
  assumes "peek b p toks = (True, p0)" "set toks \<inter> set whitespace = {}" "0 \<notin> set toks"
    and "gettoken b p0 = (tok, qe, p1)"
  shows "p \<le> p0" "p0 < length b" "p0 < p1"
proof -
  have s: "p0 < length b" "b ! p0 \<in> set toks" using peek_true [OF assms(1)] by auto
  then have "b ! p0 \<notin> set whitespace" "b ! p0 \<noteq> 0" using assms(2,3) by (blast, metis)
  then have "tok \<noteq> 0" using gettoken_nonzero [OF s(1)] assms(4) by blast
  then show "p0 < p1" "p0 < length b" "p \<le> p0"
    using gettoken_progress(2) [OF assms(4)] s(1) peek_ge [OF assms(1)] by auto
qed

lemma sym_toks [simp]:
  "set [38 :: byte] \<inter> set whitespace = {}" "set [59 :: byte] \<inter> set whitespace = {}"
  "set [124 :: byte] \<inter> set whitespace = {}" "set [40 :: byte] \<inter> set whitespace = {}"
  "set [41 :: byte] \<inter> set whitespace = {}"
  by (simp_all add: whitespace_def)

lemma parse_enough:
  "4 * (length b - p) + 4 \<le> n \<Longrightarrow> parseline n b p \<noteq> None"
  "4 * (length b - p) + 3 \<le> n \<Longrightarrow> parsepipe n b p \<noteq> None"
  "4 * (length b - p) + 1 \<le> n \<Longrightarrow> parseblock n b p \<noteq> None"
  "4 * (length b - p) + 2 \<le> n \<Longrightarrow> parseexec n b p \<noteq> None"
proof (induction n arbitrary: p)
  case (Suc n)
  {
    case 1
    show ?case unfolding parseline.simps
    proof (rule pbind_neq_None)
      show "parsepipe n b p \<noteq> None" using Suc.IH(2) 1 by simp
    next
      fix c p1 assume "parsepipe n b p = Some (Inr (c, p1))"
      then have le: "p \<le> p1" by (rule parse_pos)
      obtain c2 p2 where bl: "back_loop b c p1 = (c2, p2)" by fastforce
      obtain t p3 where pk: "peek b p2 [59] = (t, p3)" by fastforce
      obtain tok qe p4 where g: "gettoken b p3 = (tok, qe, p4)" by (cases "gettoken b p3") auto
      have "parseline n b p4 \<noteq> None" if t
        using peek_gettoken [OF pk [unfolded eqTrueI [OF that]] sym_toks(2) _ g] Suc.IH(1) [of p4] 1 le
          back_loop_pos [OF bl] by simp
      then show "(case back_loop b c p1 of (cmd, p) \<Rightarrow> case peek b p [59] of (t, p) \<Rightarrow>
        if t then case gettoken b p of (_, _, p) \<Rightarrow>
          pbind (parseline n b p) (\<lambda>r p. Some (Inr (LIST cmd r, p))) else Some (Inr (cmd, p))) \<noteq> None"
        by (cases t) (simp_all add: bl pk g pbind_Some)
    qed
  next
    case 2
    show ?case unfolding parsepipe.simps
    proof (rule pbind_neq_None)
      show "parseexec n b p \<noteq> None" using Suc.IH(4) 2 by simp
    next
      fix c p1 assume "parseexec n b p = Some (Inr (c, p1))"
      then have le: "p \<le> p1" by (rule parse_pos)
      obtain t p3 where pk: "peek b p1 [124] = (t, p3)" by fastforce
      obtain tok qe p4 where g: "gettoken b p3 = (tok, qe, p4)" by (cases "gettoken b p3") auto
      have "parsepipe n b p4 \<noteq> None" if t
        using peek_gettoken [OF pk [unfolded eqTrueI [OF that]] sym_toks(3) _ g] Suc.IH(2) [of p4] 2 le
        by simp
      then show "(case peek b p1 [124] of (t, p) \<Rightarrow>
        if t then case gettoken b p of (_, _, p) \<Rightarrow>
          pbind (parsepipe n b p) (\<lambda>r p. Some (Inr (PIPE c r, p))) else Some (Inr (c, p))) \<noteq> None"
        by (cases t) (simp_all add: pk g pbind_Some)
    qed
  next
    case 3
    obtain t p3 where pk: "peek b p [40] = (t, p3)" by fastforce
    obtain tok qe p4 where g: "gettoken b p3 = (tok, qe, p4)" by (cases "gettoken b p3") auto
    have "parseline n b p4 \<noteq> None" if t
      using peek_gettoken [OF pk [unfolded eqTrueI [OF that]] sym_toks(4) _ g] Suc.IH(1) [of p4] 3 by simp
    then show ?case using pbind_neq_None [of "parseline n b p4"]
      by (cases t) (auto simp: pk g simp del: not_None_eq split: prod.split)
  next
    case 4
    obtain t p3 where pk: "peek b p [40] = (t, p3)" by fastforce
    have "parseblock n b p3 \<noteq> None" using Suc.IH(3) [of p3] 4 peek_ge [OF pk] by simp
    then show ?case by (auto simp: pk split: sum.split prod.split)
  }
qed simp_all

text \<open>C18: The parser of the shell ends on every line: it gives a command or one of its error messages.\<close>

theorem parsecmd_total: "\<exists>r. parsecmd b = Some r"
proof -
  have "parseline (parse_fuel b) b 0 \<noteq> None" by (rule parse_enough) (simp add: parse_fuel_def)
  then show ?thesis by (auto simp: parsecmd_def split: sum.split prod.split)
qed

section \<open>The strings of a command\<close>

primrec spans :: "cmd \<Rightarrow> span list" where
  "spans (EXEC args) = args"
| "spans (REDIR c f m fd) = spans c @ [f]"
| "spans (PIPE l r) = spans l @ spans r"
| "spans (LIST l r) = spans l @ spans r"
| "spans (BACK c) = spans c"

definition tok_ok :: "byte list \<Rightarrow> span \<Rightarrow> bool" where
  "tok_ok b = (\<lambda>(q, e). q < e \<and> e \<le> length b \<and> (\<forall>i. q \<le> i \<and> i < e \<longrightarrow> word_char (b ! i)) \<and>
     (e < length b \<longrightarrow> \<not> word_char (b ! e)))"

abbreviation toks_ok :: "byte list \<Rightarrow> cmd \<Rightarrow> bool" where
  "toks_ok b c \<equiv> \<forall>sp \<in> set (spans c). tok_ok b sp"

lemma gettoken_word:
  assumes "gettoken b p = (97, qe, p')"
  shows "tok_ok b qe"
proof -
  define s where "s = skip_ws b p"
  have n: "(97 :: byte) \<notin> set (bytes_of ''|();&<'')" "97 \<noteq> (43 :: byte)"
    by (simp_all add: bytes_of_def of_char_def)
  have q: "qe = (s, skip_word b s)" "byte_at b s \<noteq> 0" "byte_at b s \<notin> set (bytes_of ''|();&<'')" "byte_at b s \<noteq> 62"
    using assms n unfolding gettoken_def s_def [symmetric] Let_def by (auto split: if_splits)
  have l: "s < length b" using q(2) by (rule byte_at_neq_0)
  have w: "word_char (b ! s)"
    using q l other_symbols [of "b ! s"] skip_ws_stop [of b p] by (auto simp: word_char_def s_def byte_at_def)
  have "word_char (b ! i)" if "s \<le> i" "i < skip_word b s" for i
  proof -
    have "takeWhile word_char (drop s b) ! (i - s) \<in> set (takeWhile word_char (drop s b))"
      using that by (intro nth_mem) (auto simp: skip_word_def)
    moreover have "takeWhile word_char (drop s b) ! (i - s) = b ! i"
      using that l by (subst takeWhile_nth) (auto simp: skip_word_def)
    ultimately show ?thesis using set_takeWhileD by metis
  qed
  then show ?thesis
    using skip_word_step [OF l w] skip_le(2) [of s b] l skip_word_stop [of b s]
    by (auto simp: tok_ok_def q(1))
qed

lemma spans_add_arg: "set (spans (add_arg c a)) \<subseteq> insert a (set (spans c))"
  by (induction c) auto

lemma parseredirs_ok:
  "parseredirs b cmd p = Inr (cmd', p') \<Longrightarrow> toks_ok b cmd \<Longrightarrow> toks_ok b cmd'"
proof (induction b cmd p rule: parseredirs.induct)
  case (1 b cmd p)
  obtain t p0 where pk: "peek b p (bytes_of ''<>'') = (t, p0)" by fastforce
  obtain tok q p1 where g1: "gettoken b p0 = (tok, q, p1)" by (cases "gettoken b p0") auto
  obtain a qe p2 where g2: "gettoken b p1 = (a, qe, p2)" by (cases "gettoken b p1") auto
  show ?case
  proof (cases t)
    case False
    then show ?thesis using "1.prems" by (simp add: parseredirs.simps [of b cmd p] pk)
  next
    case True
    then have "a = 97" using "1.prems"(1) by (auto simp: parseredirs.simps [of b cmd p] pk g1 g2 split: if_splits)
    then have "tok_ok b qe" using gettoken_word g2 by simp
    have r: "parseredirs b (redir_of tok cmd qe) p2 = Inr (cmd', p')"
      using "1.prems"(1) True \<open>a = 97\<close> by (simp add: parseredirs.simps [of b cmd p] pk g1 g2)
    have "toks_ok b (redir_of tok cmd qe)" using \<open>tok_ok b qe\<close> "1.prems"(2) by (simp add: redir_of_def)
    then show ?thesis
      using "1.IH" [OF pk [symmetric] _ g1 [symmetric] refl g2 [symmetric] refl _ r] True \<open>a = 97\<close> by simp
  qed
qed

lemma exec_loop_ok:
  "exec_loop b ret argc p = Inr (cmd', p') \<Longrightarrow> toks_ok b ret \<Longrightarrow> toks_ok b cmd'"
proof (induction b ret argc p rule: exec_loop.induct)
  case (1 b ret argc p)
  obtain t p0 where pk: "peek b p (bytes_of ''|)&;'') = (t, p0)" by fastforce
  obtain tok qe p1 where g: "gettoken b p0 = (tok, qe, p1)" by (cases "gettoken b p0") auto
  show ?case
  proof (cases "t \<or> tok = 0")
    case True
    then show ?thesis using "1.prems" by (auto simp: exec_loop.simps [of b ret argc p] pk g split: if_splits)
  next
    case False
    then obtain r p2 where r: "parseredirs b (add_arg ret qe) p1 = Inr (r, p2)" "tok = 97"
      "\<not> argc + 1 \<ge> MAXARGS" "exec_loop b r (argc + 1) p2 = Inr (cmd', p')"
      using "1.prems" by (auto simp: exec_loop.simps [of b ret argc p] pk g split: if_splits sum.splits)
    have "toks_ok b (add_arg ret qe)"
      using "1.prems"(2) gettoken_word g r(2) spans_add_arg [of ret qe] by blast
    then show ?thesis
      using "1.IH" [OF pk [symmetric] _ g [symmetric] refl _ _ _ r(1) refl r(4)] False r
        parseredirs_ok [OF r(1)] by simp
  qed
qed

lemma back_loop_ok: "back_loop b cmd p = (cmd', p') \<Longrightarrow> toks_ok b cmd \<Longrightarrow> toks_ok b cmd'"
proof (induction b cmd p rule: back_loop.induct)
  case (1 b cmd p)
  obtain t p0 where pk: "peek b p [38] = (t, p0)" by fastforce
  obtain tok qe p1 where g: "gettoken b p0 = (tok, qe, p1)" by (cases "gettoken b p0") auto
  show ?case
    using "1.prems" "1.IH" [OF pk [symmetric] _ g [symmetric] refl]
    by (auto simp: back_loop.simps [of b cmd p] pk g split: if_splits)
qed

lemma parse_ok:
  "parseline n b p = Some (Inr (c, p')) \<Longrightarrow> toks_ok b c"
  "parsepipe n b p = Some (Inr (c, p')) \<Longrightarrow> toks_ok b c"
  "parseblock n b p = Some (Inr (c, p')) \<Longrightarrow> toks_ok b c"
  "parseexec n b p = Some (Inr (c, p')) \<Longrightarrow> toks_ok b c"
proof (induction n arbitrary: p c p')
  case (Suc n)
  {
    case 1
    then show ?case using Suc.IH(1,2) back_loop_ok
      by (fastforce elim!: pbind_InrE split: prod.splits if_splits)
  next
    case 2
    then show ?case using Suc.IH(2,4) by (fastforce elim!: pbind_InrE split: prod.splits if_splits)
  next
    case 3
    then show ?case using Suc.IH(1) parseredirs_ok
      by (fastforce elim!: pbind_InrE split: prod.splits if_splits)
  next
    case 4
    then show ?case using Suc.IH(3) parseredirs_ok [of b "EXEC []"] exec_loop_ok
      by (fastforce split: prod.splits if_splits sum.splits)
  }
qed simp_all

text \<open>\<open>nulterminate\<close> writes zeros at the ends of the spans and nowhere else.\<close>

lemma length_fold_zero: "length (fold (\<lambda>(q, eq) b. b[eq := 0]) args b) = length b"
  by (induction args arbitrary: b) (auto split: prod.splits)

lemma length_nulterminate [simp]: "length (nulterminate c b) = length b"
  by (induction c arbitrary: b) (auto simp: length_fold_zero)

lemma nth_fold_zero:
  "i < length b \<Longrightarrow>
   fold (\<lambda>(q, eq) b. b[eq := 0]) args b ! i = (if i \<in> snd ` set args then 0 else b ! i)"
  by (induction args arbitrary: b) (auto simp: nth_list_update split: prod.splits)

lemma nth_nulterminate:
  "i < length b \<Longrightarrow> nulterminate c b ! i = (if i \<in> snd ` set (spans c) then 0 else b ! i)"
proof (induction c arbitrary: b)
  case (REDIR c f m fd)
  then show ?case by (cases "i = snd f") simp_all
qed (simp_all add: nth_fold_zero image_Un)

text \<open>The C string at an index.\<close>

definition string_at :: "byte list \<Rightarrow> nat \<Rightarrow> byte list" where
  "string_at b q = takeWhile (\<lambda>c. c \<noteq> 0) (drop q b)"

definition span_text :: "byte list \<Rightarrow> span \<Rightarrow> byte list" where
  "span_text b = (\<lambda>(q, e). take (e - q) (drop q b))"

lemma string_at_nulterminate:
  assumes "toks_ok b c" "0 \<notin> set b" and "(q, e) \<in> set (spans c)"
  shows "string_at (nulterminate c (b @ [0])) q = span_text b (q, e)"
proof -
  let ?b = "nulterminate c (b @ [0])"
  have t: "q < e" "e \<le> length b" "\<And>i. q \<le> i \<Longrightarrow> i < e \<Longrightarrow> word_char (b ! i)"
    using assms(1,3) by (auto simp: tok_ok_def)
  have "?b ! i = b ! i" if "q \<le> i" "i < e" for i
  proof -
    have "i \<notin> snd ` set (spans c)"
    proof
      assume "i \<in> snd ` set (spans c)"
      then obtain q' where "tok_ok b (q', i)" using assms(1) by force
      then show False using t that by (auto simp: tok_ok_def)
    qed
    then show ?thesis using that t by (simp add: nth_nulterminate nth_append)
  qed
  then have eq: "take (e - q) (drop q ?b) = take (e - q) (drop q b)"
    using t by (intro nth_equalityI) auto
  have "?b ! e = 0" using assms(3) t by (force simp: nth_nulterminate image_iff)
  then have "drop e ?b = 0 # drop (Suc e) ?b" using t(2) Cons_nth_drop_Suc [of e ?b] by simp
  moreover have "drop q ?b = take (e - q) (drop q ?b) @ drop (e - q) (drop q ?b)"
    by (rule append_take_drop_id [symmetric])
  ultimately have d: "drop q ?b = take (e - q) (drop q b) @ 0 # drop (Suc e) ?b" using eq t(1) by simp
  have "0 \<notin> set (take (e - q) (drop q b))" using assms(2) by (meson in_set_dropD in_set_takeD)
  then show ?thesis unfolding string_at_def d span_text_def by (subst takeWhile_append2) auto
qed

text \<open>C17: After parsing a line, every argument and file name of the command is, as a C string in the
  buffer with the terminators written, exactly the word the line has there: terminating one string
  never damages another.\<close>

theorem parsecmd_strings:
  assumes "parsecmd b = Some (Inr (cmd, b'))" "0 \<notin> set b"
  shows "\<forall>(q, e) \<in> set (spans cmd). string_at b' q = span_text b (q, e) \<and> span_text b (q, e) \<noteq> [] \<and>
    list_all word_char (span_text b (q, e))"
proof -
  obtain p where "parseline (parse_fuel b) b 0 = Some (Inr (cmd, p))" and b': "b' = nulterminate cmd (b @ [0])"
    using assms(1) by (auto simp: parsecmd_def split: option.splits sum.splits prod.splits if_splits)
  then have ok: "toks_ok b cmd" by (intro parse_ok)
  have "span_text b (q, e) \<noteq> [] \<and> list_all word_char (span_text b (q, e))" if "(q, e) \<in> set (spans cmd)" for q e
    using ok that by (auto simp: tok_ok_def span_text_def list_all_length)
  then show ?thesis using string_at_nulterminate [OF ok assms(2)] b' by auto
qed

theorem parsecmd_strings_witness:
  "parsecmd [97, 32, 98, 62, 99] = Some (Inr (REDIR (EXEC [(0, 1), (2, 3)]) (4, 5) 513 1, [97, 0, 98, 0, 99, 0])) \<and>
   string_at [97, 0, 98, 0, 99, 0] 2 = [98]"
proof -
  have e: "parsecmd [97, 32, 98, 62, 99] =
      Some (Inr (REDIR (EXEC [(0, 1), (2, 3)]) (4, 5) 513 1, [97, 0, 98, 0, 99, 0]))"
    by code_simp
  then show ?thesis using parsecmd_strings [OF e] by (simp add: span_text_def)
qed

end
