(* ===== verification/ShRound.thy ===== *)
theory ShRound
  imports Sh
begin

text \<open>
  The round trip of the shell's parser: a command written out as text, with every operand of an
  operator in parentheses, is parsed back to the same command.
\<close>

datatype script =
    Exec "byte list list"
  | Redir script "byte list" bool    \<comment> \<open>the flag is set for output\<close>
  | Pipe script script
  | Seq script script
  | Back script

definition block :: "byte list \<Rightarrow> byte list" where
  "block s = [40] @ s @ [41]"

primrec show_script :: "script \<Rightarrow> byte list" where
  "show_script (Exec ws) = concat (map (\<lambda>w. w @ [32]) ws)"
| "show_script (Redir c f out) = block (show_script c) @ [if out then 62 else 60] @ f @ [32]"
| "show_script (Pipe l r) = block (show_script l) @ [124] @ block (show_script r)"
| "show_script (Seq l r) = block (show_script l) @ [59] @ block (show_script r)"
| "show_script (Back c) = block (show_script c) @ [38]"

text \<open>Words are non-empty and consist of word characters; \<^verbatim>\<open>MAXARGS\<close> includes the terminating null pointer.\<close>

definition word_ok :: "byte list \<Rightarrow> bool" where
  "word_ok w \<longleftrightarrow> w \<noteq> [] \<and> list_all word_char w \<and> 0 \<notin> set w"

primrec script_ok :: "script \<Rightarrow> bool" where
  "script_ok (Exec ws) \<longleftrightarrow> length ws < MAXARGS \<and> list_all word_ok ws"
| "script_ok (Redir c f out) \<longleftrightarrow> script_ok c \<and> word_ok f"
| "script_ok (Pipe l r) \<longleftrightarrow> script_ok l \<and> script_ok r"
| "script_ok (Seq l r) \<longleftrightarrow> script_ok l \<and> script_ok r"
| "script_ok (Back c) \<longleftrightarrow> script_ok c"

text \<open>The command as \<^verbatim>\<open>runcmd\<close> sees it: the strings are read through a function.\<close>

primrec resolve :: "(span \<Rightarrow> byte list) \<Rightarrow> cmd \<Rightarrow> script" where
  "resolve rd (EXEC args) = Exec (map rd args)"
| "resolve rd (REDIR c f m fd) = Redir (resolve rd c) (rd f) (fd = 1)"
| "resolve rd (PIPE l r) = Pipe (resolve rd l) (resolve rd r)"
| "resolve rd (LIST l r) = Seq (resolve rd l) (resolve rd r)"
| "resolve rd (BACK c) = Back (resolve rd c)"

lemma resolve_cong: "(\<And>sp. sp \<in> set (spans c) \<Longrightarrow> rd sp = rd' sp) \<Longrightarrow> resolve rd c = resolve rd' c"
  by (induction c) auto

section \<open>Steps of the scanner\<close>

definition nows :: "byte list \<Rightarrow> bool" where
  "nows r \<longleftrightarrow> r = [] \<or> hd r \<notin> set whitespace"

lemma drop_Cons_nth: "drop p b = x # r \<Longrightarrow> p < length b \<and> b ! p = x \<and> drop (Suc p) b = r"
  by (metis drop_eq_Nil2 linorder_not_less list.distinct(1) nth_via_drop drop_Suc tl_drop list.sel(3))

lemma skip_ws_nows: "nows (drop p b) \<Longrightarrow> skip_ws b p = p"
  by (cases "drop p b") (auto simp: skip_ws_def nows_def)

lemma skip_ws_blank: "drop p b = 32 # r \<Longrightarrow> nows r \<Longrightarrow> skip_ws b p = Suc p"
  by (cases r) (auto simp: skip_ws_def nows_def whitespace_def)

lemma byte_at_drop: "byte_at b p = (case drop p b of [] \<Rightarrow> 0 | x # _ \<Rightarrow> x)"
proof (cases "drop p b")
  case Nil
  then show ?thesis by (simp add: byte_at_def)
next
  case (Cons x r)
  then show ?thesis using drop_Cons_nth [OF Cons] by (simp add: byte_at_def)
qed

lemma peek_drop:
  "nows (drop p b) \<Longrightarrow> peek b p toks = ((case drop p b of [] \<Rightarrow> False | x # _ \<Rightarrow> x \<noteq> 0 \<and> x \<in> set toks), p)"
  by (auto simp: peek_def Let_def skip_ws_nows byte_at_drop split: list.split)

lemma gettoken_sym:
  assumes "drop p b = x # r" "x \<in> set (bytes_of ''|();&<'')" "nows r"
  shows "gettoken b p = (x, (p, p + 1), p + 1)"
proof -
  have d: "drop (Suc p) b = r" using drop_Cons_nth [OF assms(1)] by simp
  have x: "x \<notin> set whitespace" "x \<noteq> 0" using assms(2) by (auto simp: bytes_of_def of_char_def whitespace_def)
  have "skip_ws b p = p" using x assms(1) by (intro skip_ws_nows) (simp add: nows_def)
  moreover have "skip_ws b (Suc p) = Suc p" using assms(3) d by (intro skip_ws_nows) simp
  ultimately show ?thesis using x assms by (simp add: gettoken_def Let_def byte_at_drop)
qed

lemma gettoken_gt:
  assumes "drop p b = 62 # r" "nows r" "r = [] \<or> hd r \<noteq> 62"
  shows "gettoken b p = (62, (p, p + 1), p + 1)"
proof -
  have d: "drop (Suc p) b = r" using drop_Cons_nth [OF assms(1)] by simp
  have "skip_ws b p = p" using assms(1) by (intro skip_ws_nows) (simp add: nows_def whitespace_def)
  moreover have "skip_ws b (Suc p) = Suc p" using assms(2) d by (intro skip_ws_nows) simp
  moreover have "byte_at b (Suc p) \<noteq> 62" using d assms(3) by (cases r) (simp_all add: byte_at_drop)
  ultimately show ?thesis
    using assms(1) by (simp add: gettoken_def Let_def byte_at_drop [of b p] bytes_of_def of_char_def)
qed

lemma word_char_not:
  "word_char c \<Longrightarrow> c \<notin> set whitespace" "word_char c \<Longrightarrow> c \<notin> set (bytes_of ''|();&<'')" "word_char c \<Longrightarrow> c \<noteq> 62"
  by (auto simp: word_char_def symbols_def bytes_of_def of_char_def)

lemma gettoken_word_drop:
  assumes "drop p b = w @ 32 # r" "word_ok w" "nows r"
  shows "gettoken b p = (97, (p, p + length w), p + length w + 1)"
    and "span_text b (p, p + length w) = w"
proof -
  obtain c w' where w: "w = c # w'" "word_char c" "c \<noteq> 0"
    using assms(2) by (cases w) (auto simp: word_ok_def)
  have "skip_ws b p = p" using w word_char_not(1) assms(1) by (intro skip_ws_nows) (simp add: nows_def)
  moreover have "takeWhile word_char (w @ 32 # r) = w"
    using assms(2) by (subst takeWhile_append2) (auto simp: word_ok_def list_all_iff word_char_def whitespace_def)
  then have "skip_word b p = p + length w" using assms(1) by (simp add: skip_word_def)
  moreover have "drop (p + length w) b = 32 # r"
    using assms(1) by (metis add.commute append_eq_conv_conj drop_drop)
  then have "skip_ws b (p + length w) = p + length w + 1" using assms(3) by (simp add: skip_ws_blank)
  moreover have "byte_at b p = c" using assms(1) w by (simp add: byte_at_drop)
  ultimately show "gettoken b p = (97, (p, p + length w), p + length w + 1)"
    using w word_char_not [OF w(2)] by (simp add: gettoken_def Let_def)
  show "span_text b (p, p + length w) = w" using assms(1) by (simp add: span_text_def)
qed

section \<open>Steps of the parser\<close>

definition starts :: "byte set \<Rightarrow> byte list \<Rightarrow> bool" where
  "starts S r \<longleftrightarrow> r = [] \<or> hd r \<in> S"

lemma starts_nows: "starts S r \<Longrightarrow> S \<inter> set whitespace = {} \<Longrightarrow> nows r"
  by (auto simp: starts_def nows_def)

lemma peek_no:
  assumes "starts S (drop p b)" "S \<inter> set whitespace = {}" "S \<inter> set toks = {}"
  shows "peek b p toks = (False, p)"
  using assms(1,3) starts_nows [OF assms(1,2)] by (cases "drop p b") (auto simp: peek_drop starts_def)

lemma peek_yes:
  assumes "drop p b = x # r" "x \<in> set toks" "x \<noteq> 0" "x \<notin> set whitespace"
  shows "peek b p toks = (True, p)"
  using assms by (simp add: peek_drop nows_def)

abbreviation ops :: "byte set" where "ops \<equiv> {41, 59, 38, 124}"

lemma ops_facts:
  "ops \<inter> set whitespace = {}" "ops \<inter> set (bytes_of ''<>'') = {}" "ops \<inter> set [40 :: byte] = {}"
  by (auto simp: whitespace_def bytes_of_def of_char_def)

lemma parseredirs_no:
  assumes "starts S (drop p b)" "S \<inter> set whitespace = {}" "S \<inter> set (bytes_of ''<>'') = {}"
  shows "parseredirs b c p = Inr (c, p)"
  using peek_no [OF assms] by (simp add: parseredirs.simps)

lemma parseredirs_one:
  assumes "drop p b = (if out then 62 else 60) # f @ 32 # r" "word_ok f" "starts ops r"
  shows "parseredirs b c p =
    Inr (REDIR c (p + 1, p + 1 + length f) (if out then O_WRONLY + O_CREATE else O_RDONLY) (if out then 1 else 0),
         p + length f + 2)"
    and "span_text b (p + 1, p + 1 + length f) = f"
proof -
  obtain x f' where f: "f = x # f'" "word_char x" using assms(2) by (cases f) (auto simp: word_ok_def)
  have d: "drop (Suc p) b = f @ 32 # r" using drop_Cons_nth [OF assms(1)] by simp
  have n: "nows (f @ 32 # r)" "hd (f @ 32 # r) \<noteq> 62" using f word_char_not [OF f(2)] by (auto simp: nows_def)
  have pk: "peek b p (bytes_of ''<>'') = (True, p)"
    using assms(1) by (intro peek_yes) (auto simp: bytes_of_def of_char_def whitespace_def split: if_splits)
  have g1: "gettoken b p = (if out then 62 else 60, (p, p + 1), p + 1)"
  proof (cases out)
    case True
    then show ?thesis using assms(1) n by (simp add: gettoken_gt)
  next
    case False
    then show ?thesis using gettoken_sym [of p b 60 "f @ 32 # r"] assms(1) n by (simp add: bytes_of_def of_char_def)
  qed
  have nr: "nows r" using starts_nows [OF assms(3) ops_facts(1)] .
  note g2 = gettoken_word_drop [OF d assms(2) nr]
  have "drop (p + length f + 2) b = drop (length f + 1) (drop (Suc p) b)" by (simp add: ac_simps)
  also have "\<dots> = r" by (simp add: d)
  finally have "parseredirs b c' (p + length f + 2) = Inr (c', p + length f + 2)" for c'
    using assms(3) by (intro parseredirs_no [OF _ ops_facts(1,2)]) simp
  then show "parseredirs b c p =
    Inr (REDIR c (p + 1, p + 1 + length f) (if out then O_WRONLY + O_CREATE else O_RDONLY) (if out then 1 else 0),
         p + length f + 2)"
    using pk g1 g2 by (simp add: parseredirs.simps [of b c p] redir_of_def)
  show "span_text b (p + 1, p + 1 + length f) = f" using g2(2) by simp
qed

lemma gettoken_end: "drop p b = [] \<Longrightarrow> gettoken b p = (0, (p, p), p)"
  by (simp add: gettoken_def Let_def skip_ws_def byte_at_def)

lemma exec_loop_words:
  assumes "drop p b = concat (map (\<lambda>w. w @ [32]) ws) @ post" "list_all word_ok ws" "starts ops post"
    and "argc + length ws < MAXARGS"
  shows "\<exists>args. exec_loop b (EXEC as) argc p = Inr (EXEC (as @ args), p + length (concat (map (\<lambda>w. w @ [32]) ws)))
    \<and> map (span_text b) args = ws"
  using assms
proof (induction ws arbitrary: p as argc)
  case Nil
  then have d: "drop p b = post" by simp
  show ?case
  proof (cases post)
    case Nil
    then have "peek b p (bytes_of ''|)&;'') = (False, p)" using d by (intro peek_no [of "{}"]) (auto simp: starts_def)
    then show ?thesis using gettoken_end [of p b] Nil d by (simp add: exec_loop.simps [of b _ argc p])
  next
    case (Cons x r)
    then have "peek b p (bytes_of ''|)&;'') = (True, p)"
      using d Nil.prems(3) by (intro peek_yes) (auto simp: starts_def bytes_of_def of_char_def whitespace_def)
    then show ?thesis by (simp add: exec_loop.simps [of b _ argc p])
  qed
next
  case (Cons w ws)
  let ?rest = "concat (map (\<lambda>w. w @ [32]) ws) @ post"
  have w: "word_ok w" using Cons.prems by simp
  obtain x w' where x: "w = x # w'" "word_char x" using w by (cases w) (auto simp: word_ok_def)
  have hd_ok: "v \<noteq> [] \<and> hd v \<notin> set whitespace \<and> hd v \<notin> set (bytes_of ''<>'')" if "word_ok v" for v
    using that word_char_not [of "hd v"] by (cases v) (auto simp: word_ok_def bytes_of_def of_char_def)
  have rest: "starts (- set whitespace - set (bytes_of ''<>'')) ?rest"
    using Cons.prems(2,3) hd_ok ops_facts by (cases ws) (auto simp: starts_def)
  have d: "drop p b = w @ 32 # ?rest" using Cons.prems(1) by simp
  have nr: "nows ?rest" using rest by (rule starts_nows) auto
  note g = gettoken_word_drop [OF d w nr]
  have pk: "peek b p (bytes_of ''|)&;'') = (False, p)"
    using d x word_char_not [OF x(2)]
    by (intro peek_no [of "{x}"]) (auto simp: starts_def bytes_of_def of_char_def)
  have "drop (p + length w + 1) b = drop (length w + 1) (drop p b)" by (simp add: ac_simps)
  then have d2: "drop (p + length w + 1) b = ?rest" by (simp add: d)
  have "parseredirs b (EXEC (as @ [(p, p + length w)])) (p + length w + 1) =
      Inr (EXEC (as @ [(p, p + length w)]), p + length w + 1)"
    using rest d2 by (intro parseredirs_no [of "- set whitespace - set (bytes_of ''<>'')"]) auto
  then have e: "exec_loop b (EXEC as) argc p = exec_loop b (EXEC (as @ [(p, p + length w)])) (argc + 1) (p + length w + 1)"
    using pk g(1) Cons.prems(4) by (simp add: exec_loop.simps [of b "EXEC as" argc p])
  obtain args where "exec_loop b (EXEC (as @ [(p, p + length w)])) (argc + 1) (p + length w + 1) =
      Inr (EXEC ((as @ [(p, p + length w)]) @ args), p + length w + 1 + length (concat (map (\<lambda>w. w @ [32]) ws)))"
    "map (span_text b) args = ws"
    using Cons.IH [OF d2, of "argc + 1" "as @ [(p, p + length w)]"] Cons.prems by auto
  then show ?case using e g(2) by (intro exI [of _ "(p, p + length w) # args"]) simp
qed

section \<open>The round trip\<close>

definition parses :: "byte list \<Rightarrow> script \<Rightarrow> bool" where
  "parses b c \<longleftrightarrow> (\<forall>n p post. drop p b = show_script c @ post \<longrightarrow> starts {41} post \<longrightarrow>
     4 * length (show_script c) + 4 \<le> n \<longrightarrow>
     (\<exists>c'. parseline n b p = Some (Inr (c', p + length (show_script c))) \<and> resolve (span_text b) c' = c))"

lemma back_loop_no: "starts S (drop p b) \<Longrightarrow> S \<inter> set whitespace = {} \<Longrightarrow> 38 \<notin> S \<Longrightarrow> back_loop b c p = (c, p)"
  using peek_no [of S p b "[38]"] by (simp add: back_loop.simps)

lemma show_script_head:
  "script_ok c \<Longrightarrow> starts {41} post \<Longrightarrow> nows (show_script c @ post)"
proof (cases c)
  case (Exec ws)
  assume "script_ok c" "starts {41} post"
  then show ?thesis using Exec starts_nows [of "{41}" post] word_char_not(1)
    by (cases ws; cases "hd ws") (auto simp: nows_def word_ok_def whitespace_def)
qed (simp_all add: block_def nows_def whitespace_def)

text \<open>A parenthesised command, followed by anything \<^verbatim>\<open>parseredirs\<close> accepts.\<close>

lemma parse_block:
  assumes "parses b c" "script_ok c" and d: "drop p b = block (show_script c) @ post" and "nows post"
    and n: "4 * length (show_script c) + 6 \<le> n"
  shows "\<exists>c'. parseexec n b p = Some (parseredirs b c' (p + length (block (show_script c)))) \<and>
    resolve (span_text b) c' = c"
proof -
  obtain m where m: "n = Suc (Suc m)" "4 * length (show_script c) + 4 \<le> m"
    using n by (intro that [of "n - 2"]) simp_all
  have d0: "drop p b = 40 # show_script c @ 41 # post" using d by (simp add: block_def)
  have d1: "drop (Suc p) b = show_script c @ 41 # post" using drop_Cons_nth [OF d0] by simp
  have "nows (show_script c @ 41 # post)" using assms(2) by (intro show_script_head) (simp_all add: starts_def)
  then have g: "gettoken b p = (40, (p, p + 1), p + 1)"
    using d0 by (intro gettoken_sym) (auto simp: bytes_of_def of_char_def)
  have pk: "peek b p [40] = (True, p)" using d0 by (intro peek_yes) (auto simp: whitespace_def)
  obtain c' where c': "parseline m b (Suc p) = Some (Inr (c', Suc p + length (show_script c)))"
    "resolve (span_text b) c' = c"
    using assms(1) [unfolded parses_def, rule_format, OF d1 _ m(2)] by (auto simp: starts_def)
  let ?p = "Suc p + length (show_script c)"
  have "drop ?p b = drop (length (show_script c)) (drop (Suc p) b)" by (simp add: ac_simps)
  then have d2: "drop ?p b = 41 # post" by (simp add: d1)
  have "peek b ?p [41] = (True, ?p)" using d2 by (intro peek_yes) (auto simp: whitespace_def)
  moreover have "gettoken b ?p = (41, (?p, ?p + 1), ?p + 1)"
    using d2 assms(4) by (intro gettoken_sym) (auto simp: bytes_of_def of_char_def)
  ultimately have "parseexec n b p = Some (parseredirs b c' (?p + 1))"
    using pk g c' by (simp add: m(1))
  then show ?thesis using c'(2) by (auto simp: block_def)
qed

lemma parse_block_op:
  assumes "parses b c" "script_ok c" "drop p b = block (show_script c) @ post" "starts ops post"
    and "4 * length (show_script c) + 6 \<le> n"
  shows "\<exists>c'. parseexec n b p = Some (Inr (c', p + length (block (show_script c)))) \<and>
    drop (p + length (block (show_script c))) b = post \<and> resolve (span_text b) c' = c"
proof -
  let ?p = "p + length (block (show_script c))"
  have "drop ?p b = drop (length (block (show_script c))) (drop p b)" by (simp add: ac_simps)
  then have d: "drop ?p b = post" by (simp add: assms(3))
  have "nows post" using assms(4) ops_facts(1) by (rule starts_nows)
  from parse_block [OF assms(1-3) this assms(5)] show ?thesis
    using d assms(4) parseredirs_no [OF _ ops_facts(1,2), of ?p b] by auto
qed

lemma starts_mono: "starts S r \<Longrightarrow> S \<subseteq> T \<Longrightarrow> starts T r"
  by (auto simp: starts_def)

lemma parses_Exec:
  assumes "script_ok (Exec ws)"
  shows "parses b (Exec ws)"
  unfolding parses_def
proof (intro allI impI)
  fix n p post
  assume d: "drop p b = show_script (Exec ws) @ post" and st: "starts {41} post"
    and n: "4 * length (show_script (Exec ws)) + 4 \<le> n"
  obtain m where m: "n = Suc (Suc (Suc m))"
    using n by (intro that [of "n - 3"]) simp
  let ?p = "p + length (show_script (Exec ws))"
  have dp: "drop ?p b = post" using d by (metis add.commute append_eq_conv_conj drop_drop)
  have o: "starts ops post" using st by (rule starts_mono) auto
  have h: "starts (- {40, 60, 62} - set whitespace) (show_script (Exec ws) @ post)"
  proof (cases ws)
    case Nil
    then show ?thesis using starts_mono [OF st, of "- {40, 60, 62} - set whitespace"] by (simp add: whitespace_def)
  next
    case (Cons w ws')
    then obtain x w' where "w = x # w'" "word_char x" using assms by (cases w) (auto simp: word_ok_def)
    then show ?thesis using Cons word_char_not [of x] by (auto simp: starts_def bytes_of_def of_char_def)
  qed
  have pk: "peek b p [40] = (False, p)" using h d by (intro peek_no [of "- {40, 60, 62} - set whitespace"]) auto
  have pr: "parseredirs b (EXEC []) p = Inr (EXEC [], p)"
    using h d by (intro parseredirs_no [of "- {40, 60, 62} - set whitespace"]) (auto simp: bytes_of_def of_char_def)
  obtain args where args: "exec_loop b (EXEC []) 0 p = Inr (EXEC args, ?p)" "map (span_text b) args = ws"
    using exec_loop_words [of p b ws post 0 "[]"] d assms o by auto
  have ends: "peek b ?p [124] = (False, ?p)" "peek b ?p [59] = (False, ?p)" "back_loop b (EXEC args) ?p = (EXEC args, ?p)"
    using st dp by (intro peek_no [of "{41}"] back_loop_no [of "{41}"]; simp add: whitespace_def)+
  show "\<exists>c'. parseline n b p = Some (Inr (c', ?p)) \<and> resolve (span_text b) c' = Exec ws"
    using pk pr args ends by (intro exI [of _ "EXEC args"]) (simp add: m)
qed

lemma parsepipe_of_exec:
  assumes "parseexec n b p = Some (Inr (c, q))" "starts {41, 59, 38} (drop q b)"
  shows "parsepipe (Suc n) b p = Some (Inr (c, q))"
  using assms(1) peek_no [OF assms(2), of "[124]"] by (simp add: whitespace_def)

lemma parseline_of_pipe:
  assumes "parsepipe n b p = Some (Inr (c, q))" "starts {41} (drop q b)"
  shows "parseline (Suc n) b p = Some (Inr (c, q))"
  using assms(1) peek_no [OF assms(2), of "[59]"] back_loop_no [OF assms(2)] by (simp add: whitespace_def)

lemma nows_block [simp]: "nows (block s @ r)"
  by (simp add: block_def nows_def whitespace_def)

lemma op_step:
  assumes "drop p b = x # r" "x \<in> ops" "nows r"
  shows "peek b p [x] = (True, p)" "gettoken b p = (x, (p, p + 1), p + 1)" "drop (p + 1) b = r"
proof -
  show "peek b p [x] = (True, p)" using assms by (intro peek_yes) (auto simp: whitespace_def)
  show "gettoken b p = (x, (p, p + 1), p + 1)"
    using assms by (intro gettoken_sym) (auto simp: bytes_of_def of_char_def)
  show "drop (p + 1) b = r" using drop_Cons_nth [OF assms(1)] by simp
qed

lemma parses_Redir:
  assumes "parses b c" "script_ok c" "word_ok f"
  shows "parses b (Redir c f out)"
  unfolding parses_def
proof (intro allI impI)
  fix n p post
  assume d: "drop p b = show_script (Redir c f out) @ post" and st: "starts {41} post"
    and n: "4 * length (show_script (Redir c f out)) + 4 \<le> n"
  obtain m where m: "n = Suc (Suc m)" "4 * length (show_script c) + 6 \<le> m"
    using n by (intro that [of "n - 2"]) (simp_all add: block_def)
  let ?q = "p + length (block (show_script c))"
  let ?tail = "(if out then 62 else 60) # f @ 32 # post"
  have d0: "drop p b = block (show_script c) @ ?tail" using d by simp
  have "nows ?tail" by (simp add: nows_def whitespace_def)
  from parse_block [OF assms(1,2) d0 this m(2)]
  obtain c' where c': "parseexec m b p = Some (parseredirs b c' ?q)" "resolve (span_text b) c' = c" by blast
  have "drop ?q b = drop (length (block (show_script c))) (drop p b)" by (simp add: ac_simps)
  then have d1: "drop ?q b = ?tail" by (simp add: d0)
  note r = parseredirs_one [OF d1 assms(3) starts_mono [OF st]]
  let ?c = "REDIR c' (?q + 1, ?q + 1 + length f) (if out then O_WRONLY + O_CREATE else O_RDONLY) (if out then 1 else 0)"
  have e: "parseexec m b p = Some (Inr (?c, ?q + length f + 2))" using c'(1) r(1) by simp
  have "drop (?q + length f + 2) b = drop (length f + 2) (drop ?q b)" by (simp add: ac_simps)
  then have d2: "drop (?q + length f + 2) b = post" by (simp add: d1)
  then have "parseline n b p = Some (Inr (?c, ?q + length f + 2))"
    using parseline_of_pipe [OF parsepipe_of_exec [OF e]] st starts_mono [OF st, of "{41, 59, 38}"] m(1) by simp
  moreover have "resolve (span_text b) ?c = Redir c f out" using c'(2) r(2) by simp
  ultimately show "\<exists>c'. parseline n b p = Some (Inr (c', p + length (show_script (Redir c f out)))) \<and>
    resolve (span_text b) c' = Redir c f out" by (intro exI [of _ ?c]) (simp add: ac_simps)
qed

lemma parses_Pipe:
  assumes "parses b l" "script_ok l" "parses b r" "script_ok r"
  shows "parses b (Pipe l r)"
  unfolding parses_def
proof (intro allI impI)
  fix n p post
  assume d: "drop p b = show_script (Pipe l r) @ post" and st: "starts {41} post"
    and n: "4 * length (show_script (Pipe l r)) + 4 \<le> n"
  obtain m where m: "n = Suc (Suc (Suc m))" "4 * length (show_script l) + 6 \<le> Suc m"
    "4 * length (show_script r) + 6 \<le> m"
    using n by (intro that [of "n - 3"]) (simp_all add: block_def)
  let ?q = "p + length (block (show_script l))" and ?lr = "length (block (show_script r))"
  have d0: "drop p b = block (show_script l) @ 124 # block (show_script r) @ post" using d by simp
  obtain c1 where c1: "parseexec (Suc m) b p = Some (Inr (c1, ?q))"
    "drop ?q b = 124 # block (show_script r) @ post" "resolve (span_text b) c1 = l"
    using parse_block_op [OF assms(1,2) d0 _ m(2)] by (auto simp: starts_def)
  note s = op_step [OF c1(2)]
  obtain c2 where c2: "parseexec m b (?q + 1) = Some (Inr (c2, ?q + 1 + ?lr))"
    "drop (?q + 1 + ?lr) b = post" "resolve (span_text b) c2 = r"
    using parse_block_op [OF assms(3,4) s(3) _ m(3)] starts_mono [OF st, of ops] by auto
  have "parsepipe (Suc m) b (?q + 1) = Some (Inr (c2, ?q + 1 + ?lr))"
    using parsepipe_of_exec [OF c2(1)] c2(2) starts_mono [OF st, of "{41, 59, 38}"] by simp
  then have "parsepipe (Suc (Suc m)) b p = Some (Inr (PIPE c1 c2, ?q + 1 + ?lr))"
    using c1(1) s(1,2) by simp
  then have "parseline n b p = Some (Inr (PIPE c1 c2, ?q + 1 + ?lr))"
    using parseline_of_pipe [of "Suc (Suc m)"] c2(2) st m(1) by simp
  then show "\<exists>c'. parseline n b p = Some (Inr (c', p + length (show_script (Pipe l r)))) \<and>
    resolve (span_text b) c' = Pipe l r"
    using c1(3) c2(3) by (intro exI [of _ "PIPE c1 c2"]) (simp add: ac_simps)
qed

lemma parses_Seq:
  assumes "parses b l" "script_ok l" "parses b r" "script_ok r"
  shows "parses b (Seq l r)"
  unfolding parses_def
proof (intro allI impI)
  fix n p post
  assume d: "drop p b = show_script (Seq l r) @ post" and st: "starts {41} post"
    and n: "4 * length (show_script (Seq l r)) + 4 \<le> n"
  obtain m where m: "n = Suc (Suc (Suc m))" "4 * length (show_script l) + 6 \<le> Suc m"
    "4 * length (show_script r) + 6 \<le> m"
    using n by (intro that [of "n - 3"]) (simp_all add: block_def)
  let ?q = "p + length (block (show_script l))" and ?lr = "length (block (show_script r))"
  have d0: "drop p b = block (show_script l) @ 59 # block (show_script r) @ post" using d by simp
  obtain c1 where c1: "parseexec (Suc m) b p = Some (Inr (c1, ?q))"
    "drop ?q b = 59 # block (show_script r) @ post" "resolve (span_text b) c1 = l"
    using parse_block_op [OF assms(1,2) d0 _ m(2)] by (auto simp: starts_def)
  note s = op_step [OF c1(2)]
  obtain c2 where c2: "parseexec m b (?q + 1) = Some (Inr (c2, ?q + 1 + ?lr))"
    "drop (?q + 1 + ?lr) b = post" "resolve (span_text b) c2 = r"
    using parse_block_op [OF assms(3,4) s(3) _ m(3)] starts_mono [OF st, of ops] by auto
  have r: "parseline (Suc (Suc m)) b (?q + 1) = Some (Inr (c2, ?q + 1 + ?lr))"
    using parseline_of_pipe [OF parsepipe_of_exec [OF c2(1)]] c2(2) st starts_mono [OF st, of "{41, 59, 38}"]
    by simp
  have "parsepipe (Suc (Suc m)) b p = Some (Inr (c1, ?q))"
    using c1(2) by (intro parsepipe_of_exec [OF c1(1)]) (simp add: starts_def)
  moreover have "back_loop b c1 ?q = (c1, ?q)"
    using c1(2) by (intro back_loop_no [of "{59}"]) (simp_all add: starts_def whitespace_def)
  ultimately have "parseline n b p = Some (Inr (LIST c1 c2, ?q + 1 + ?lr))"
    using s r unfolding m(1) parseline.simps by simp
  then show "\<exists>c'. parseline n b p = Some (Inr (c', p + length (show_script (Seq l r)))) \<and>
    resolve (span_text b) c' = Seq l r"
    using c1(3) c2(3) by (intro exI [of _ "LIST c1 c2"]) (simp add: ac_simps)
qed

lemma parses_Back:
  assumes "parses b c" "script_ok c"
  shows "parses b (Back c)"
  unfolding parses_def
proof (intro allI impI)
  fix n p post
  assume d: "drop p b = show_script (Back c) @ post" and st: "starts {41} post"
    and n: "4 * length (show_script (Back c)) + 4 \<le> n"
  obtain m where m: "n = Suc (Suc m)" "4 * length (show_script c) + 6 \<le> m"
    using n by (intro that [of "n - 2"]) (simp_all add: block_def)
  let ?q = "p + length (block (show_script c))"
  have d0: "drop p b = block (show_script c) @ 38 # post" using d by simp
  obtain c1 where c1: "parseexec m b p = Some (Inr (c1, ?q))"
    "drop ?q b = 38 # post" "resolve (span_text b) c1 = c"
    using parse_block_op [OF assms d0 _ m(2)] by (auto simp: starts_def)
  have "nows post" using st by (rule starts_nows) (simp add: whitespace_def)
  note s = op_step [OF c1(2) _ this]
  have e: "parsepipe (Suc m) b p = Some (Inr (c1, ?q))"
    using c1(2) by (intro parsepipe_of_exec [OF c1(1)]) (simp add: starts_def)
  have "back_loop b (BACK c1) (?q + 1) = (BACK c1, ?q + 1)"
    using s(3) st by (intro back_loop_no [of "{41}"]) (simp_all add: whitespace_def)
  then have "back_loop b c1 ?q = (BACK c1, ?q + 1)" using s by (simp add: back_loop.simps [of b c1])
  moreover have "peek b (?q + 1) [59] = (False, ?q + 1)"
    using s(3) st by (intro peek_no [of "{41}"]) (simp_all add: whitespace_def)
  ultimately have "parseline n b p = Some (Inr (BACK c1, ?q + 1))"
    using e unfolding m(1) parseline.simps by simp
  then show "\<exists>c'. parseline n b p = Some (Inr (c', p + length (show_script (Back c)))) \<and>
    resolve (span_text b) c' = Back c"
    using c1(3) by (intro exI [of _ "BACK c1"]) simp
qed

lemma parses_script: "script_ok c \<Longrightarrow> parses b c"
  by (induction c) (simp_all add: parses_Exec parses_Redir parses_Pipe parses_Seq parses_Back del: script_ok.simps(1))

lemma show_script_no_zero: "script_ok c \<Longrightarrow> 0 \<notin> set (show_script c)"
  by (induction c) (auto simp: block_def word_ok_def list_all_iff)



end
