(* ===== verification/ShRun.thy ===== *)
theory ShRun
  imports ShRound
begin

text \<open>
  The execution of commands by the shell: \<^verbatim>\<open>runcmd\<close>, \<^verbatim>\<open>getcmd\<close> and the loop of \<^verbatim>\<open>main\<close> as trees of the
  system calls the processes make, and what such a tree does to the descriptors of the commands it
  starts.
\<close>

section \<open>Programs\<close>

text \<open>Each call has one continuation for every result the code distinguishes; a fork has those of the
  child, the parent and of the failure.\<close>

datatype prog =
    Exit
  | Sys_exec "byte list list" prog
  | Sys_close nat prog
  | Sys_open "byte list" int "nat \<Rightarrow> prog" prog
  | Sys_fork prog prog prog
  | Sys_wait prog
  | Sys_pipe "nat \<Rightarrow> nat \<Rightarrow> prog" prog
  | Sys_dup nat prog
  | Sys_chdir "byte list" prog prog
  | Print nat "byte list" prog

definition sh_panic :: "byte list \<Rightarrow> prog" where
  "sh_panic s = Print 2 (s @ [10]) Exit"

definition fork1 :: "prog \<Rightarrow> prog \<Rightarrow> prog" where
  "fork1 child parent = Sys_fork child parent (sh_panic (bytes_of ''fork''))"

text \<open>\<open>rd\<close> reads the C string of a span.\<close>

primrec runcmd :: "(span \<Rightarrow> byte list) \<Rightarrow> cmd \<Rightarrow> prog" where
  "runcmd rd (EXEC args) =
     (if args = [] then Exit
      else Sys_exec (map rd args) (Print 2 (bytes_of ''exec '' @ rd (hd args) @ bytes_of '' failed'' @ [10]) Exit))"
| "runcmd rd (REDIR c f mode fd) =
     Sys_close (nat fd)
       (Sys_open (rd f) mode (\<lambda>_. runcmd rd c)
          (Print 2 (bytes_of ''open '' @ rd f @ bytes_of '' failed'' @ [10]) Exit))"
| "runcmd rd (LIST l r) = fork1 (runcmd rd l) (Sys_wait (runcmd rd r))"
| "runcmd rd (PIPE l r) =
     Sys_pipe (\<lambda>p0 p1.
       fork1 (Sys_close 1 (Sys_dup p1 (Sys_close p0 (Sys_close p1 (runcmd rd l)))))
      (fork1 (Sys_close 0 (Sys_dup p0 (Sys_close p0 (Sys_close p1 (runcmd rd r)))))
      (Sys_close p0 (Sys_close p1 (Sys_wait (Sys_wait Exit))))))
     (sh_panic (bytes_of ''pipe''))"
| "runcmd rd (BACK c) = fork1 (runcmd rd c) Exit"

text \<open>A line is what \<^verbatim>\<open>gets\<close> leaves in the buffer; an empty one is the end of the input.\<close>

fun sh_lines :: "byte list list \<Rightarrow> prog" where
  "sh_lines [] = Print 2 (bytes_of ''$ '') Exit"
| "sh_lines (buf # lines) =
     Print 2 (bytes_of ''$ '')
       (if buf = [] then Exit
        else if take 3 buf = bytes_of ''cd '' then
          let dir = drop 3 (butlast buf) in
          Sys_chdir dir (sh_lines lines) (Print 2 (bytes_of ''cannot cd '' @ dir @ [10]) (sh_lines lines))
        else
          fork1
            (case parsecmd buf of
               Some (Inr (cmd, b)) \<Rightarrow> runcmd (\<lambda>(q, e). string_at b q) cmd
             | Some (Inl e) \<Rightarrow> sh_panic e
             | None \<Rightarrow> Exit)
            (Sys_wait (sh_lines lines)))"

text \<open>The loop that opens the console until descriptor 3 or a failure; the descriptors are distinct, so
  four rounds are enough.\<close>

primrec open_console :: "nat \<Rightarrow> prog \<Rightarrow> prog" where
  "open_console 0 k = k"
| "open_console (Suc n) k =
     Sys_open (bytes_of ''console'') O_RDWR (\<lambda>fd. if fd \<ge> 3 then Sys_close fd k else open_console n k) k"

definition sh_main :: "byte list list \<Rightarrow> prog" where
  "sh_main lines = open_console 4 (sh_lines lines)"

section \<open>The descriptors of the commands\<close>

datatype fobj = Opened "byte list" int | ReadEnd nat | WriteEnd nat

type_synonym fdtable = "nat \<Rightarrow> fobj option"

text \<open>\<^verbatim>\<open>fdalloc\<close>: the lowest free one of the sixteen descriptors.\<close>

definition lowest :: "fdtable \<Rightarrow> nat option" where
  "lowest t = find (\<lambda>fd. t fd = None) [0..<16]"

text \<open>The commands a program starts, in all its processes, each with its descriptors, when no call fails
  for lack of processes, memory or files.  The number is that of the next pipe.\<close>

primrec launch :: "prog \<Rightarrow> fdtable \<Rightarrow> nat \<Rightarrow> (byte list list \<times> fdtable) list \<times> nat" where
  "launch Exit t n = ([], n)"
| "launch (Sys_exec argv k) t n = ([(argv, t)], n)"
| "launch (Sys_close fd k) t n = launch k (t(fd := None)) n"
| "launch (Sys_open f mode k e) t n =
     (case lowest t of None \<Rightarrow> launch e t n | Some fd \<Rightarrow> launch (k fd) (t(fd := Some (Opened f mode))) n)"
| "launch (Sys_fork c k e) t n =
     (let (xs, n) = launch c t n; (ys, n) = launch k t n in (xs @ ys, n))"
| "launch (Sys_wait k) t n = launch k t n"
| "launch (Sys_pipe k e) t n =
     (case lowest t of None \<Rightarrow> launch e t n
      | Some p0 \<Rightarrow>
          let t0 = t(p0 := Some (ReadEnd n)) in
          case lowest t0 of None \<Rightarrow> launch e t n
          | Some p1 \<Rightarrow> launch (k p0 p1) (t0(p1 := Some (WriteEnd n))) (n + 1))"
| "launch (Sys_dup fd k) t n =
     (case lowest t of None \<Rightarrow> launch k t n | Some fd' \<Rightarrow> launch k (t(fd' := t fd)) n)"
| "launch (Sys_chdir d k e) t n = launch k t n"
| "launch (Print fd s k) t n = launch k t n"

text \<open>Standard input, output and error are open and nothing else is.\<close>

definition std :: "fdtable \<Rightarrow> bool" where
  "std t \<longleftrightarrow> (\<forall>fd. t fd = None \<longleftrightarrow> 3 \<le> fd)"

fun pipeline :: "span list list \<Rightarrow> cmd" where
  "pipeline [] = EXEC []"
| "pipeline [args] = EXEC args"
| "pipeline (args # rest) = PIPE (EXEC args) (pipeline rest)"

text \<open>What a pipeline should do: each stage but the last writes to a pipe the next one reads from.\<close>

fun stages :: "(span \<Rightarrow> byte list) \<Rightarrow> fdtable \<Rightarrow> nat \<Rightarrow> span list list \<Rightarrow> (byte list list \<times> fdtable) list" where
  "stages rd t n [] = []"
| "stages rd t n [args] = [(map rd args, t)]"
| "stages rd t n (args # rest) =
     (map rd args, t(1 := Some (WriteEnd n))) # stages rd (t(0 := Some (ReadEnd n))) (n + 1) rest"

lemma lowest_std: "std t \<Longrightarrow> lowest t = Some 3"
  "std t \<Longrightarrow> lowest (t(3 := Some x)) = Some 4"
  "std t \<Longrightarrow> lowest (t(3 := Some x, 4 := Some y, Suc 0 := None)) = Some 1"
  "std t \<Longrightarrow> lowest (t(3 := Some x, 4 := Some y, 0 := None)) = Some 0"
proof -
  assume s: "std t"
  have e: "[0..<16] = [0, 1, 2, 3, 4] @ [5..<16]" by (simp add: upt_conv_Cons)
  have "t 0 \<noteq> None" "t 1 \<noteq> None" "t 2 \<noteq> None" "t 3 = None" "t 4 = None"
    using s by (simp_all add: std_def)
  then show "lowest t = Some 3" "lowest (t(3 := Some x)) = Some 4"
    "lowest (t(3 := Some x, 4 := Some y, Suc 0 := None)) = Some 1"
    "lowest (t(3 := Some x, 4 := Some y, 0 := None)) = Some 0"
    unfolding lowest_def e by simp_all
qed

lemma std_upd: "std t \<Longrightarrow> std (t(0 := Some x))" "std t \<Longrightarrow> std (t(Suc 0 := Some x))"
  by (auto simp: std_def)

lemma std_free: "std t \<Longrightarrow> t 3 = None \<and> t 4 = None"
  by (simp add: std_def)

lemma launch_PIPE:
  assumes "std t"
  shows "launch (runcmd rd (PIPE l r)) t n =
    (let (xs, m) = launch (runcmd rd l) (t(1 := Some (WriteEnd n))) (n + 1);
         (ys, m) = launch (runcmd rd r) (t(0 := Some (ReadEnd n))) m in (xs @ ys, m))"
proof -
  have "t(3 := Some (ReadEnd n), 4 := Some (WriteEnd n), Suc 0 := Some (WriteEnd n), 3 := None, 4 := None)
      = t(Suc 0 := Some (WriteEnd n))"
    "t(3 := Some (ReadEnd n), 4 := Some (WriteEnd n), 0 := Some (ReadEnd n), 3 := None, 4 := None)
      = t(0 := Some (ReadEnd n))"
    using std_free [OF assms] by (auto simp: fun_eq_iff)
  then show ?thesis
    using lowest_std [OF assms] by (simp add: fork1_def Let_def split: prod.split)
qed



end
