(* ===== verification/Bio.thy ===== *)
theory Bio
  imports Ide
begin

text \<open>
  The buffer cache of \<^verbatim>\<open>bio.c\<close>.  \<open>bufs\<close> is the array \<^verbatim>\<open>bcache.buf\<close>; \<open>lru\<close> is the doubly linked list
  through \<^verbatim>\<open>bcache.head\<close>, most recently used first, as the list of indices it runs through:
  \<^verbatim>\<open>head.next\<close> is its first element and walking \<^verbatim>\<open>prev\<close> from the head visits it from the back.

  The cache is specified by three functions of its state: \<open>view\<close>, the contents of every block as a
  reader sees them (the cached copy if there is a valid one, the disk otherwise), \<open>held\<close>, the blocks
  whose buffers are in use, and \<open>pinned\<close>, the blocks whose cached copy is dirty.  \<open>bread\<close> returns a
  locked buffer with the view of its block and changes no view; \<open>brelse\<close> gives it back; a change to a
  held buffer's data changes exactly the view of its block.
\<close>

record bcache_state = disk_state +
  lru :: "nat list"

section \<open>Operations\<close>

definition binit :: "('a bcache_state_scheme, unit) kernel" where
  "binit = kseq (kmodify (\<lambda>s. s\<lparr>lru := []\<rparr>))
     (kfor [0..<NBUF] (\<lambda>b. kmodify (\<lambda>s. set_buf_lock b initsleeplock (s\<lparr>lru := b # lru s\<rparr>))))"

definition bget :: "nat \<Rightarrow> nat \<Rightarrow> ('a bcache_state_scheme, nat) kernel" where
  "bget dev blockno = kbind (kget id) (\<lambda>s.
     case List.find (\<lambda>i. b_dev (bufs s i) = dev \<and> b_blockno (bufs s i) = blockno) (lru s) of
       Some i \<Rightarrow>
         kseq (kmodify (upd_buf i (\<lambda>b. b\<lparr>b_refcnt := b_refcnt b + 1\<rparr>)))
         (kseq (acquiresleep (buf_lock i) (set_buf_lock i) (Chan_sleeplock_buf i))
               (kreturn i))
     | None \<Rightarrow>
        (case List.find (\<lambda>i. b_refcnt (bufs s i) = 0 \<and> \<not> b_dirty (bufs s i)) (rev (lru s)) of
           Some i \<Rightarrow>
             kseq (kmodify (upd_buf i (\<lambda>b. b\<lparr>b_dev := dev, b_blockno := blockno,
                                            b_valid := False, b_dirty := False, b_refcnt := 1\<rparr>)))
             (kseq (acquiresleep (buf_lock i) (set_buf_lock i) (Chan_sleeplock_buf i))
                   (kreturn i))
         | None \<Rightarrow> kpanic ''bget: no buffers''))"

definition bread :: "nat \<Rightarrow> nat \<Rightarrow> ('a bcache_state_scheme, nat) kernel" where
  "bread dev blockno = kbind (bget dev blockno) (\<lambda>i.
     kbind (kget (\<lambda>s. b_valid (bufs s i))) (\<lambda>v.
       kseq (kwhen (\<not> v) (iderw i)) (kreturn i)))"

definition bwrite :: "nat \<Rightarrow> ('a bcache_state_scheme, unit) kernel" where
  "bwrite i = kbind (holdingsleep (buf_lock i)) (\<lambda>h.
     if \<not> h then kpanic ''bwrite''
     else kseq (kmodify (upd_buf i (\<lambda>b. b\<lparr>b_dirty := True\<rparr>))) (iderw i))"

definition brelse :: "nat \<Rightarrow> ('a bcache_state_scheme, unit) kernel" where
  "brelse i = kbind (holdingsleep (buf_lock i)) (\<lambda>h.
     if \<not> h then kpanic ''brelse''
     else kseq (releasesleep (set_buf_lock i) (Chan_sleeplock_buf i))
         (kseq (kmodify (upd_buf i (\<lambda>b. b\<lparr>b_refcnt := b_refcnt b - 1\<rparr>)))
               (kmodify (\<lambda>s. if b_refcnt (bufs s i) = 0
                             then s\<lparr>lru := i # remove1 i (lru s)\<rparr> else s))))"

text \<open>Reading and writing \<^verbatim>\<open>bp->data\<close>.\<close>

definition buf_data :: "nat \<Rightarrow> ('a bcache_state_scheme, byte list) kernel" where
  "buf_data i = kget (\<lambda>s. b_data (bufs s i))"

definition set_buf_data :: "nat \<Rightarrow> byte list \<Rightarrow> ('a bcache_state_scheme, unit) kernel" where
  "set_buf_data i d = kmodify (upd_buf i (\<lambda>b. b\<lparr>b_data := d\<rparr>))"

section \<open>Abstraction and invariant\<close>

definition ROOTDEV :: nat where
  "ROOTDEV = 1"

definition cached :: "'a bcache_state_scheme \<Rightarrow> nat \<Rightarrow> nat option" where
  "cached s b = List.find (\<lambda>i. b_dev (bufs s i) = ROOTDEV \<and> b_blockno (bufs s i) = b) [0..<NBUF]"

definition view :: "'a bcache_state_scheme \<Rightarrow> nat \<Rightarrow> byte list" where
  "view s b = (case cached s b of
       Some i \<Rightarrow> if b_valid (bufs s i) then b_data (bufs s i) else disk s (drive ROOTDEV) b
     | None \<Rightarrow> disk s (drive ROOTDEV) b)"

definition held :: "'a bcache_state_scheme \<Rightarrow> nat set" where
  "held s = (\<lambda>i. b_blockno (bufs s i)) ` {i. i < NBUF \<and> b_refcnt (bufs s i) > 0}"

definition pinned :: "'a bcache_state_scheme \<Rightarrow> nat set" where
  "pinned s = (\<lambda>i. b_blockno (bufs s i)) ` {i. i < NBUF \<and> b_dirty (bufs s i)}"

text \<open>Per buffer: a buffer in use or dirty caches a block of the root disk; a dirty buffer is valid;
  a locked one is referenced; an idle clean valid buffer holds what the disk holds.\<close>

definition buf_ok :: "'a bcache_state_scheme \<Rightarrow> nat \<Rightarrow> bool" where
  "buf_ok s i \<longleftrightarrow>
     (b_refcnt (bufs s i) > 0 \<or> b_dirty (bufs s i) \<or> b_valid (bufs s i) \<longrightarrow> b_dev (bufs s i) = ROOTDEV) \<and>
     (b_dirty (bufs s i) \<longrightarrow> b_valid (bufs s i)) \<and>
     (sl_locked (b_lock (bufs s i)) \<longrightarrow> b_refcnt (bufs s i) > 0) \<and>
     (b_valid (bufs s i) \<longrightarrow> length (b_data (bufs s i)) = BSIZE) \<and>
     (b_valid (bufs s i) \<and> \<not> b_dirty (bufs s i) \<and> b_refcnt (bufs s i) = 0 \<longrightarrow>
        b_data (bufs s i) = disk s (drive ROOTDEV) (b_blockno (bufs s i)))"

definition bio_inv :: "'a bcache_state_scheme \<Rightarrow> bool" where
  "bio_inv s \<longleftrightarrow>
     distinct (lru s) \<and> set (lru s) = {..<NBUF} \<and>
     (\<forall>i < NBUF. \<forall>j < NBUF. i \<noteq> j \<longrightarrow> b_dev (bufs s i) = ROOTDEV \<longrightarrow> b_dev (bufs s j) = ROOTDEV \<longrightarrow>
        b_blockno (bufs s i) \<noteq> b_blockno (bufs s j)) \<and>
     (\<forall>i < NBUF. buf_ok s i) \<and>
     (\<forall>b. length (disk s (drive ROOTDEV) b) = BSIZE) \<and>
     idequeue s = [] \<and> havedisk1 s"

text \<open>What no operation on buffers other than \<open>bwrite\<close> changes.\<close>

definition bio_frame :: "'a bcache_state_scheme \<Rightarrow> 'a bcache_state_scheme \<Rightarrow> bool" where
  "bio_frame s t \<longleftrightarrow> proc_frame s t \<and> disk t = disk s \<and> disk_writes t = disk_writes s \<and>
     idequeue t = idequeue s \<and> havedisk1 t = havedisk1 s"

text \<open>The current process holds buffer \<open>i\<close> for block \<open>b\<close>.\<close>

definition holds :: "nat \<Rightarrow> nat \<Rightarrow> 'a bcache_state_scheme \<Rightarrow> bool" where
  "holds i b s \<longleftrightarrow> i < NBUF \<and> b_dev (bufs s i) = ROOTDEV \<and> b_blockno (bufs s i) = b \<and>
     b_valid (bufs s i) \<and> b_refcnt (bufs s i) = 1 \<and>
     sl_locked (b_lock (bufs s i)) \<and> sl_pid (b_lock (bufs s i)) = p_pid (myproc s)"

text \<open>The buffer may be released: its data is on disk, or it is pinned.\<close>

definition settled :: "nat \<Rightarrow> 'a bcache_state_scheme \<Rightarrow> bool" where
  "settled i s \<longleftrightarrow> b_dirty (bufs s i) \<or>
     b_data (bufs s i) = disk s (drive ROOTDEV) (b_blockno (bufs s i))"

lemma bio_frame_refl [simp, intro]: "bio_frame s s"
  by (simp add: bio_frame_def)

lemma bio_frame_trans [trans]: "bio_frame s t \<Longrightarrow> bio_frame t u \<Longrightarrow> bio_frame s u"
  by (auto simp: bio_frame_def intro: proc_frame_trans)

lemma cached_Some:
  assumes "bio_inv s" and "i < NBUF" and "b_dev (bufs s i) = ROOTDEV" and "b_blockno (bufs s i) = b"
  shows "cached s b = Some i"
  unfolding cached_def
  by (rule find_unique) (use assms in \<open>auto simp: bio_inv_def\<close>)

lemma cached_None:
  "cached s b = None \<longleftrightarrow> (\<forall>i < NBUF. b_dev (bufs s i) = ROOTDEV \<longrightarrow> b_blockno (bufs s i) \<noteq> b)"
  by (auto simp: cached_def find_None_iff')

lemma cached_SomeD:
  "cached s b = Some i \<Longrightarrow> i < NBUF \<and> b_dev (bufs s i) = ROOTDEV \<and> b_blockno (bufs s i) = b"
  by (auto simp: cached_def dest: find_Some_iff')

lemma view_cached:
  assumes "bio_inv s" and "i < NBUF" and "b_dev (bufs s i) = ROOTDEV" and "b_blockno (bufs s i) = b"
    and "b_valid (bufs s i)"
  shows "view s b = b_data (bufs s i)"
  using assms by (simp add: view_def cached_Some)

lemma view_holds: "bio_inv s \<Longrightarrow> holds i b s \<Longrightarrow> view s b = b_data (bufs s i)"
  by (auto simp: holds_def intro: view_cached)

lemma view_length [simp]: "bio_inv s \<Longrightarrow> length (view s b) = BSIZE"
  by (auto simp: view_def bio_inv_def buf_ok_def split: option.split dest!: cached_SomeD)

lemma lru_find:
  assumes "bio_inv s"
  shows "List.find (\<lambda>i. b_dev (bufs s i) = ROOTDEV \<and> b_blockno (bufs s i) = b) (lru s) = cached s b"
proof (cases "cached s b")
  case None
  then have "\<forall>x \<in> set (lru s). \<not> (b_dev (bufs s x) = ROOTDEV \<and> b_blockno (bufs s x) = b)"
    using assms by (auto simp: cached_None bio_inv_def)
  with None show ?thesis by (simp add: find_None_iff')
next
  case (Some i)
  have "List.find (\<lambda>i. b_dev (bufs s i) = ROOTDEV \<and> b_blockno (bufs s i) = b) (lru s) = Some i"
    by (rule find_unique) (use assms cached_SomeD [OF Some] in \<open>auto simp: bio_inv_def\<close>)
  with Some show ?thesis by simp
qed

section \<open>bread\<close>

definition held_buf :: "nat \<Rightarrow> nat \<Rightarrow> 'a bcache_state_scheme \<Rightarrow> buf" where
  "held_buf i b s = \<lparr>b_valid = True, b_dirty = b_dirty (bufs s i), b_dev = ROOTDEV, b_blockno = b,
     b_lock = \<lparr>sl_locked = True, sl_pid = p_pid (myproc s)\<rparr>, b_refcnt = 1, b_data = view s b\<rparr>"

text \<open>The buffer \<open>bget\<close> finds or recycles.\<close>

definition bget_picks :: "nat \<Rightarrow> nat \<Rightarrow> 'a bcache_state_scheme \<Rightarrow> bool" where
  "bget_picks i b s \<longleftrightarrow> i < NBUF \<and> b_refcnt (bufs s i) = 0 \<and>
     (cached s b = Some i \<or> cached s b = None \<and> \<not> b_dirty (bufs s i))"

lemma card_busy:
  assumes "bio_inv s"
  shows "card {i. i < NBUF \<and> (b_refcnt (bufs s i) > 0 \<or> b_dirty (bufs s i))} \<le> card (held s \<union> pinned s)"
proof (rule card_inj_on_le [where f = "\<lambda>i. b_blockno (bufs s i)"])
  show "inj_on (\<lambda>i. b_blockno (bufs s i)) {i. i < NBUF \<and> (b_refcnt (bufs s i) > 0 \<or> b_dirty (bufs s i))}"
    using assms by (auto simp: inj_on_def bio_inv_def buf_ok_def)
  have "held s \<union> pinned s \<subseteq> (\<lambda>i. b_blockno (bufs s i)) ` {..<NBUF}"
    by (auto simp: held_def pinned_def)
  then show "finite (held s \<union> pinned s)" by (rule finite_subset) simp
qed (auto simp: held_def pinned_def)

lemma recyclable_ex:
  assumes "bio_inv s" and "card (held s \<union> pinned s) < NBUF"
  shows "\<exists>i. List.find (\<lambda>i. b_refcnt (bufs s i) = 0 \<and> \<not> b_dirty (bufs s i)) (rev (lru s)) = Some i"
proof -
  have "card {i. i < NBUF \<and> (b_refcnt (bufs s i) > 0 \<or> b_dirty (bufs s i))} < NBUF"
    using card_busy [OF assms(1)] assms(2) by simp
  then obtain i where "i < NBUF" "b_refcnt (bufs s i) = 0" "\<not> b_dirty (bufs s i)"
    by (auto dest!: card_less_ex)
  moreover have "set (rev (lru s)) = {..<NBUF}" using assms(1) by (simp add: bio_inv_def)
  ultimately have "List.find (\<lambda>i. b_refcnt (bufs s i) = 0 \<and> \<not> b_dirty (bufs s i)) (rev (lru s)) \<noteq> None"
    by (auto simp: find_None_iff')
  then show ?thesis by blast
qed

lemma held_refcnt:
  assumes "b \<notin> held s" and "i < NBUF" and "b_blockno (bufs s i) = b"
  shows "b_refcnt (bufs s i) = 0"
  using assms by (auto simp: held_def)

text \<open>A read of block \<open>b\<close> finds a buffer: the block is pinned in one, or one can be recycled.\<close>

definition bread_room :: "nat \<Rightarrow> 'a bcache_state_scheme \<Rightarrow> bool" where
  "bread_room b s \<longleftrightarrow> b \<in> pinned s \<or> card (held s \<union> pinned s) < NBUF"

lemma not_cached_not_pinned:
  assumes "bio_inv s" and "cached s b = None"
  shows "b \<notin> pinned s"
  using assms by (auto simp: pinned_def cached_None bio_inv_def buf_ok_def)

lemma holds_dirty:
  assumes "bio_inv s" and "holds i b s"
  shows "b_dirty (bufs s i) \<longleftrightarrow> b \<in> pinned s"
proof
  assume "b \<in> pinned s"
  then obtain j where j: "j < NBUF" "b_dirty (bufs s j)" "b_blockno (bufs s j) = b"
    by (auto simp: pinned_def)
  then have "j = i"
    using assms by (auto simp: bio_inv_def buf_ok_def holds_def)
  with j show "b_dirty (bufs s i)" by simp
qed (use assms in \<open>auto simp: pinned_def holds_def\<close>)

lemma view_unpinned:
  assumes "bio_inv s" and "b \<notin> held s" and "b \<notin> pinned s"
  shows "view s b = disk s (drive ROOTDEV) b"
  using assms
  by (auto simp: view_def held_def pinned_def bio_inv_def buf_ok_def split: option.split
      dest!: cached_SomeD)

lemma bget_ok:
  assumes inv: "bio_inv s" and b: "b \<notin> held s" and room: "bread_room b s"
  shows "\<exists>i. bget_picks i b s \<and>
    bget ROOTDEV b s = Done i (upd_buf i (\<lambda>_. (held_buf i b s)
      \<lparr>b_valid := cached s b = Some i \<and> b_valid (bufs s i), b_data := b_data (bufs s i)\<rparr>) s)"
proof (cases "cached s b")
  case (Some i)
  then have i: "i < NBUF" "b_dev (bufs s i) = ROOTDEV" "b_blockno (bufs s i) = b"
    by (auto dest: cached_SomeD)
  then have r0: "b_refcnt (bufs s i) = 0" using b held_refcnt by blast
  then have "\<not> sl_locked (b_lock (bufs s i))" using inv i by (auto simp: bio_inv_def buf_ok_def)
  then have "bget ROOTDEV b s = Done i (upd_buf i (\<lambda>_. (held_buf i b s)
      \<lparr>b_valid := b_valid (bufs s i), b_data := b_data (bufs s i)\<rparr>) s)"
    using Some i r0
    by (simp add: bget_def lru_find [OF inv] acquiresleep_def buf_lock_def set_buf_lock_def
        kernel_defs)
      (rule upd_buf_cong, cases "bufs s i", simp add: held_buf_def)
  with Some i r0 show ?thesis by (auto simp: bget_picks_def)
next
  case None
  obtain i where i: "List.find (\<lambda>i. b_refcnt (bufs s i) = 0 \<and> \<not> b_dirty (bufs s i)) (rev (lru s)) = Some i"
    using recyclable_ex [OF inv] room None not_cached_not_pinned [OF inv] by (auto simp: bread_room_def)
  then have "i \<in> set (lru s)" and i2: "b_refcnt (bufs s i) = 0" "\<not> b_dirty (bufs s i)"
    by (auto dest: find_Some_iff')
  then have i1: "i < NBUF" using inv by (auto simp: bio_inv_def)
  then have "\<not> sl_locked (b_lock (bufs s i))" using inv i2 by (auto simp: bio_inv_def buf_ok_def)
  then have "bget ROOTDEV b s = Done i (upd_buf i (\<lambda>_. (held_buf i b s)
      \<lparr>b_valid := False, b_data := b_data (bufs s i)\<rparr>) s)"
    using None i i2
    by (simp add: bget_def lru_find [OF inv] acquiresleep_def buf_lock_def set_buf_lock_def
        kernel_defs)
      (rule upd_buf_cong, cases "bufs s i", simp add: held_buf_def)
  with None i1 i2 show ?thesis by (auto simp: bget_picks_def)
qed

lemma bread_ok:
  assumes inv: "bio_inv s" and b: "b \<notin> held s" "b < FSSIZE" and room: "bread_room b s"
  shows "\<exists>i t. bread ROOTDEV b s = Done i t \<and> bget_picks i b s \<and>
    bufs t = (bufs s)(i := held_buf i b s) \<and> lru t = lru s \<and> bio_frame s t \<and>
    bcache_state.more t = bcache_state.more s"
proof -
  from bget_ok [OF inv b(1) room] obtain i where i: "bget_picks i b s" and
    get: "bget ROOTDEV b s = Done i (upd_buf i (\<lambda>_. (held_buf i b s)
      \<lparr>b_valid := cached s b = Some i \<and> b_valid (bufs s i), b_data := b_data (bufs s i)\<rparr>) s)"
      (is "_ = Done i ?u") by blast
  show ?thesis
  proof (cases "cached s b = Some i \<and> b_valid (bufs s i)")
    case True
    then have "view s b = b_data (bufs s i)" by (simp add: view_def)
    then have "bufs ?u = (bufs s)(i := held_buf i b s)" using True by (simp add: held_buf_def)
    moreover have "bread ROOTDEV b s = Done i ?u"
      using True by (simp add: bread_def get kernel_defs)
    moreover have "bio_frame s ?u" by (simp add: bio_frame_def)
    ultimately show ?thesis using i by (auto simp: upd_buf_def)
  next
    case False
    then have clean: "\<not> b_dirty (bufs s i)"
      using i inv by (auto simp: bget_picks_def bio_inv_def buf_ok_def)
    have v: "view s b = disk s (drive ROOTDEV) b"
      using False i by (auto simp: view_def bget_picks_def)
    have ready: "ide_ready i ?u"
      using False inv clean b(2) by (simp add: ide_ready_def held_buf_def ide_done_def bio_inv_def)
    let ?t = "wake_all (Chan_ide i) (ide_transfer i ?u)"
    have "bread ROOTDEV b s = Done i ?t"
      using False iderw_ready [OF ready] by (auto simp: bread_def get kernel_defs)
    moreover have "bufs ?t = (bufs s)(i := held_buf i b s)"
      using clean v by (simp add: ide_transfer_def held_buf_def Let_def)
    moreover have "bio_frame s ?t"
      using clean by (auto simp: bio_frame_def ide_transfer_def held_buf_def Let_def)
    moreover have "lru ?t = lru s" "bcache_state.more ?t = bcache_state.more s"
      using clean by (simp_all add: ide_transfer_def held_buf_def Let_def upd_buf_def wake_all_def)
    ultimately show ?thesis using i by blast
  qed
qed

lemma view_disk:
  "(\<And>i. i < NBUF \<Longrightarrow> b_dev (bufs s i) = ROOTDEV \<Longrightarrow> b_valid (bufs s i) \<Longrightarrow> b_blockno (bufs s i) \<noteq> c) \<Longrightarrow>
   view s c = disk s (drive ROOTDEV) c"
  by (auto simp: view_def split: option.split dest!: cached_SomeD)

text \<open>The state after \<open>bread\<close>, in terms of the abstraction.\<close>

lemma picked_inv:
  assumes inv: "bio_inv s" and p: "bget_picks i b s"
    and t: "bufs t = (bufs s)(i := held_buf i b s)" "lru t = lru s" "bio_frame s t"
  shows "bio_inv t"
proof -
  have i: "i < NBUF" using p by (simp add: bget_picks_def)
  have other: "b_blockno (bufs s j) \<noteq> b" if "j < NBUF" "j \<noteq> i" "b_dev (bufs s j) = ROOTDEV" for j
    using that p cached_Some [OF inv, of j b] by (auto simp: bget_picks_def)
  have "\<forall>j < NBUF. \<forall>k < NBUF. j \<noteq> k \<longrightarrow> b_dev (bufs t j) = ROOTDEV \<longrightarrow> b_dev (bufs t k) = ROOTDEV \<longrightarrow>
      b_blockno (bufs t j) \<noteq> b_blockno (bufs t k)"
    using inv other by (auto simp: t held_buf_def bio_inv_def)
  moreover have "\<forall>j < NBUF. buf_ok t j"
    using inv t by (auto simp: bio_frame_def held_buf_def bio_inv_def buf_ok_def)
  ultimately show ?thesis
    using inv t unfolding bio_inv_def bio_frame_def by simp
qed

lemma picked_view:
  assumes inv: "bio_inv s" and p: "bget_picks i b s"
    and t: "bufs t = (bufs s)(i := held_buf i b s)" "lru t = lru s" "bio_frame s t"
  shows "view t = view s"
proof
  fix c
  have inv': "bio_inv t" using picked_inv [OF assms] .
  have i: "i < NBUF" using p by (simp add: bget_picks_def)
  have disk: "disk t = disk s" using t by (simp add: bio_frame_def)
  show "view t c = view s c"
  proof (cases "c = b")
    case True
    then show ?thesis using view_cached [OF inv' i] by (simp add: t held_buf_def)
  next
    case False
    show ?thesis
    proof (cases "\<exists>j < NBUF. j \<noteq> i \<and> b_dev (bufs s j) = ROOTDEV \<and> b_blockno (bufs s j) = c \<and> b_valid (bufs s j)")
      case True
      then show ?thesis using view_cached [OF inv'] view_cached [OF inv] by (auto simp: t)
    next
      case none: False
      have "view t c = disk s (drive ROOTDEV) c"
        unfolding disk [symmetric] by (rule view_disk) (use False none in \<open>auto simp: t held_buf_def\<close>)
      moreover have "view s c = disk s (drive ROOTDEV) c"
      proof (cases "b_dev (bufs s i) = ROOTDEV \<and> b_valid (bufs s i) \<and> b_blockno (bufs s i) = c")
        case True
        then have "\<not> b_dirty (bufs s i)" "b_refcnt (bufs s i) = 0"
          using p False by (auto simp: bget_picks_def dest: cached_SomeD)
        then have "b_data (bufs s i) = disk s (drive ROOTDEV) c"
          using inv i True by (auto simp: bio_inv_def buf_ok_def)
        with True show ?thesis using view_cached [OF inv i] by auto
      next
        case False
        then show ?thesis using none by (intro view_disk) blast
      qed
      ultimately show ?thesis by simp
    qed
  qed
qed

lemma picked_held:
  assumes "bget_picks i b s" and "bufs t = (bufs s)(i := held_buf i b s)"
  shows "held t = insert b (held s)"
proof -
  have "{j. j < NBUF \<and> b_refcnt (bufs t j) > 0} = insert i {j. j < NBUF \<and> b_refcnt (bufs s j) > 0}"
    using assms by (auto simp: held_buf_def bget_picks_def)
  moreover have "(\<lambda>j. b_blockno (bufs t j)) ` {j. j < NBUF \<and> b_refcnt (bufs s j) > 0} = held s"
    unfolding held_def using assms by (intro image_cong) (auto simp: bget_picks_def)
  ultimately show ?thesis using assms(2) by (simp add: held_def held_buf_def)
qed

lemma picked_pinned:
  assumes "bget_picks i b s" and "bufs t = (bufs s)(i := held_buf i b s)"
  shows "pinned t = pinned s"
  unfolding pinned_def using assms
  by (intro image_cong) (auto simp: held_buf_def bget_picks_def dest: cached_SomeD)

text \<open>The contract of \<open>bread\<close>.\<close>

definition bread_post :: "nat \<Rightarrow> 'a bcache_state_scheme \<Rightarrow> nat \<Rightarrow> 'a bcache_state_scheme \<Rightarrow> bool" where
  "bread_post b s i t \<longleftrightarrow> bio_inv t \<and> holds i b t \<and> settled i t \<and> b_data (bufs t i) = view s b \<and>
     view t = view s \<and> held t = insert b (held s) \<and> pinned t = pinned s \<and> bio_frame s t \<and>
     (\<forall>j < NBUF. b_refcnt (bufs s j) > 0 \<longrightarrow> j \<noteq> i \<and> bufs t j = bufs s j) \<and>
     bcache_state.more t = bcache_state.more s"

lemma bread_wp:
  assumes inv: "bio_inv s" and b: "b \<notin> held s" "b < FSSIZE" and room: "bread_room b s"
  shows "wp (bread ROOTDEV b) (bread_post b s) s"
proof -
  from bread_ok [OF assms] obtain i t where
    d: "bread ROOTDEV b s = Done i t" and p: "bget_picks i b s" and
    t: "bufs t = (bufs s)(i := held_buf i b s)" "lru t = lru s" "bio_frame s t" and
    m: "bcache_state.more t = bcache_state.more s" by blast
  have inv': "bio_inv t" by (rule picked_inv [OF inv p t])
  have pid: "p_pid (myproc t) = p_pid (myproc s)"
    using t(3) by (auto simp: bio_frame_def intro: proc_frame_pid)
  have "holds i b t" using p pid by (simp add: holds_def t held_buf_def bget_picks_def)
  moreover have "settled i t"
  proof (cases "cached s b = Some i \<and> b_valid (bufs s i)")
    case True
    then have "b_blockno (bufs s i) = b" by (auto dest: cached_SomeD)
    with True p inv t(3) show ?thesis
      by (auto simp: settled_def t held_buf_def view_def bio_frame_def bget_picks_def bio_inv_def buf_ok_def)
  next
    case False
    with p t(3) show ?thesis
      by (auto simp: settled_def t held_buf_def view_def bio_frame_def bget_picks_def)
  qed
  moreover have "\<forall>j < NBUF. b_refcnt (bufs s j) > 0 \<longrightarrow> j \<noteq> i \<and> bufs t j = bufs s j"
    using p by (auto simp: t bget_picks_def)
  ultimately have "bread_post b s i t"
    using inv' picked_view [OF inv p t] picked_held [OF p t(1)] picked_pinned [OF p t(1)] t(3) m
    by (simp add: bread_post_def t(1)) (simp add: held_buf_def)
  with d show ?thesis by (rule wpI)
qed

section \<open>Changing, writing and releasing a held buffer\<close>

text \<open>An update of one held buffer that keeps its identity: what it does to the abstraction.\<close>

lemma upd_held_view:
  assumes inv: "bio_inv s" and inv': "bio_inv t" and h: "holds i b s"
    and t: "bufs t = (bufs s)(i := B)" "b_dev B = ROOTDEV" "b_blockno B = b" "b_valid B"
    and d: "\<And>c. c \<noteq> b \<Longrightarrow> disk t (drive ROOTDEV) c = disk s (drive ROOTDEV) c"
  shows "view t = (view s)(b := b_data B)"
proof
  fix c
  have i: "i < NBUF" using h by (simp add: holds_def)
  show "view t c = ((view s)(b := b_data B)) c"
  proof (cases "c = b")
    case True
    then show ?thesis using view_cached [OF inv' i] by (simp add: t)
  next
    case False
    have "cached t c = cached s c"
      unfolding cached_def using t h False by (intro find_cong') (auto simp: holds_def)
    moreover have "j \<noteq> i" if "cached s c = Some j" for j
      using that False h by (auto simp: holds_def dest!: cached_SomeD)
    ultimately show ?thesis using False d t by (auto simp: view_def split: option.split)
  qed
qed

lemma upd_held_sets:
  assumes "holds i b s" and "bio_inv s" and "bufs t = (bufs s)(i := B)" and "b_blockno B = b"
  shows "b_refcnt B > 0 \<Longrightarrow> held t = held s" "b_refcnt B = 0 \<Longrightarrow> held t = held s - {b}"
    "b_dirty B \<Longrightarrow> pinned t = insert b (pinned s)" "\<not> b_dirty B \<Longrightarrow> pinned t = pinned s - {b}"
proof -
  note simps = assms(3,4) holds_def
  have other: "b_blockno (bufs s j) \<noteq> b"
    if "j < NBUF" "j \<noteq> i" "b_refcnt (bufs s j) > 0 \<or> b_dirty (bufs s j)" for j
    using that assms(1,2) by (auto simp: holds_def bio_inv_def buf_ok_def)
  have i: "i < NBUF" "b_blockno (bufs s i) = b" "b_refcnt (bufs s i) > 0"
    using assms(1) by (auto simp: holds_def)
  show "b_refcnt B > 0 \<Longrightarrow> held t = held s"
    unfolding held_def using i assms(3,4) by (intro image_cong) auto
  show "b_refcnt B = 0 \<Longrightarrow> held t = held s - {b}"
    using i other assms(3,4) by (auto simp: held_def split: if_splits)
  show "pinned t = insert b (pinned s)" if "b_dirty B"
  proof -
    have "{j. j < NBUF \<and> b_dirty (bufs t j)} = insert i {j. j < NBUF \<and> b_dirty (bufs s j)}"
      using that i assms(3) by auto
    moreover have "(\<lambda>j. b_blockno (bufs t j)) ` {j. j < NBUF \<and> b_dirty (bufs s j)} = pinned s"
      unfolding pinned_def using i assms(3,4) by (intro image_cong) auto
    ultimately show ?thesis using assms(3,4) by (simp add: pinned_def)
  qed
  show "\<not> b_dirty B \<Longrightarrow> pinned t = pinned s - {b}"
    using i other assms(3,4) by (auto simp: pinned_def image_iff split: if_splits)
qed

text \<open>Only the held buffer \<open>i\<close> differs between the two states.\<close>

definition only_buf :: "nat \<Rightarrow> 'a bcache_state_scheme \<Rightarrow> 'a bcache_state_scheme \<Rightarrow> bool" where
  "only_buf i s t \<longleftrightarrow> (\<forall>j. j \<noteq> i \<longrightarrow> bufs t j = bufs s j) \<and> bcache_state.more t = bcache_state.more s"

definition set_data_post ::
  "nat \<Rightarrow> nat \<Rightarrow> byte list \<Rightarrow> 'a bcache_state_scheme \<Rightarrow> 'a bcache_state_scheme \<Rightarrow> bool" where
  "set_data_post i b d s t \<longleftrightarrow> bio_inv t \<and> holds i b t \<and> b_data (bufs t i) = d \<and>
     b_dirty (bufs t i) = b_dirty (bufs s i) \<and>
     view t = (view s)(b := d) \<and> held t = held s \<and> pinned t = pinned s \<and> bio_frame s t \<and> only_buf i s t"

lemma set_buf_data_wp:
  assumes inv: "bio_inv s" and h: "holds i b s" and d: "length d = BSIZE"
  shows "wp (set_buf_data i d) (\<lambda>_. set_data_post i b d s) s"
proof -
  let ?t = "upd_buf i (\<lambda>b. b\<lparr>b_data := d\<rparr>) s"
  have inv': "bio_inv ?t"
    using inv h d by (auto simp: bio_inv_def buf_ok_def holds_def upd_buf_def)
  have b: "bufs ?t = (bufs s)(i := (bufs s i)\<lparr>b_data := d\<rparr>)" by simp
  have "view ?t = (view s)(b := d)"
    using upd_held_view [OF inv inv' h b] h by (simp add: holds_def)
  moreover have "held ?t = held s"
    using upd_held_sets(1) [OF h inv b] h by (simp add: holds_def)
  moreover have "pinned ?t = pinned s"
    using h unfolding pinned_def by (intro image_cong) (auto simp: holds_def)
  ultimately show ?thesis
    using inv' h by (simp add: set_buf_data_def set_data_post_def bio_frame_def only_buf_def holds_def)
      (simp add: upd_buf_def)
qed

definition brelse_post ::
  "nat \<Rightarrow> nat \<Rightarrow> 'a bcache_state_scheme \<Rightarrow> 'a bcache_state_scheme \<Rightarrow> bool" where
  "brelse_post i b s t \<longleftrightarrow> bio_inv t \<and> view t = view s \<and> held t = held s - {b} \<and> pinned t = pinned s \<and>
     bio_frame s t \<and> only_buf i s t"

lemma brelse_wp:
  assumes inv: "bio_inv s" and h: "holds i b s" and st: "settled i s"
  shows "wp (brelse i) (\<lambda>_. brelse_post i b s) s"
proof -
  let ?B = "(bufs s i)\<lparr>b_lock := \<lparr>sl_locked = False, sl_pid = 0\<rparr>, b_refcnt := 0\<rparr>"
  let ?t = "(wake_all (Chan_sleeplock_buf i) (upd_buf i (\<lambda>_. ?B) s))\<lparr>lru := i # remove1 i (lru s)\<rparr>"
  have i: "i < NBUF" "i \<in> set (lru s)" using inv h by (auto simp: bio_inv_def holds_def)
  have d: "brelse i s = Done () ?t"
    using h by (simp add: brelse_def holds_def holdingsleep_def buf_lock_def releasesleep_def
        set_buf_lock_def kernel_defs wakeup_Done)
      (simp add: upd_buf_def wake_all_def)
  have frame: "bio_frame s ?t"
    by (simp add: bio_frame_def proc_frame_def wake_all_def wake_table_def wakeup1_proc_def upd_buf_def)
  have b: "bufs ?t = (bufs s)(i := ?B)" by simp
  have "set (i # remove1 i (lru s)) = {..<NBUF}" "distinct (i # remove1 i (lru s))"
    using inv i by (auto simp: bio_inv_def)
  moreover have "buf_ok ?t j" if "j < NBUF" for j
  proof (cases "j = i")
    case True
    then show ?thesis using inv h st that
      by (auto simp: buf_ok_def bio_inv_def holds_def settled_def)
  next
    case False
    then show ?thesis using inv that by (auto simp: buf_ok_def bio_inv_def)
  qed
  moreover have "\<forall>j < NBUF. \<forall>k < NBUF. j \<noteq> k \<longrightarrow> b_dev (bufs ?t j) = ROOTDEV \<longrightarrow>
      b_dev (bufs ?t k) = ROOTDEV \<longrightarrow> b_blockno (bufs ?t j) \<noteq> b_blockno (bufs ?t k)"
    using inv by (auto simp: bio_inv_def)
  ultimately have inv': "bio_inv ?t"
    using inv unfolding bio_inv_def by simp
  have "view ?t = (view s)(b := b_data ?B)"
    by (rule upd_held_view [OF inv inv' h b]) (use h in \<open>auto simp: holds_def\<close>)
  then have "view ?t = view s" by (simp flip: view_holds [OF inv h])
  moreover have "held ?t = held s - {b}"
    by (rule upd_held_sets(2) [OF h inv b]) (use h in \<open>auto simp: holds_def\<close>)
  moreover have "pinned ?t = pinned s"
    unfolding pinned_def using h by (intro image_cong) auto
  ultimately have "brelse_post i b s ?t"
    using inv' frame by (simp add: brelse_post_def only_buf_def) (simp add: upd_buf_def wake_all_def)
  with d show ?thesis by (rule wpI)
qed

definition bwrite_post ::
  "nat \<Rightarrow> nat \<Rightarrow> 'a bcache_state_scheme \<Rightarrow> 'a bcache_state_scheme \<Rightarrow> bool" where
  "bwrite_post i b s t \<longleftrightarrow> bio_inv t \<and> holds i b t \<and> settled i t \<and> view t = view s \<and> held t = held s \<and>
     pinned t = pinned s - {b} \<and> proc_frame s t \<and>
     disk t = (disk s)(drive ROOTDEV := (disk s (drive ROOTDEV))(b := view s b)) \<and>
     disk_writes t = disk_writes s @ [(drive ROOTDEV, b, view s b)] \<and> only_buf i s t"

lemma bwrite_wp:
  assumes inv: "bio_inv s" and h: "holds i b s" and b: "b < FSSIZE"
  shows "wp (bwrite i) (\<lambda>_. bwrite_post i b s) s"
proof -
  let ?u = "upd_buf i (\<lambda>b. b\<lparr>b_dirty := True\<rparr>) s"
  let ?t = "wake_all (Chan_ide i) (ide_transfer i ?u)"
  have ready: "ide_ready i ?u"
    using inv h b by (simp add: ide_ready_def holds_def ide_done_def bio_inv_def)
  have d: "bwrite i s = Done () ?t"
    using h iderw_ready [OF ready] by (simp add: bwrite_def holds_def holdingsleep_def buf_lock_def kernel_defs)
  let ?B = "(bufs s i)\<lparr>b_dirty := False\<rparr>"
  have v: "b_data (bufs s i) = view s b" using view_holds [OF inv h] by simp
  have bt: "bufs ?t = (bufs s)(i := ?B)"
    using h by (cases "bufs s i") (simp add: ide_transfer_def Let_def holds_def)
  have disk: "disk ?t = (disk s)(drive ROOTDEV := (disk s (drive ROOTDEV))(b := view s b))"
    "disk_writes ?t = disk_writes s @ [(drive ROOTDEV, b, view s b)]"
    using h v by (simp_all add: ide_transfer_def Let_def holds_def)
  have rest: "lru ?t = lru s" "idequeue ?t = idequeue s" "havedisk1 ?t = havedisk1 s"
    "bcache_state.more ?t = bcache_state.more s"
    by (simp_all add: ide_transfer_def Let_def upd_buf_def disk_write_def wake_all_def)
  have frame: "proc_frame s ?t" by (auto simp: ide_transfer_def Let_def)
  have "buf_ok ?t j" if "j < NBUF" for j
  proof (cases "j = i")
    case True
    then show ?thesis using inv h that unfolding buf_ok_def bt disk
      by (auto simp: buf_ok_def bio_inv_def holds_def)
  next
    case False
    then have "b_blockno (bufs s j) \<noteq> b" if "b_dev (bufs s j) = ROOTDEV"
      using that h inv \<open>j < NBUF\<close> by (auto simp: bio_inv_def holds_def)
    then show ?thesis using inv False that unfolding buf_ok_def bt disk
      by (auto simp: buf_ok_def bio_inv_def)
  qed
  then have inv': "bio_inv ?t"
    using inv h v unfolding bio_inv_def rest bt disk by (auto simp: holds_def buf_ok_def)
  have d': "disk ?t (drive ROOTDEV) c = disk s (drive ROOTDEV) c" if "c \<noteq> b" for c
    unfolding disk using that by simp
  have "view ?t = (view s)(b := b_data ?B)"
    by (rule upd_held_view [OF inv inv' h bt _ _ _ d']) (use h in \<open>auto simp: holds_def\<close>)
  then have "view ?t = view s" using v by simp
  moreover have "held ?t = held s" "pinned ?t = pinned s - {b}"
    using upd_held_sets(1,4) [OF h inv bt] h by (auto simp: holds_def)
  moreover have "holds i b ?t" "settled i ?t"
    using h v frame proc_frame_pid [OF frame] unfolding holds_def settled_def bt disk by auto
  ultimately have "bwrite_post i b s ?t"
    using inv' frame disk rest bt by (simp add: bwrite_post_def only_buf_def)
  with d show ?thesis by (rule wpI)
qed

section \<open>The interface of the cache\<close>

text \<open>What a client observes of the cache and the disk under it.\<close>

record bobs =
  o_view :: "nat \<Rightarrow> byte list"
  o_disk :: "nat \<Rightarrow> byte list"
  o_held :: "nat set"
  o_pinned :: "nat set"
  o_writes :: "(nat \<times> nat \<times> byte list) list"

definition obs :: "'a bcache_state_scheme \<Rightarrow> bobs" where
  "obs s = \<lparr>o_view = view s, o_disk = disk s (drive ROOTDEV), o_held = held s, o_pinned = pinned s,
     o_writes = disk_writes s\<rparr>"

lemma obs_sel [simp]:
  "o_view (obs s) = view s" "o_disk (obs s) = disk s (drive ROOTDEV)" "o_held (obs s) = held s"
  "o_pinned (obs s) = pinned s" "o_writes (obs s) = disk_writes s"
  by (simp_all add: obs_def)

text \<open>Everything outside the cache and the disk.\<close>

definition bio_rest :: "'a bcache_state_scheme \<Rightarrow> 'a bcache_state_scheme \<Rightarrow> bool" where
  "bio_rest s t \<longleftrightarrow> proc_frame s t \<and> bcache_state.more t = bcache_state.more s"

lemma bio_rest_refl [simp, intro]: "bio_rest s s"
  by (simp add: bio_rest_def)

lemma bio_rest_trans: "bio_rest s t \<Longrightarrow> bio_rest t u \<Longrightarrow> bio_rest s u"
  by (auto simp: bio_rest_def intro: proc_frame_trans)

definition o_room :: "nat \<Rightarrow> bobs \<Rightarrow> bool" where
  "o_room b o1 \<longleftrightarrow> b \<in> o_pinned o1 \<or> card (o_held o1 \<union> o_pinned o1) < NBUF"

definition o_clean :: "nat \<Rightarrow> bobs \<Rightarrow> bool" where
  "o_clean b o1 \<longleftrightarrow> b \<in> o_pinned o1 \<or> o_view o1 b = o_disk o1 b"

text \<open>A store of blocks behind a cache: reading a block gives a buffer that is then owned; its
  contents can be read, changed and written through; a clean buffer can be released.\<close>

locale block_store =
  fixes inv :: "'s \<Rightarrow> bool" and ob :: "'s \<Rightarrow> bobs" and own :: "nat \<Rightarrow> nat \<Rightarrow> 's \<Rightarrow> bool"
    and rest :: "'s \<Rightarrow> 's \<Rightarrow> bool"
    and rd :: "nat \<Rightarrow> ('s, nat) kernel" and get :: "nat \<Rightarrow> ('s, byte list) kernel"
    and put :: "nat \<Rightarrow> byte list \<Rightarrow> ('s, unit) kernel" and wr :: "nat \<Rightarrow> ('s, unit) kernel"
    and rel :: "nat \<Rightarrow> ('s, unit) kernel"
  assumes rest_trans: "rest s t \<Longrightarrow> rest t u \<Longrightarrow> rest s u"
    and own_held: "inv s \<Longrightarrow> own i b s \<Longrightarrow> b \<in> o_held (ob s) \<and> b < FSSIZE \<and> length (o_view (ob s) b) = BSIZE"
    and rd_ok: "\<lbrakk>inv s; b < FSSIZE; b \<notin> o_held (ob s); o_room b (ob s)\<rbrakk> \<Longrightarrow>
      wp (rd b) (\<lambda>i t. inv t \<and> own i b t \<and> ob t = (ob s)\<lparr>o_held := insert b (o_held (ob s))\<rparr> \<and>
        rest s t \<and> (\<forall>j c. own j c s \<longrightarrow> own j c t)) s"
    and get_ok: "\<lbrakk>inv s; own i b s\<rbrakk> \<Longrightarrow> wp (get i) (\<lambda>d t. d = o_view (ob s) b \<and> t = s) s"
    and put_ok: "\<lbrakk>inv s; own i b s; length d = BSIZE\<rbrakk> \<Longrightarrow>
      wp (put i d) (\<lambda>_ t. inv t \<and> ob t = (ob s)\<lparr>o_view := (o_view (ob s))(b := d)\<rparr> \<and>
        rest s t \<and> (\<forall>j c. own j c s \<longrightarrow> own j c t)) s"
    and wr_ok: "\<lbrakk>inv s; own i b s\<rbrakk> \<Longrightarrow>
      wp (wr i) (\<lambda>_ t. inv t \<and>
        ob t = (ob s)\<lparr>o_disk := (o_disk (ob s))(b := o_view (ob s) b), o_pinned := o_pinned (ob s) - {b},
          o_writes := o_writes (ob s) @ [(drive ROOTDEV, b, o_view (ob s) b)]\<rparr> \<and>
        rest s t \<and> (\<forall>j c. own j c s \<longrightarrow> own j c t)) s"
    and rel_ok: "\<lbrakk>inv s; own i b s; o_clean b (ob s)\<rbrakk> \<Longrightarrow>
      wp (rel i) (\<lambda>_ t. inv t \<and> ob t = (ob s)\<lparr>o_held := o_held (ob s) - {b}\<rparr> \<and>
        rest s t \<and> (\<forall>j c. c \<noteq> b \<longrightarrow> own j c s \<longrightarrow> own j c t)) s"
begin

text \<open>Reading one block without changing it.\<close>

lemma peek:
  assumes "inv s" "b < FSSIZE" "b \<notin> o_held (ob s)" "o_room b (ob s)" "o_clean b (ob s)"
  shows "wp (kbind (rd b) (\<lambda>i. kbind (get i) (\<lambda>d. kseq (rel i) (kreturn (f d)))))
    (\<lambda>r t. r = f (o_view (ob s) b) \<and> inv t \<and> ob t = ob s \<and> rest s t \<and>
      (\<forall>j c. c \<noteq> b \<longrightarrow> own j c s \<longrightarrow> own j c t)) s"
proof -
  obtain i t where 1: "rd b s = Done i t" "inv t" "own i b t" "rest s t"
    "ob t = (ob s)\<lparr>o_held := insert b (o_held (ob s))\<rparr>" "\<forall>j c. own j c s \<longrightarrow> own j c t"
    by (rule wpE [OF rd_ok [OF assms(1-4)]]) blast
  have 2: "get i t = Done (o_view (ob s) b) t"
    by (rule wpE [OF get_ok [OF 1(2,3)]]) (simp add: 1(5))
  have "o_clean b (ob t)" using assms(5) by (simp add: 1(5) o_clean_def)
  then obtain u where 3: "rel i t = Done () u" "inv u" "rest t u"
    "ob u = (ob t)\<lparr>o_held := o_held (ob t) - {b}\<rparr>" "\<forall>j c. c \<noteq> b \<longrightarrow> own j c t \<longrightarrow> own j c u"
    by (elim wp_unitE [OF rel_ok [OF 1(2,3)]]) blast
  show ?thesis
    by (rule wpI [of _ _ "f (o_view (ob s) b)" u])
      (use 1 2 3 assms(3) rest_trans in \<open>auto simp: kseq_def kreturn_def\<close>)
qed

text \<open>Copying block \<open>src\<close> over block \<open>dst\<close> and writing it through.\<close>

definition copy_tail :: "nat \<Rightarrow> nat \<Rightarrow> ('s, unit) kernel" where
  "copy_tail i j = kbind (get i) (\<lambda>d. kseq (put j d) (kseq (wr j) (kseq (rel i) (rel j))))"

lemma copy_tail_ok:
  assumes "inv s" "own i src s" "own j dst s" "src \<noteq> dst" "o_clean src (ob s)"
  shows "wp (copy_tail i j) (\<lambda>_ t. inv t \<and> rest s t \<and>
    ob t = (ob s)\<lparr>o_view := (o_view (ob s))(dst := o_view (ob s) src),
      o_disk := (o_disk (ob s))(dst := o_view (ob s) src), o_pinned := o_pinned (ob s) - {dst},
      o_held := o_held (ob s) - {src, dst},
      o_writes := o_writes (ob s) @ [(drive ROOTDEV, dst, o_view (ob s) src)]\<rparr>) s"
proof -
  let ?d = "o_view (ob s) src"
  have 1: "get i s = Done ?d s"
    by (rule wpE [OF get_ok [OF assms(1,2)]]) simp
  have len: "length ?d = BSIZE" using own_held [OF assms(1,2)] by simp
  obtain t where 2: "put j ?d s = Done () t" "inv t" "rest s t" "own i src t" "own j dst t"
    "ob t = (ob s)\<lparr>o_view := (o_view (ob s))(dst := ?d)\<rparr>"
    by (rule wp_unitE [OF put_ok [OF assms(1,3) len]]) (use assms(2,3) in auto)
  obtain u where 3: "wr j t = Done () u" "inv u" "rest t u" "own i src u" "own j dst u"
    "ob u = (ob t)\<lparr>o_disk := (o_disk (ob t))(dst := o_view (ob t) dst),
       o_pinned := o_pinned (ob t) - {dst},
       o_writes := o_writes (ob t) @ [(drive ROOTDEV, dst, o_view (ob t) dst)]\<rparr>"
    by (rule wp_unitE [OF wr_ok [OF 2(2,5)]]) (use 2(4,5) in auto)
  have cl: "o_clean src (ob u)" "o_clean dst (ob u)"
    using assms(4,5) by (auto simp: o_clean_def 2(6) 3(6))
  obtain v where 4: "rel i u = Done () v" "inv v" "rest u v" "own j dst v"
    "ob v = (ob u)\<lparr>o_held := o_held (ob u) - {src}\<rparr>"
    by (rule wp_unitE [OF rel_ok [OF 3(2,4) cl(1)]]) (use 3(5) assms(4) in auto)
  have "o_clean dst (ob v)" using cl(2) by (simp add: o_clean_def 4(5))
  then obtain w where 5: "rel j v = Done () w" "inv w" "rest v w"
    "ob w = (ob v)\<lparr>o_held := o_held (ob v) - {dst}\<rparr>"
    by (elim wp_unitE [OF rel_ok [OF 4(2,4)]]) blast
  have "rest s w" using 2(3) 3(3) 4(3) 5(3) rest_trans by blast
  moreover have "ob w = (ob s)\<lparr>o_view := (o_view (ob s))(dst := ?d),
      o_disk := (o_disk (ob s))(dst := ?d), o_pinned := o_pinned (ob s) - {dst},
      o_held := o_held (ob s) - {src, dst},
      o_writes := o_writes (ob s) @ [(drive ROOTDEV, dst, ?d)]\<rparr>"
    by (simp add: 2(6) 3(6) 4(5) 5(4) Diff_insert2 [of _ src "{dst}"])
  ultimately show ?thesis
    by (intro wpI [of _ _ "()" w]) (simp_all add: copy_tail_def kseq_def 1 2(1) 3(1) 4(1) 5(1,2))
qed

end

text \<open>The cache of \<^verbatim>\<open>bio.c\<close> is such a store.\<close>

definition owns :: "nat \<Rightarrow> nat \<Rightarrow> 'a bcache_state_scheme \<Rightarrow> bool" where
  "owns i b s \<longleftrightarrow> holds i b s \<and> b < FSSIZE"

lemma owns_keep: "owns j c s \<Longrightarrow> bufs t j = bufs s j \<Longrightarrow> proc_frame s t \<Longrightarrow> owns j c t"
  by (auto simp: owns_def holds_def proc_frame_pid)

lemma owns_refcnt: "owns j c s \<Longrightarrow> j < NBUF \<and> b_refcnt (bufs s j) > 0"
  by (simp add: owns_def holds_def)

lemma owns_unique: "bio_inv s \<Longrightarrow> owns i b s \<Longrightarrow> owns j c s \<Longrightarrow> i = j \<longleftrightarrow> b = c"
  by (auto simp: owns_def holds_def bio_inv_def)

lemma owns_only_buf:
  assumes "bio_inv s" "owns i b s" "owns j c s" "only_buf i s t" "proc_frame s t" "b = c \<longrightarrow> owns i b t"
  shows "owns j c t"
proof (cases "i = j")
  case True
  then show ?thesis using assms owns_unique by blast
next
  case False
  then show ?thesis using assms by (intro owns_keep [OF assms(3)]) (auto simp: only_buf_def)
qed

lemma settled_iff:
  assumes "bio_inv s" and "owns i b s"
  shows "settled i s \<longleftrightarrow> o_clean b (obs s)"
  using assms holds_dirty [of s i b] view_holds [of s i b]
  by (auto simp: settled_def o_clean_def owns_def holds_def)

lemma bread_post_obs:
  assumes "bread_post b s i t" and "b < FSSIZE"
  shows "bio_inv t \<and> owns i b t \<and> obs t = (obs s)\<lparr>o_held := insert b (o_held (obs s))\<rparr> \<and>
    bio_rest s t \<and> (\<forall>j c. owns j c s \<longrightarrow> owns j c t)"
proof (intro conjI allI impI)
  fix j c
  assume o: "owns j c s"
  then have "bufs t j = bufs s j" using assms(1) owns_refcnt [OF o] by (simp add: bread_post_def)
  with o show "owns j c t" using assms(1) by (auto simp: bread_post_def bio_frame_def intro: owns_keep)
qed (use assms in \<open>simp_all add: bread_post_def obs_def bio_rest_def bio_frame_def owns_def\<close>)

lemma set_data_post_obs:
  assumes "set_data_post i b d s t" and "bio_inv s" and "owns i b s"
  shows "bio_inv t \<and> obs t = (obs s)\<lparr>o_view := (o_view (obs s))(b := d)\<rparr> \<and> bio_rest s t \<and>
    (\<forall>j c. owns j c s \<longrightarrow> owns j c t)"
proof (intro conjI allI impI)
  fix j c
  assume o: "owns j c s"
  show "owns j c t"
    by (rule owns_only_buf [OF assms(2,3) o])
      (use assms in \<open>auto simp: set_data_post_def bio_frame_def owns_def\<close>)
qed (use assms in \<open>simp_all add: set_data_post_def obs_def bio_rest_def bio_frame_def only_buf_def\<close>)

lemma bwrite_post_obs:
  assumes "bwrite_post i b s t" and "bio_inv s" and "owns i b s"
  shows "bio_inv t \<and>
    obs t = (obs s)\<lparr>o_disk := (o_disk (obs s))(b := o_view (obs s) b), o_pinned := o_pinned (obs s) - {b},
      o_writes := o_writes (obs s) @ [(drive ROOTDEV, b, o_view (obs s) b)]\<rparr> \<and>
    bio_rest s t \<and> (\<forall>j c. owns j c s \<longrightarrow> owns j c t)"
proof (intro conjI allI impI)
  fix j c
  assume o: "owns j c s"
  show "owns j c t"
    by (rule owns_only_buf [OF assms(2,3) o]) (use assms in \<open>auto simp: bwrite_post_def owns_def\<close>)
qed (use assms in \<open>simp_all add: bwrite_post_def obs_def bio_rest_def only_buf_def\<close>)

lemma brelse_post_obs:
  assumes "brelse_post i b s t" and "bio_inv s" and "owns i b s"
  shows "bio_inv t \<and> obs t = (obs s)\<lparr>o_held := o_held (obs s) - {b}\<rparr> \<and>
    bio_rest s t \<and> (\<forall>j c. c \<noteq> b \<longrightarrow> owns j c s \<longrightarrow> owns j c t)"
proof (intro conjI allI impI)
  fix j c
  assume c: "c \<noteq> b" and o: "owns j c s"
  show "owns j c t"
    by (rule owns_only_buf [OF assms(2,3) o])
      (use assms c in \<open>simp_all add: brelse_post_def bio_frame_def\<close>)
qed (use assms in \<open>simp_all add: brelse_post_def obs_def bio_rest_def bio_frame_def only_buf_def\<close>)

interpretation bc: block_store bio_inv obs owns bio_rest "bread ROOTDEV" buf_data set_buf_data bwrite brelse
proof
  fix s :: "'a bcache_state_scheme" and i b
  assume inv: "bio_inv s" and own: "owns i b s"
  then have h: "holds i b s" and b: "b < FSSIZE" by (auto simp: owns_def)
  have "b \<in> held s" using h by (force simp: holds_def held_def)
  then show "b \<in> o_held (obs s) \<and> b < FSSIZE \<and> length (o_view (obs s) b) = BSIZE"
    using inv b by simp
  show "wp (buf_data i) (\<lambda>d t. d = o_view (obs s) b \<and> t = s) s"
    using inv h by (simp add: buf_data_def view_holds)
  show "wp (set_buf_data i d) (\<lambda>_ t. bio_inv t \<and> obs t = (obs s)\<lparr>o_view := (o_view (obs s))(b := d)\<rparr> \<and>
        bio_rest s t \<and> (\<forall>j c. owns j c s \<longrightarrow> owns j c t)) s" if "length d = BSIZE" for d
    by (rule wp_mono [OF set_buf_data_wp [OF inv h that]]) (rule set_data_post_obs [OF _ inv own])
  show "wp (bwrite i) (\<lambda>_ t. bio_inv t \<and>
        obs t = (obs s)\<lparr>o_disk := (o_disk (obs s))(b := o_view (obs s) b), o_pinned := o_pinned (obs s) - {b},
          o_writes := o_writes (obs s) @ [(drive ROOTDEV, b, o_view (obs s) b)]\<rparr> \<and>
        bio_rest s t \<and> (\<forall>j c. owns j c s \<longrightarrow> owns j c t)) s"
    by (rule wp_mono [OF bwrite_wp [OF inv h b]]) (rule bwrite_post_obs [OF _ inv own])
  show "wp (brelse i) (\<lambda>_ t. bio_inv t \<and> obs t = (obs s)\<lparr>o_held := o_held (obs s) - {b}\<rparr> \<and>
        bio_rest s t \<and> (\<forall>j c. c \<noteq> b \<longrightarrow> owns j c s \<longrightarrow> owns j c t)) s" if "o_clean b (obs s)"
    by (rule wp_mono [OF brelse_wp [OF inv h]])
      (use that settled_iff [OF inv own] brelse_post_obs [OF _ inv own] in auto)
next
  fix s :: "'a bcache_state_scheme" and b
  assume "bio_inv s" and b: "b < FSSIZE" and "b \<notin> o_held (obs s)" and "o_room b (obs s)"
  then have "wp (bread ROOTDEV b) (bread_post b s) s"
    by (intro bread_wp) (auto simp: o_room_def bread_room_def)
  then show "wp (bread ROOTDEV b) (\<lambda>i t. bio_inv t \<and> owns i b t \<and>
        obs t = (obs s)\<lparr>o_held := insert b (o_held (obs s))\<rparr> \<and>
        bio_rest s t \<and> (\<forall>j c. owns j c s \<longrightarrow> owns j c t)) s"
    by (rule wp_mono) (rule bread_post_obs [OF _ b])
qed (rule bio_rest_trans)

text \<open>States that differ only outside the cache, the disk and the current process.\<close>

definition same_bio :: "'a bcache_state_scheme \<Rightarrow> 'b bcache_state_scheme \<Rightarrow> bool" where
  "same_bio s t \<longleftrightarrow> bufs t = bufs s \<and> lru t = lru s \<and> disk t = disk s \<and> disk_writes t = disk_writes s \<and>
     idequeue t = idequeue s \<and> havedisk1 t = havedisk1 s \<and> p_pid (myproc t) = p_pid (myproc s)"

lemma same_bioD:
  assumes "same_bio s t"
  shows "bio_inv t = bio_inv s" "view t = view s" "held t = held s" "pinned t = pinned s"
    "obs t = obs s" "owns i b t = owns i b s"
proof -
  note eqs = assms [unfolded same_bio_def]
  have c: "cached t = cached s" by (simp add: cached_def fun_eq_iff eqs)
  show v: "view t = view s" by (rule ext) (simp add: view_def c eqs split: option.split)
  show h: "held t = held s" and p: "pinned t = pinned s" by (simp_all add: held_def pinned_def eqs)
  show "obs t = obs s" by (simp add: obs_def v h p eqs)
  show "bio_inv t = bio_inv s" by (simp add: bio_inv_def buf_ok_def eqs)
  show "owns i b t = owns i b s" by (simp add: owns_def holds_def eqs)
qed

end
