(* ===== verification/Log.thy ===== *)
theory Log
  imports Bio Layout
begin

text \<open>
  The write-ahead log of \<^verbatim>\<open>log.c\<close>.  The state adds the fields of \<^verbatim>\<open>struct log\<close>; \<open>log_lh\<close> is the
  in-memory header, the first \<^verbatim>\<open>lh.n\<close> entries of \<^verbatim>\<open>lh.block\<close>.  The operations run over the buffer cache
  of theory \<open>Bio\<close>.  The central results are about crashes: the disk writes of a commit are one
  sequence, and running recovery on the disk left by any prefix of it gives either the old contents
  of every file system block or the new contents of every one.
\<close>

abbreviation LOGSIZE :: nat where "LOGSIZE \<equiv> 30"
abbreviation MAXOPBLOCKS :: nat where "MAXOPBLOCKS \<equiv> 10"
abbreviation sizeof_logheader :: nat where "sizeof_logheader \<equiv> 124"

record log_state = bcache_state +
  log_start :: nat
  log_size :: nat
  log_outstanding :: int
  log_committing :: bool
  log_dev :: nat
  log_lh :: "nat list"

section \<open>Operations\<close>

text \<open>Read the super block (\<^verbatim>\<open>fs.c\<close>).\<close>

definition readsb :: "nat \<Rightarrow> ('a bcache_state_scheme, superblock) kernel" where
  "readsb dev = kbind (bread dev 1) (\<lambda>bp. kbind (buf_data bp) (\<lambda>d.
     kseq (brelse bp) (kreturn (decode_sb d))))"

text \<open>Copy committed blocks from log to their home location.\<close>

definition install_trans :: "('a log_state_scheme, unit) kernel" where
  "install_trans = kbind (kget id) (\<lambda>s. kfor [0..<length (log_lh s)] (\<lambda>tail.
     kbind (bread (log_dev s) (log_start s + tail + 1)) (\<lambda>lbuf.
     kbind (bread (log_dev s) (log_lh s ! tail)) (\<lambda>dbuf.
     kbind (buf_data lbuf) (\<lambda>d.
     kseq (set_buf_data dbuf d) (kseq (bwrite dbuf) (kseq (brelse lbuf) (brelse dbuf))))))))"

text \<open>The header is read into the array \<^verbatim>\<open>lh.block\<close> of \<open>LOGSIZE\<close> entries; a count on disk above that
  overruns it, which the model reports as a panic of its own.  A negative count reads nothing.\<close>

definition header_count :: "byte list \<Rightarrow> int" where
  "header_count d = (let n = int (u32_at d 0) in if n < 2 ^ 31 then n else n - 2 ^ 32)"

definition get_header :: "byte list \<Rightarrow> nat list" where
  "get_header d = map (\<lambda>i. u32_at d (i + 1)) [0..<nat (header_count d)]"

definition read_head :: "('a log_state_scheme, unit) kernel" where
  "read_head = kbind (kget id) (\<lambda>s. kbind (bread (log_dev s) (log_start s)) (\<lambda>b. kbind (buf_data b) (\<lambda>d.
     if header_count d > int LOGSIZE then kpanic ''undefined: log header overrun''
     else kseq (kmodify (\<lambda>s. s\<lparr>log_lh := get_header d\<rparr>)) (brelse b))))"

definition put_header :: "nat list \<Rightarrow> byte list \<Rightarrow> byte list" where
  "put_header lh d = bsplice 4 (enc_u32s lh) (bsplice 0 (le_enc 4 (length lh)) d)"

definition write_head :: "('a log_state_scheme, unit) kernel" where
  "write_head = kbind (kget id) (\<lambda>s. kbind (bread (log_dev s) (log_start s)) (\<lambda>b. kbind (buf_data b) (\<lambda>d.
     kseq (set_buf_data b (put_header (log_lh s) d)) (kseq (bwrite b) (brelse b)))))"

definition recover_from_log :: "('a log_state_scheme, unit) kernel" where
  "recover_from_log = kseq read_head (kseq install_trans
     (kseq (kmodify (\<lambda>s. s\<lparr>log_lh := []\<rparr>)) write_head))"

definition initlog :: "nat \<Rightarrow> ('a log_state_scheme, unit) kernel" where
  "initlog dev = (if sizeof_logheader \<ge> BSIZE then kpanic ''initlog: too big logheader''
     else kbind (readsb dev) (\<lambda>sb.
       kseq (kmodify (\<lambda>s. s\<lparr>log_start := sb_logstart sb, log_size := sb_nlog sb, log_dev := dev\<rparr>))
         recover_from_log))"

text \<open>One pass of the loop of \<^verbatim>\<open>begin_op\<close>: a process that sleeps repeats it when woken.\<close>

definition begin_op :: "('a log_state_scheme, unit) kernel" where
  "begin_op = kbind (kget id) (\<lambda>s.
     if log_committing s then sleep Chan_log
     else if int (length (log_lh s)) + (log_outstanding s + 1) * int MAXOPBLOCKS > int LOGSIZE
       then sleep Chan_log
     else kmodify (\<lambda>s. s\<lparr>log_outstanding := log_outstanding s + 1\<rparr>))"

definition write_log :: "('a log_state_scheme, unit) kernel" where
  "write_log = kbind (kget id) (\<lambda>s. kfor [0..<length (log_lh s)] (\<lambda>tail.
     kbind (bread (log_dev s) (log_start s + tail + 1)) (\<lambda>to.
     kbind (bread (log_dev s) (log_lh s ! tail)) (\<lambda>from.
     kbind (buf_data from) (\<lambda>d.
     kseq (set_buf_data to d) (kseq (bwrite to) (kseq (brelse from) (brelse to))))))))"

definition commit :: "('a log_state_scheme, unit) kernel" where
  "commit = kbind (kget (\<lambda>s. length (log_lh s))) (\<lambda>n. kwhen (n > 0)
     (kseq write_log (kseq write_head (kseq install_trans
       (kseq (kmodify (\<lambda>s. s\<lparr>log_lh := []\<rparr>)) write_head)))))"

definition end_op :: "('a log_state_scheme, unit) kernel" where
  "end_op = kseq (kmodify (\<lambda>s. s\<lparr>log_outstanding := log_outstanding s - 1\<rparr>))
     (kbind (kget id) (\<lambda>s.
       if log_committing s then kpanic ''log.committing''
       else if log_outstanding s = 0 then
         kseq (kmodify (\<lambda>s. s\<lparr>log_committing := True\<rparr>))
         (kseq commit
         (kseq (kmodify (\<lambda>s. s\<lparr>log_committing := False\<rparr>)) (wakeup Chan_log)))
       else wakeup Chan_log))"

definition log_write :: "nat \<Rightarrow> ('a log_state_scheme, unit) kernel" where
  "log_write b = kbind (kget id) (\<lambda>s.
     if length (log_lh s) \<ge> LOGSIZE \<or> int (length (log_lh s)) \<ge> int (log_size s) - 1
       then kpanic ''too big a transaction''
     else if log_outstanding s < 1 then kpanic ''log_write outside of trans''
     else
       kseq (kmodify (\<lambda>s. if b_blockno (bufs s b) \<in> set (log_lh s) then s
                          else s\<lparr>log_lh := log_lh s @ [b_blockno (bufs s b)]\<rparr>))
            (kmodify (upd_buf b (\<lambda>bf. bf\<lparr>b_dirty := True\<rparr>))))"

section \<open>Sequences of block writes\<close>

primrec apply_writes :: "(nat \<times> byte list) list \<Rightarrow> (nat \<Rightarrow> byte list) \<Rightarrow> nat \<Rightarrow> byte list" where
  "apply_writes [] f = f"
| "apply_writes (w # ws) f = apply_writes ws (f(fst w := snd w))"

lemma apply_writes_append [simp]:
  "apply_writes (us @ ws) f = apply_writes ws (apply_writes us f)"
  by (induction us arbitrary: f) auto

lemma apply_writes_other: "b \<notin> fst ` set ws \<Longrightarrow> apply_writes ws f b = f b"
  by (induction ws arbitrary: f) auto

lemma apply_writes_in:
  "distinct (map fst ws) \<Longrightarrow> (b, d) \<in> set ws \<Longrightarrow> apply_writes ws f b = d"
proof (induction ws arbitrary: f)
  case (Cons w ws)
  then show ?case by (force simp: apply_writes_other)
qed simp

text \<open>From \<open>s\<close> to \<open>t\<close> the blocks of \<open>ws\<close> were written through, in that order, and nothing else changed
  but the cache's own bookkeeping.\<close>

definition writes_through ::
  "(nat \<times> byte list) list \<Rightarrow> 'a bcache_state_scheme \<Rightarrow> 'a bcache_state_scheme \<Rightarrow> bool" where
  "writes_through ws s t \<longleftrightarrow> bio_inv t \<and> bio_rest s t \<and>
     obs t = (obs s)\<lparr>o_view := apply_writes ws (view s),
       o_disk := apply_writes ws (disk s (drive ROOTDEV)), o_pinned := pinned s - fst ` set ws,
       o_writes := disk_writes s @ map (Pair (drive ROOTDEV)) ws\<rparr>"

lemma writes_throughD:
  assumes "writes_through ws s t"
  shows "bio_inv t" "bio_rest s t" "view t = apply_writes ws (view s)"
    "disk t (drive ROOTDEV) = apply_writes ws (disk s (drive ROOTDEV))"
    "pinned t = pinned s - fst ` set ws" "held t = held s"
    "disk_writes t = disk_writes s @ map (Pair (drive ROOTDEV)) ws"
  using assms by (simp_all add: writes_through_def obs_def)

lemma writes_through_Nil [simp]: "writes_through [] s s \<longleftrightarrow> bio_inv s"
  by (simp add: writes_through_def obs_def)

lemma writes_through_trans:
  assumes "writes_through us s t" and "writes_through ws t u"
  shows "writes_through (us @ ws) s u"
  using writes_throughD [OF assms(1)] writes_throughD [OF assms(2)]
  by (auto simp: writes_through_def obs_def intro: bio_rest_trans)

lemma finite_pinned [simp]: "finite (pinned s)"
  by (simp add: pinned_def)

section \<open>Copying blocks\<close>

text \<open>When one iteration of \<^verbatim>\<open>write_log\<close> or \<^verbatim>\<open>install_trans\<close> can run: \<open>snd_b\<close> is the block read second.\<close>

definition copy_pre :: "nat \<Rightarrow> nat \<Rightarrow> nat \<Rightarrow> 'a bcache_state_scheme \<Rightarrow> bool" where
  "copy_pre src dst snd_b s \<longleftrightarrow> bio_inv s \<and> held s = {} \<and> src < FSSIZE \<and> dst < FSSIZE \<and> src \<noteq> dst \<and>
     o_clean src (obs s) \<and> card (pinned s) < NBUF \<and> (snd_b \<in> pinned s \<or> card (pinned s) + 1 < NBUF)"

lemma bread_two:
  assumes "bio_inv s" "held s = {}" "a < FSSIZE" "b < FSSIZE" "a \<noteq> b" "card (pinned s) < NBUF"
    "b \<in> pinned s \<or> card (pinned s) + 1 < NBUF"
  obtains i j t u where "bread ROOTDEV a s = Done i t" "bread ROOTDEV b t = Done j u"
    "bio_inv u" "owns i a u" "owns j b u" "bio_rest s u" "obs u = (obs s)\<lparr>o_held := {a, b}\<rparr>"
proof -
  obtain i t where 1: "bread ROOTDEV a s = Done i t" "bio_inv t" "owns i a t" "bio_rest s t"
    "obs t = (obs s)\<lparr>o_held := {a}\<rparr>"
    by (rule wpE [OF bc.rd_ok [of s a]]) (use assms in \<open>auto simp: o_room_def\<close>)
  have "card (insert a (pinned s)) \<le> card (pinned s) + 1"
    by (simp add: card_insert_if)
  then have room: "o_room b (obs t)" using assms(7) by (auto simp: o_room_def 1(5))
  have "b \<notin> o_held (obs t)" using assms(5) by (simp add: 1(5))
  from bc.rd_ok [OF 1(2) assms(4) this room] obtain j u where 2: "bread ROOTDEV b t = Done j u" "bio_inv u" "owns j b u" "bio_rest t u"
    "owns i a u" "obs u = (obs t)\<lparr>o_held := insert b (o_held (obs t))\<rparr>"
    by (rule wpE) (use 1(3) in blast)
  have "obs u = (obs s)\<lparr>o_held := {a, b}\<rparr>" by (simp add: 1(5) 2(6) insert_commute)
  with 1 2 that bio_rest_trans show thesis by blast
qed

lemma copy_tail_through:
  assumes "bio_inv u" "owns i src u" "owns j dst u" "src \<noteq> dst" "o_clean src (obs s)"
    "bio_rest s u" "obs u = (obs s)\<lparr>o_held := {src, dst}\<rparr>" "held s = {}"
  shows "wp (bc.copy_tail i j) (\<lambda>_. writes_through [(dst, view s src)] s) u"
proof -
  have "o_clean src (obs u)" using assms(5) by (simp add: assms(7) o_clean_def)
  then show ?thesis
    by (rule wp_mono [OF bc.copy_tail_ok [OF assms(1-4)]])
      (use assms(6,8) bio_rest_trans in \<open>auto simp: writes_through_def assms(7)\<close>)
qed

lemma bio_rest_log:
  fixes s t :: "'a log_state_scheme"
  assumes "bio_rest s t"
  shows "log_lh t = log_lh s" "log_start t = log_start s" "log_size t = log_size s"
    "log_dev t = log_dev s" "log_outstanding t = log_outstanding s"
    "log_committing t = log_committing s" "log_state.more t = log_state.more s"
  using assms by (cases s; cases t; simp add: bio_rest_def)+

text \<open>The bodies of the two loops, reading source and destination in either order.\<close>

lemma copy_src_first:
  assumes "copy_pre src dst dst s"
  shows "wp (kbind (bread ROOTDEV src) (\<lambda>i. kbind (bread ROOTDEV dst) (\<lambda>j. bc.copy_tail i j)))
    (\<lambda>_. writes_through [(dst, view s src)] s) s"
proof -
  note pre = assms [unfolded copy_pre_def]
  obtain i j t u where "bread ROOTDEV src s = Done i t" "bread ROOTDEV dst t = Done j u"
    and u: "bio_inv u" "owns i src u" "owns j dst u" "bio_rest s u" "obs u = (obs s)\<lparr>o_held := {src, dst}\<rparr>"
    by (rule bread_two [of s src dst]) (use pre in auto)
  then have "wp (kbind (bread ROOTDEV src) (\<lambda>i. kbind (bread ROOTDEV dst) (\<lambda>j. bc.copy_tail i j)))
      Q s = wp (bc.copy_tail i j) Q u" for Q
    by (simp add: wp_def)
  moreover have "wp (bc.copy_tail i j) (\<lambda>_. writes_through [(dst, view s src)] s) u"
    by (rule copy_tail_through) (use u pre in auto)
  ultimately show ?thesis by simp
qed

lemma copy_dst_first:
  assumes "copy_pre src dst src s"
  shows "wp (kbind (bread ROOTDEV dst) (\<lambda>j. kbind (bread ROOTDEV src) (\<lambda>i. bc.copy_tail i j)))
    (\<lambda>_. writes_through [(dst, view s src)] s) s"
proof -
  note pre = assms [unfolded copy_pre_def]
  obtain i j t u where "bread ROOTDEV dst s = Done j t" "bread ROOTDEV src t = Done i u"
    and u: "bio_inv u" "owns i src u" "owns j dst u" "bio_rest s u" "obs u = (obs s)\<lparr>o_held := {dst, src}\<rparr>"
    by (rule bread_two [of s dst src]) (use pre in auto)
  then have "wp (kbind (bread ROOTDEV dst) (\<lambda>j. kbind (bread ROOTDEV src) (\<lambda>i. bc.copy_tail i j)))
      Q s = wp (bc.copy_tail i j) Q u" for Q
    by (simp add: wp_def)
  moreover have "wp (bc.copy_tail i j) (\<lambda>_. writes_through [(dst, view s src)] s) u"
    by (rule copy_tail_through) (use u pre in \<open>auto simp: insert_commute\<close>)
  ultimately show ?thesis by simp
qed

lemma copy_pre_stable:
  assumes "copy_pre src dst snd_b s" and "writes_through [(c, d)] s t" and "c \<noteq> src" and "c \<noteq> snd_b"
  shows "copy_pre src dst snd_b t"
proof -
  note t = writes_throughD [OF assms(2)]
  have "card (pinned t) \<le> card (pinned s)" by (rule card_mono) (auto simp: t)
  then show ?thesis
    using assms(1,3,4) by (auto simp: copy_pre_def t o_clean_def)
qed

text \<open>The loops: each element of \<open>xs\<close> copies its source over its destination.\<close>

lemma copy_loop:
  assumes body: "\<And>k s. k \<in> set xs \<Longrightarrow> copy_pre (src k) (dst k) (snd_b k) s \<Longrightarrow>
      wp (body k) (\<lambda>_. writes_through [(dst k, view s (src k))] s) s"
    and inv: "bio_inv s"
    and pre: "\<And>k. k \<in> set xs \<Longrightarrow> copy_pre (src k) (dst k) (snd_b k) s"
    and "distinct xs"
    and indep: "\<And>k j. k \<in> set xs \<Longrightarrow> j \<in> set xs \<Longrightarrow> src j \<noteq> dst k"
      "\<And>k j. k \<in> set xs \<Longrightarrow> j \<in> set xs \<Longrightarrow> j \<noteq> k \<Longrightarrow> snd_b j \<noteq> dst k"
  shows "wp (kfor xs body) (\<lambda>_. writes_through (map (\<lambda>k. (dst k, view s (src k))) xs) s) s"
  using assms
proof (induction xs arbitrary: s)
  case (Cons k xs)
  have "wp (body k) (\<lambda>_. writes_through [(dst k, view s (src k))] s) s"
    using Cons.prems(1,3) by simp
  then show ?case
  proof (simp, rule wp_mono)
    fix t
    assume t: "writes_through [(dst k, view s (src k))] s t"
    have k: "j \<noteq> k \<and> j \<in> set (k # xs)" if "j \<in> set xs" for j using that Cons.prems(4) by auto
    have "wp (kfor xs body) (\<lambda>_. writes_through (map (\<lambda>j. (dst j, view t (src j))) xs) t) t"
    proof (rule Cons.IH)
      show "copy_pre (src j) (dst j) (snd_b j) t" if "j \<in> set xs" for j
        using Cons.prems(3,5,6) that k [OF that]
        by (intro copy_pre_stable [OF _ t]) (simp_all, metis+)
    qed (use Cons.prems writes_throughD [OF t] in auto)
    moreover have "map (\<lambda>j. (dst j, view t (src j))) xs = map (\<lambda>j. (dst j, view s (src j))) xs"
      using Cons.prems(5) by (auto simp: writes_throughD(3) [OF t])
    ultimately show "wp (kfor xs body)
        (\<lambda>_. writes_through ((dst k, view s (src k)) # map (\<lambda>k. (dst k, view s (src k))) xs) s) t"
      using writes_through_trans [OF t] by (auto elim: wp_mono)
  qed
qed simp

section \<open>The phases of a commit\<close>

definition log_geom :: "'a log_state_scheme \<Rightarrow> bool" where
  "log_geom s \<longleftrightarrow> log_dev s = ROOTDEV \<and> 0 < log_size s \<and> log_size s \<le> LOGSIZE \<and>
     log_start s + log_size s \<le> FSSIZE"

definition log_area :: "'a log_state_scheme \<Rightarrow> nat set" where
  "log_area s = {log_start s ..< log_start s + log_size s}"

definition lh_ok :: "'a log_state_scheme \<Rightarrow> nat list \<Rightarrow> bool" where
  "lh_ok s lh \<longleftrightarrow> distinct lh \<and> length lh < log_size s \<and> (\<forall>b \<in> set lh. b < FSSIZE \<and> b \<notin> log_area s)"

lemma log_geom_rest:
  assumes "bio_rest s t"
  shows "log_geom t = log_geom s" "log_area t = log_area s" "lh_ok t = lh_ok s"
  using bio_rest_log [OF assms] by (simp_all add: log_geom_def log_area_def lh_ok_def fun_eq_iff)

lemma lh_okD:
  assumes "lh_ok s lh" and "i < length lh"
  shows "lh ! i < FSSIZE" "lh ! i \<notin> log_area s" "log_start s + i + 1 \<in> log_area s"
  using assms by (auto simp: lh_ok_def log_area_def)

lemma o_clean_idle: "bio_inv s \<Longrightarrow> held s = {} \<Longrightarrow> o_clean b (obs s)"
  using view_unpinned [of s b] by (auto simp: o_clean_def)

definition log_ws :: "'a log_state_scheme \<Rightarrow> (nat \<times> byte list) list" where
  "log_ws s = map (\<lambda>i. (log_start s + i + 1, view s (log_lh s ! i))) [0..<length (log_lh s)]"

definition home_ws :: "'a log_state_scheme \<Rightarrow> (nat \<times> byte list) list" where
  "home_ws s = map (\<lambda>i. (log_lh s ! i, view s (log_start s + i + 1))) [0..<length (log_lh s)]"

lemma log_copy_pre:
  assumes "bio_inv s" "held s = {}" "log_geom s" "lh_ok s (log_lh s)" "i < length (log_lh s)"
    and pin: "pinned s = set (log_lh s) \<or> pinned s = {}"
  shows "copy_pre (log_lh s ! i) (log_start s + i + 1) (log_lh s ! i) s"
    and "copy_pre (log_start s + i + 1) (log_lh s ! i) (log_lh s ! i) s"
proof -
  note i = lh_okD [OF assms(4,5)]
  have "card (set (log_lh s)) = length (log_lh s)"
    using assms(4) by (simp add: lh_ok_def distinct_card)
  then have "card (pinned s) < NBUF" using pin assms(3,4) by (auto simp: lh_ok_def log_geom_def)
  moreover have "log_lh s ! i \<in> pinned s \<or> card (pinned s) + 1 < NBUF" using pin assms(5) by auto
  moreover have "log_start s + i + 1 < FSSIZE" "log_lh s ! i \<noteq> log_start s + i + 1"
    using i assms(3) by (auto simp: log_geom_def log_area_def)
  ultimately show "copy_pre (log_lh s ! i) (log_start s + i + 1) (log_lh s ! i) s"
    "copy_pre (log_start s + i + 1) (log_lh s ! i) (log_lh s ! i) s"
    using assms(1,2) i o_clean_idle by (auto simp: copy_pre_def)
qed

lemma write_log_wp:
  assumes "bio_inv s" "held s = {}" "log_geom s" "lh_ok s (log_lh s)" "pinned s = set (log_lh s)"
  shows "wp write_log (\<lambda>_. writes_through (log_ws s) s) s"
proof -
  let ?src = "\<lambda>i. log_lh s ! i" and ?dst = "\<lambda>i. log_start s + i + 1"
  have "wp (kfor [0..<length (log_lh s)] (\<lambda>k. kbind (bread ROOTDEV (?dst k)) (\<lambda>j.
      kbind (bread ROOTDEV (?src k)) (\<lambda>i. bc.copy_tail i j))))
    (\<lambda>_. writes_through (map (\<lambda>k. (?dst k, view s (?src k))) [0..<length (log_lh s)]) s) s"
  proof (rule copy_loop [where snd_b = ?src])
    show "?src j \<noteq> ?dst k" if "k \<in> set [0..<length (log_lh s)]" "j \<in> set [0..<length (log_lh s)]" for k j
      using that lh_okD [OF assms(4)] by fastforce
    then show "?src j \<noteq> ?dst k" if "k \<in> set [0..<length (log_lh s)]" "j \<in> set [0..<length (log_lh s)]" for k j
      using that by blast
  qed (use assms log_copy_pre copy_dst_first in auto)
  then show ?thesis
    using assms(3) by (simp add: write_log_def log_ws_def bc.copy_tail_def log_geom_def)
qed

lemma install_trans_wp:
  assumes "bio_inv s" "held s = {}" "log_geom s" "lh_ok s (log_lh s)"
    and "pinned s = set (log_lh s) \<or> pinned s = {}"
  shows "wp install_trans (\<lambda>_. writes_through (home_ws s) s) s"
proof -
  let ?dst = "\<lambda>i. log_lh s ! i" and ?src = "\<lambda>i. log_start s + i + 1"
  have "wp (kfor [0..<length (log_lh s)] (\<lambda>k. kbind (bread ROOTDEV (?src k)) (\<lambda>i.
      kbind (bread ROOTDEV (?dst k)) (\<lambda>j. bc.copy_tail i j))))
    (\<lambda>_. writes_through (map (\<lambda>k. (?dst k, view s (?src k))) [0..<length (log_lh s)]) s) s"
  proof (rule copy_loop [where snd_b = ?dst])
    show "?src j \<noteq> ?dst k" if "k \<in> set [0..<length (log_lh s)]" "j \<in> set [0..<length (log_lh s)]" for k j
      using that lh_okD [OF assms(4)] by fastforce
    show "?dst j \<noteq> ?dst k" if "k \<in> set [0..<length (log_lh s)]" "j \<in> set [0..<length (log_lh s)]" "j \<noteq> k" for k j
      using that assms(4) by (simp add: lh_ok_def nth_eq_iff_index_eq)
  qed (use assms(1) log_copy_pre(2) [OF assms(1-4) _ assms(5)] copy_src_first in auto)
  then show ?thesis
    using assms(3) by (simp add: install_trans_def home_ws_def bc.copy_tail_def log_geom_def)
qed

lemma length_put_header [simp]:
  "length d = BSIZE \<Longrightarrow> length lh \<le> LOGSIZE \<Longrightarrow> length (put_header lh d) = BSIZE"
  by (simp add: put_header_def)

lemma write_head_wp:
  assumes "bio_inv s" "held s = {}" "log_geom s" "length (log_lh s) \<le> LOGSIZE" "card (pinned s) < NBUF"
  shows "wp write_head (\<lambda>_. writes_through [(log_start s, put_header (log_lh s) (view s (log_start s)))] s) s"
proof -
  let ?b = "log_start s" and ?d = "put_header (log_lh s) (view s (log_start s))"
  have b: "?b < FSSIZE" and dev: "log_dev s = ROOTDEV" using assms(3) by (auto simp: log_geom_def)
  obtain i t where 1: "bread ROOTDEV ?b s = Done i t" "bio_inv t" "owns i ?b t" "bio_rest s t"
    "obs t = (obs s)\<lparr>o_held := {?b}\<rparr>"
    by (rule wpE [OF bc.rd_ok [of s ?b]]) (use assms b in \<open>auto simp: o_room_def\<close>)
  have 2: "buf_data i t = Done (view s ?b) t"
    by (rule wpE [OF bc.get_ok [OF 1(2,3)]]) (simp add: 1(5))
  have len: "length ?d = BSIZE" using assms by simp
  obtain u where 3: "set_buf_data i ?d t = Done () u" "bio_inv u" "bio_rest t u" "owns i ?b u"
    "obs u = (obs t)\<lparr>o_view := (o_view (obs t))(?b := ?d)\<rparr>"
    by (rule wp_unitE [OF bc.put_ok [OF 1(2,3) len]]) (use 1(3) in auto)
  obtain v where 4: "bwrite i u = Done () v" "bio_inv v" "bio_rest u v" "owns i ?b v"
    "obs v = (obs u)\<lparr>o_disk := (o_disk (obs u))(?b := o_view (obs u) ?b),
       o_pinned := o_pinned (obs u) - {?b},
       o_writes := o_writes (obs u) @ [(drive ROOTDEV, ?b, o_view (obs u) ?b)]\<rparr>"
    by (rule wp_unitE [OF bc.wr_ok [OF 3(2,4)]]) (use 3(4) in auto)
  have "o_clean ?b (obs v)" by (simp add: o_clean_def 3(5) 4(5))
  from bc.rel_ok [OF 4(2,4) this] obtain w where 5: "brelse i v = Done () w" "bio_inv w" "bio_rest v w"
    "obs w = (obs v)\<lparr>o_held := o_held (obs v) - {?b}\<rparr>"
    by (rule wp_unitE) blast
  have "bio_rest s w" using 1(4) 3(3) 4(3) 5(3) bio_rest_trans by blast
  moreover have "write_head s = Done () w"
    by (simp add: write_head_def kseq_def kget_def dev 1(1) 2 3(1) 4(1) 5(1))
  ultimately show ?thesis
    by (intro wpI [of _ _ "()" w]) (simp_all add: writes_through_def 1(5) 3(5) 4(5) 5(2,4) assms(2))
qed

lemma log_update_same [simp]:
  "same_bio s (s\<lparr>log_lh := l\<rparr>)" "same_bio s (s\<lparr>log_outstanding := k\<rparr>)"
  "same_bio s (s\<lparr>log_committing := c\<rparr>)" "same_bio s (s\<lparr>log_start := a, log_size := b, log_dev := d\<rparr>)"
  by (simp_all add: same_bio_def myproc_def)

lemmas log_update_bio [simp] = log_update_same [THEN same_bioD(1)] log_update_same [THEN same_bioD(2)]
  log_update_same [THEN same_bioD(3)] log_update_same [THEN same_bioD(4)]
  log_update_same [THEN same_bioD(5)] log_update_same [THEN same_bioD(6)]

lemma log_update_geom [simp]:
  "log_geom (s\<lparr>log_lh := l\<rparr>) = log_geom s" "log_area (s\<lparr>log_lh := l\<rparr>) = log_area s"
  "lh_ok (s\<lparr>log_lh := l\<rparr>) = lh_ok s"
  "log_geom (s\<lparr>log_outstanding := k\<rparr>) = log_geom s" "log_area (s\<lparr>log_outstanding := k\<rparr>) = log_area s"
  "lh_ok (s\<lparr>log_outstanding := k\<rparr>) = lh_ok s"
  "log_geom (s\<lparr>log_committing := c\<rparr>) = log_geom s" "log_area (s\<lparr>log_committing := c\<rparr>) = log_area s"
  "lh_ok (s\<lparr>log_committing := c\<rparr>) = lh_ok s"
  by (simp_all add: log_geom_def log_area_def lh_ok_def fun_eq_iff)

text \<open>A transaction that can commit: no buffer is in use and the dirty blocks are the logged ones.\<close>

definition commit_ready :: "'a log_state_scheme \<Rightarrow> bool" where
  "commit_ready s \<longleftrightarrow> bio_inv s \<and> held s = {} \<and> log_geom s \<and> lh_ok s (log_lh s) \<and>
     pinned s = set (log_lh s)"

text \<open>The disk writes of a commit, in order: the log blocks, the header, the home blocks, the header
  again with count 0.\<close>

definition commit_ws :: "'a log_state_scheme \<Rightarrow> (nat \<times> byte list) list" where
  "commit_ws s = (let hd = put_header (log_lh s) (view s (log_start s)) in
     log_ws s @ [(log_start s, hd)] @ map (\<lambda>b. (b, view s b)) (log_lh s) @
     [(log_start s, put_header [] hd)])"

lemma commit_readyD:
  assumes "commit_ready s"
  shows "card (pinned s) < NBUF" "length (log_lh s) \<le> LOGSIZE"
proof -
  have "card (set (log_lh s)) = length (log_lh s)"
    using assms by (simp add: commit_ready_def lh_ok_def distinct_card)
  then show "card (pinned s) < NBUF" "length (log_lh s) \<le> LOGSIZE"
    using assms by (auto simp: commit_ready_def lh_ok_def log_geom_def)
qed

lemma fst_log_ws: "fst ` set (log_ws s) = (\<lambda>i. log_start s + i + 1) ` {..<length (log_lh s)}"
  by (auto simp: log_ws_def image_iff)

lemma distinct_log_ws: "distinct (map fst (log_ws s))"
  by (auto simp: log_ws_def distinct_map inj_on_def comp_def)

lemma log_ws_area: "lh_ok s (log_lh s) \<Longrightarrow> fst ` set (log_ws s) \<subseteq> log_area s - {log_start s}"
  by (auto simp: fst_log_ws log_area_def lh_ok_def)

lemma apply_log_ws:
  "i < length (log_lh s) \<Longrightarrow> apply_writes (log_ws s) f (log_start s + i + 1) = view s (log_lh s ! i)"
  by (intro apply_writes_in distinct_log_ws) (auto simp: log_ws_def)

lemma writes_through_lh:
  assumes "writes_through ws (s\<lparr>log_lh := l\<rparr>) t"
  shows "writes_through ws s (t\<lparr>log_lh := log_lh s\<rparr>)"
proof -
  have "bio_rest (s\<lparr>log_lh := l\<rparr>) t" using writes_throughD(2) [OF assms] .
  then have "bio_rest s (t\<lparr>log_lh := log_lh s\<rparr>)"
    by (cases s; cases t) (simp add: bio_rest_def proc_frame_def)
  then show ?thesis using assms by (simp add: writes_through_def)
qed

lemma commit_wp:
  fixes s :: "'a log_state_scheme"
  assumes "commit_ready s" and n: "log_lh s \<noteq> []"
  shows "wp commit (\<lambda>_ t. log_lh t = [] \<and> writes_through (commit_ws s) s (t\<lparr>log_lh := log_lh s\<rparr>)) s"
proof -
  note ready = assms(1) [unfolded commit_ready_def] and card = commit_readyD [OF assms(1)]
  let ?st = "log_start s" and ?lh = "log_lh s"
  let ?hd = "put_header ?lh (view s ?st)"
  obtain t where 1: "write_log s = Done () t" and w1: "writes_through (log_ws s) s t"
    by (rule wp_unitE [OF write_log_wp [of s]]) (use ready in auto)
  note t = writes_throughD [OF w1] and rt = bio_rest_log [OF writes_throughD(2) [OF w1]]
    log_geom_rest [OF writes_throughD(2) [OF w1]]
  have area: "fst ` set (log_ws s) \<subseteq> log_area s - {?st}" using ready by (simp add: log_ws_area)
  have pt: "pinned t = set ?lh" using area ready by (auto simp: t lh_ok_def)
  have vt: "view t ?st = view s ?st" using area by (auto simp: t intro: apply_writes_other)
  obtain u where 2: "write_head t = Done () u" and w2: "writes_through [(?st, ?hd)] t u"
    by (rule wp_unitE [OF write_head_wp [of t]]) (use ready card pt in \<open>auto simp: t(1,6) rt vt\<close>)
  note u = writes_throughD [OF w2] and ru = bio_rest_log [OF writes_throughD(2) [OF w2]]
    log_geom_rest [OF writes_throughD(2) [OF w2]]
  have "?st \<in> log_area s" using ready by (auto simp: log_area_def log_geom_def)
  then have pu: "pinned u = set ?lh" using ready by (auto simp: u pt lh_ok_def)
  have hu: "home_ws u = map (\<lambda>b. (b, view s b)) ?lh"
    by (rule nth_equalityI) (simp_all add: home_ws_def rt ru u t apply_log_ws [simplified])
  obtain v where 3: "install_trans u = Done () v" and w3: "writes_through (home_ws u) u v"
    by (rule wp_unitE [OF install_trans_wp [of u]]) (use ready pu in \<open>auto simp: u(1,6) t(6) rt ru\<close>)
  note v = writes_throughD [OF w3] and rv = bio_rest_log [OF writes_throughD(2) [OF w3]]
    log_geom_rest [OF writes_throughD(2) [OF w3]]
  have "?st \<notin> set ?lh" using \<open>?st \<in> log_area s\<close> ready by (auto simp: lh_ok_def)
  then have vv: "view v ?st = ?hd"
    unfolding v hu by (subst apply_writes_other) (auto simp: u)
  let ?v = "v\<lparr>log_lh := []\<rparr>"
  have pv: "pinned v = {}" by (auto simp: v hu pu image_image)
  obtain w where 4: "write_head ?v = Done () w" and w4: "writes_through [(?st, put_header [] ?hd)] ?v w"
    by (rule wp_unitE [OF write_head_wp [of ?v]]) (use ready pv in \<open>auto simp: v(1,6) u(6) t(6) rt ru rv vv\<close>)
  have "commit s = Done () w"
    using n by (simp add: commit_def kseq_def kget_def kwhen_def kmodify_def 1 2 3 4)
  moreover have "log_lh w = []" using bio_rest_log [OF writes_throughD(2) [OF w4]] by simp
  moreover have "writes_through (commit_ws s) s (w\<lparr>log_lh := log_lh v\<rparr>)"
    using writes_through_trans [OF w1 writes_through_trans [OF w2
        writes_through_trans [OF w3 writes_through_lh [OF w4]]]]
    by (simp add: commit_ws_def hu Let_def)
  ultimately show ?thesis by (intro wpI) (auto simp: rt ru rv)
qed

section \<open>Recovery\<close>

lemma u32_at_put_header:
  assumes "length d = BSIZE" and "length lh \<le> LOGSIZE"
  shows "u32_at (put_header lh d) 0 = length lh"
    and "i < length lh \<Longrightarrow> u32_at (put_header lh d) (i + 1) = lh ! i mod 2 ^ 32"
proof -
  show "u32_at (put_header lh d) 0 = length lh"
    using assms by (simp add: u32_at_def put_header_def bslice_bsplice_other)
  assume i: "i < length lh"
  have "bslice (4 * (i + 1)) 4 (put_header lh d) = bslice (4 * i) 4 (enc_u32s lh)"
    using assms i by (intro nth_equalityI) (auto simp: put_header_def nth_bslice nth_bsplice algebra_simps)
  moreover have "bslice (4 * i) 4 (enc_u32s xs) = le_enc 4 (xs ! i)" if "i < length xs" for xs
    using that
  proof (induction xs arbitrary: i)
    case (Cons x xs)
    then show ?case by (cases i) (auto simp: enc_u32s_def bslice_def)
  qed simp
  ultimately show "u32_at (put_header lh d) (i + 1) = lh ! i mod 2 ^ 32"
    using i by (simp add: u32_at_def)
qed

lemma header_count_put [simp]:
  "length d = BSIZE \<Longrightarrow> length lh \<le> LOGSIZE \<Longrightarrow> header_count (put_header lh d) = int (length lh)"
  by (simp add: header_count_def u32_at_put_header)

lemma get_put_header [simp]:
  assumes "length d = BSIZE" and "length lh \<le> LOGSIZE" and "\<forall>b \<in> set lh. b < 2 ^ 32"
  shows "get_header (put_header lh d) = lh"
  by (rule nth_equalityI) (use assms in \<open>simp_all add: get_header_def u32_at_put_header [simplified]\<close>)

definition recover_ws :: "nat \<Rightarrow> (nat \<Rightarrow> byte list) \<Rightarrow> (nat \<times> byte list) list" where
  "recover_ws st d = map (\<lambda>i. (get_header (d st) ! i, d (st + i + 1))) [0..<length (get_header (d st))] @
     [(st, put_header [] (d st))]"

text \<open>The disk after recovery, as a function of the disk before.\<close>

definition recovered :: "nat \<Rightarrow> (nat \<Rightarrow> byte list) \<Rightarrow> nat \<Rightarrow> byte list" where
  "recovered st d = apply_writes (recover_ws st d) d"

text \<open>A state in which recovery can run: nothing is cached dirty or in use (the machine has just
  booted) and the header on disk is one that a commit writes.\<close>

definition recover_ready :: "'a log_state_scheme \<Rightarrow> bool" where
  "recover_ready s \<longleftrightarrow> bio_inv s \<and> held s = {} \<and> pinned s = {} \<and> log_geom s \<and>
     header_count (disk s (drive ROOTDEV) (log_start s)) \<le> int LOGSIZE \<and>
     lh_ok s (get_header (disk s (drive ROOTDEV) (log_start s)))"

lemma view_idle: "bio_inv s \<Longrightarrow> held s = {} \<Longrightarrow> pinned s = {} \<Longrightarrow> view s = disk s (drive ROOTDEV)"
  by (rule ext) (simp add: view_unpinned)

lemma read_head_wp:
  assumes "recover_ready s"
  obtains t where "read_head s = Done () (t\<lparr>log_lh := get_header (view s (log_start s))\<rparr>)"
    and "writes_through [] s t"
proof -
  note ready = assms [unfolded recover_ready_def]
  let ?b = "log_start s" and ?h = "get_header (view s (log_start s))"
  have b: "?b < FSSIZE" and dev: "log_dev s = ROOTDEV" using ready by (auto simp: log_geom_def)
  obtain i t where 1: "bread ROOTDEV ?b s = Done i t" "bio_inv t" "owns i ?b t" "bio_rest s t"
    "obs t = (obs s)\<lparr>o_held := {?b}\<rparr>"
    by (rule wpE [OF bc.rd_ok [of s ?b]]) (use ready b in \<open>auto simp: o_room_def\<close>)
  have 2: "buf_data i t = Done (view s ?b) t"
    by (rule wpE [OF bc.get_ok [OF 1(2,3)]]) (simp add: 1(5))
  let ?u = "t\<lparr>log_lh := ?h\<rparr>"
  have cl: "o_clean ?b (obs ?u)" using ready view_idle [of s] by (auto simp: o_clean_def 1(5))
  have u: "bio_inv ?u" "owns i ?b ?u" using 1 by simp_all
  from bc.rel_ok [OF u cl] obtain v where 3: "brelse i ?u = Done () v" "bio_inv v" "bio_rest ?u v"
    "obs v = (obs ?u)\<lparr>o_held := o_held (obs ?u) - {?b}\<rparr>"
    by (rule wp_unitE) blast
  have v: "v\<lparr>log_lh := ?h\<rparr> = v" using bio_rest_log [OF 3(3)] by simp
  have "header_count (view s ?b) \<le> 30" using ready view_idle [of s] by auto
  then have "read_head s = Done () v"
    by (simp add: read_head_def kseq_def kget_def kmodify_def dev 1(1) 2 3(1))
  then have r: "read_head s = Done () ((v\<lparr>log_lh := log_lh s\<rparr>)\<lparr>log_lh := ?h\<rparr>)" by (simp add: v)
  have "bio_rest t (v\<lparr>log_lh := log_lh t\<rparr>)"
    using 3(3) by (cases t; cases v) (simp add: bio_rest_def proc_frame_def)
  then have "bio_rest s (v\<lparr>log_lh := log_lh s\<rparr>)"
    using bio_rest_log(1) [OF 1(4)] bio_rest_trans [OF 1(4)] by simp
  then have "writes_through [] s (v\<lparr>log_lh := log_lh s\<rparr>)"
    using 3 ready by (simp add: writes_through_def 1(5))
  with r show thesis by (rule that)
qed

lemma recover_wp:
  fixes s :: "'a log_state_scheme"
  assumes "recover_ready s"
  shows "wp recover_from_log (\<lambda>_ t. log_lh t = [] \<and>
    writes_through (recover_ws (log_start s) (disk s (drive ROOTDEV))) s (t\<lparr>log_lh := log_lh s\<rparr>)) s"
proof -
  note ready = assms [unfolded recover_ready_def]
  let ?st = "log_start s" and ?d = "disk s (drive ROOTDEV)"
  let ?h = "get_header (?d ?st)"
  have vs: "view s = ?d" using ready by (simp add: view_idle)
  obtain t where 1: "read_head s = Done () (t\<lparr>log_lh := ?h\<rparr>)" and w1: "writes_through [] s t"
    using read_head_wp [OF assms] vs by metis
  note t = writes_throughD [OF w1] and rt = bio_rest_log [OF writes_throughD(2) [OF w1]]
    log_geom_rest [OF writes_throughD(2) [OF w1]]
  let ?t = "t\<lparr>log_lh := ?h\<rparr>"
  have lh: "lh_ok ?t (log_lh ?t)" using ready by (simp add: rt)
  obtain u where 2: "install_trans ?t = Done () u" and w2: "writes_through (home_ws ?t) ?t u"
    by (rule wp_unitE [OF install_trans_wp [of ?t]]) (use ready lh in \<open>auto simp: t rt\<close>)
  have hw: "home_ws ?t = map (\<lambda>i. (?h ! i, ?d (?st + i + 1))) [0..<length ?h]"
    by (simp add: home_ws_def rt t vs)
  note u = writes_throughD [OF w2] and ru = bio_rest_log [OF writes_throughD(2) [OF w2]]
    log_geom_rest [OF writes_throughD(2) [OF w2]]
  have "?st \<notin> fst ` set (home_ws ?t)"
    using lh_okD(2) [of s ?h] ready by (force simp: hw log_area_def log_geom_def)
  then have vu: "view u ?st = ?d ?st" by (simp add: u apply_writes_other t vs)
  let ?u = "u\<lparr>log_lh := []\<rparr>"
  obtain v where 3: "write_head ?u = Done () v" and w3: "writes_through [(?st, put_header [] (?d ?st))] ?u v"
    by (rule wp_unitE [OF write_head_wp [of ?u]])
      (use ready in \<open>auto simp: u(1,5,6) t(5,6) rt ru vu\<close>)
  have "recover_from_log s = Done () v"
    by (simp add: recover_from_log_def kseq_def kmodify_def 1 2 3)
  moreover have "log_lh v = []" using bio_rest_log [OF writes_throughD(2) [OF w3]] by simp
  moreover have "writes_through (recover_ws ?st ?d) s (v\<lparr>log_lh := log_lh s\<rparr>)"
    using writes_through_trans [OF w1 writes_through_lh [OF writes_through_trans [OF w2 writes_through_lh [OF w3]]]]
    by (simp add: recover_ws_def hw rt)
  ultimately show ?thesis by (intro wpI) auto
qed

text \<open>Recovery outside the log area, and what it leaves of the log blocks.\<close>

lemma recovered_home:
  assumes "lh = get_header (d st)" "distinct lh" "i < length lh" "st \<notin> set lh"
  shows "recovered st d (lh ! i) = d (st + i + 1)"
proof -
  let ?ws = "map (\<lambda>i. (lh ! i, d (st + i + 1))) [0..<length lh]"
  have "map fst ?ws = lh" by (rule nth_equalityI) auto
  then have "apply_writes ?ws d (lh ! i) = d (st + i + 1)"
    using assms(2,3) by (intro apply_writes_in) auto
  moreover have "lh ! i \<noteq> st" using assms(3,4) nth_mem by metis
  ultimately show ?thesis by (simp add: recovered_def recover_ws_def assms(1))
qed

lemma recovered_other:
  assumes "b \<notin> set (get_header (d st))" and "b \<noteq> st"
  shows "recovered st d b = d b"
  using assms by (auto simp: recovered_def recover_ws_def intro!: apply_writes_other)

section \<open>Crashes\<close>

text \<open>The disk after a crash that lets the first \<open>k\<close> writes of a sequence through.\<close>

definition crash_disk :: "nat \<Rightarrow> (nat \<times> byte list) list \<Rightarrow> (nat \<Rightarrow> byte list) \<Rightarrow> nat \<Rightarrow> byte list" where
  "crash_disk k ws d = apply_writes (take k ws) d"

text \<open>The log is empty on disk, as between transactions.\<close>

definition log_clear :: "'a log_state_scheme \<Rightarrow> bool" where
  "log_clear s \<longleftrightarrow> header_count (disk s (drive ROOTDEV) (log_start s)) = 0"

lemma log_clear_header: "log_clear s \<Longrightarrow> get_header (disk s (drive ROOTDEV) (log_start s)) = []"
  by (simp add: log_clear_def get_header_def)

lemma lh_ok_u32: "lh_ok s lh \<Longrightarrow> \<forall>b \<in> set lh. b < 2 ^ 32"
  by (auto simp: lh_ok_def)

lemma commit_view_other:
  assumes "commit_ready s" and "b \<notin> set (log_lh s)"
  shows "view s b = disk s (drive ROOTDEV) b"
  using assms by (intro view_unpinned) (auto simp: commit_ready_def)

text \<open>Before the header is written, only log blocks have changed.\<close>

lemma crash_before:
  assumes "commit_ready s" and "k \<le> length (log_lh s)" and "b \<notin> log_area s \<or> b = log_start s"
  shows "crash_disk k (commit_ws s) d b = d b"
proof -
  have "take k (commit_ws s) = take k (log_ws s)"
    using assms(2) by (simp add: commit_ws_def Let_def log_ws_def)
  moreover have "fst ` set (take k (log_ws s)) \<subseteq> fst ` set (log_ws s)"
    using set_take_subset by (intro image_mono)
  ultimately show ?thesis
    using assms(1,3) log_ws_area [of s]
    by (auto simp: crash_disk_def commit_ready_def intro!: apply_writes_other)
qed

text \<open>The disk when the header is on disk and \<open>j\<close> home blocks have been written.\<close>

definition mid_disk :: "nat \<Rightarrow> 'a log_state_scheme \<Rightarrow> nat \<Rightarrow> byte list" where
  "mid_disk j s = apply_writes (map (\<lambda>b. (b, view s b)) (take j (log_lh s)))
     ((apply_writes (log_ws s) (disk s (drive ROOTDEV)))
       (log_start s := put_header (log_lh s) (view s (log_start s))))"

lemma mid_disk_log:
  assumes "commit_ready s"
  shows "mid_disk j s (log_start s) = put_header (log_lh s) (view s (log_start s))"
    and "i < length (log_lh s) \<Longrightarrow> mid_disk j s (log_start s + i + 1) = view s (log_lh s ! i)"
proof -
  note ready = assms [unfolded commit_ready_def]
  have sub: "set (take j (log_lh s)) \<inter> log_area s = {}"
    using ready set_take_subset [of j "log_lh s"] by (auto simp: lh_ok_def)
  have "log_start s \<in> log_area s" using ready by (auto simp: log_area_def log_geom_def)
  then show "mid_disk j s (log_start s) = put_header (log_lh s) (view s (log_start s))"
    unfolding mid_disk_def using sub by (subst apply_writes_other) auto
  assume i: "i < length (log_lh s)"
  then have "log_start s + i + 1 \<in> log_area s" using ready lh_okD(3) by blast
  then show "mid_disk j s (log_start s + i + 1) = view s (log_lh s ! i)"
    unfolding mid_disk_def using sub i
    by (subst apply_writes_other) (auto simp: apply_log_ws [simplified])
qed

lemma mid_disk_fs:
  assumes "commit_ready s" and "b \<notin> log_area s"
  shows "mid_disk j s b = (if b \<in> set (take j (log_lh s)) then view s b else disk s (drive ROOTDEV) b)"
proof (cases "b \<in> set (take j (log_lh s))")
  case True
  have "distinct (take j (log_lh s))" using assms(1) by (simp add: commit_ready_def lh_ok_def)
  with True show ?thesis
    unfolding mid_disk_def by (subst apply_writes_in [of _ b "view s b"]) (auto simp: comp_def)
next
  case False
  have "b \<noteq> log_start s"
    using assms by (auto simp: commit_ready_def log_area_def log_geom_def)
  moreover have "b \<notin> fst ` set (log_ws s)"
    using assms log_ws_area [of s] by (auto simp: commit_ready_def)
  ultimately show ?thesis
    unfolding mid_disk_def using False by (subst apply_writes_other) (auto simp: apply_writes_other)
qed

lemma crash_mid:
  assumes "j \<le> length (log_lh s)"
  shows "crash_disk (length (log_lh s) + 1 + j) (commit_ws s) (disk s (drive ROOTDEV)) = mid_disk j s"
  using assms by (simp add: crash_disk_def commit_ws_def Let_def log_ws_def mid_disk_def take_map)

lemma crash_after:
  assumes "k \<ge> 2 * length (log_lh s) + 2"
  shows "crash_disk k (commit_ws s) (disk s (drive ROOTDEV)) =
    (mid_disk (length (log_lh s)) s)(log_start s := put_header [] (put_header (log_lh s) (view s (log_start s))))"
  using assms by (simp add: crash_disk_def commit_ws_def Let_def log_ws_def mid_disk_def)

lemma commit_ready_start:
  "commit_ready s \<Longrightarrow> log_start s \<in> log_area s \<and> log_start s \<notin> set (log_lh s)"
  by (auto simp: commit_ready_def log_area_def log_geom_def lh_ok_def)

lemma recovered_mid:
  assumes "commit_ready s" and "b \<notin> log_area s"
  shows "recovered (log_start s) (mid_disk j s) b = view s b"
proof -
  note ready = assms(1) [unfolded commit_ready_def] and st = commit_ready_start [OF assms(1)]
  have len: "length (log_lh s) \<le> LOGSIZE" using commit_readyD [OF assms(1)] by simp
  have h: "get_header (mid_disk j s (log_start s)) = log_lh s"
    using ready len lh_ok_u32 [of s "log_lh s"] by (simp add: mid_disk_log(1) [OF assms(1)])
  show ?thesis
  proof (cases "b \<in> set (log_lh s)")
    case True
    then obtain i where i: "i < length (log_lh s)" "b = log_lh s ! i" by (auto simp: in_set_conv_nth)
    then have "recovered (log_start s) (mid_disk j s) b = mid_disk j s (log_start s + i + 1)"
      using recovered_home [of "log_lh s" "mid_disk j s" "log_start s" i] h ready st
      by (simp add: lh_ok_def)
    then show ?thesis using mid_disk_log(2) [OF assms(1)] i by simp
  next
    case False
    then have "recovered (log_start s) (mid_disk j s) b = mid_disk j s b"
      using h assms(2) st by (intro recovered_other) auto
    then show ?thesis
      using False mid_disk_fs [OF assms] commit_view_other [OF assms(1) False]
      by (auto dest: in_set_takeD)
  qed
qed

lemma crash_atomic:
  fixes s :: "'a log_state_scheme"
  assumes ready: "commit_ready s" and "log_clear s"
    and d: "d = crash_disk k (commit_ws s) (disk s (drive ROOTDEV))"
  shows "header_count (d (log_start s)) \<le> int LOGSIZE" (is ?A)
    and "lh_ok s (get_header (d (log_start s)))" (is ?B)
    and "\<And>b. b \<notin> log_area s \<Longrightarrow> recovered (log_start s) d b =
      (if k \<le> length (log_lh s) then disk s (drive ROOTDEV) b else view s b)"
proof -
  note rdy = ready [unfolded commit_ready_def] and st = commit_ready_start [OF ready]
  let ?n = "length (log_lh s)"
  have len: "?n \<le> LOGSIZE" using commit_readyD [OF ready] by simp
  have nil: "lh_ok s []" using rdy by (simp add: lh_ok_def log_geom_def)
  consider "k \<le> ?n" | "?n < k" "k < 2 * ?n + 2" | "k \<ge> 2 * ?n + 2" by linarith
  then have "?A \<and> ?B \<and> (\<forall>b. b \<notin> log_area s \<longrightarrow> recovered (log_start s) d b =
      (if k \<le> ?n then disk s (drive ROOTDEV) b else view s b))"
  proof cases
    case 1
    have same: "d b = disk s (drive ROOTDEV) b" if "b \<notin> log_area s \<or> b = log_start s" for b
      using crash_before [OF ready 1 that] d by simp
    then have h: "get_header (d (log_start s)) = []" "header_count (d (log_start s)) = 0"
      using assms(2) log_clear_header [OF assms(2)] by (simp_all add: log_clear_def)
    moreover have "recovered (log_start s) d b = disk s (drive ROOTDEV) b" if "b \<notin> log_area s" for b
      using recovered_other [of b d "log_start s"] h same that st by auto
    ultimately show ?thesis using nil 1 by simp
  next
    case 2
    define j where "j = k - ?n - 1"
    then have j: "j \<le> ?n" "k = ?n + 1 + j" using 2 by auto
    then have dm: "d = mid_disk j s" using d crash_mid by metis
    then show ?thesis
      using 2 rdy len lh_ok_u32 [of s "log_lh s"] recovered_mid [OF ready]
      by (simp add: mid_disk_log(1) [OF ready])
  next
    case 3
    have dm: "d = (mid_disk ?n s)(log_start s := put_header [] (put_header (log_lh s) (view s (log_start s))))"
      using d crash_after [OF 3] by simp
    then have h: "get_header (d (log_start s)) = []" "header_count (d (log_start s)) = 0"
      using rdy len by simp_all
    have "recovered (log_start s) d b = view s b" if b: "b \<notin> log_area s" for b
    proof -
      have "recovered (log_start s) d b = d b" using h b st by (intro recovered_other) auto
      also have "\<dots> = mid_disk ?n s b" using b st by (auto simp: dm)
      also have "\<dots> = view s b"
        using mid_disk_fs [OF ready b, of ?n] commit_view_other [OF ready, of b] by simp
      finally show ?thesis .
    qed
    then show ?thesis using h nil 3 by auto
  qed
  then show ?A ?B "\<And>b. b \<notin> log_area s \<Longrightarrow> recovered (log_start s) d b =
      (if k \<le> ?n then disk s (drive ROOTDEV) b else view s b)" by blast+
qed

text \<open>The machine after a reboot: the cache is empty of dirty and used buffers, the log has the same
  place on disk.\<close>

definition rebooted :: "'a log_state_scheme \<Rightarrow> 'a log_state_scheme \<Rightarrow> bool" where
  "rebooted s u \<longleftrightarrow> bio_inv u \<and> held u = {} \<and> pinned u = {} \<and> log_start u = log_start s \<and>
     log_size u = log_size s \<and> log_dev u = log_dev s"

lemma rebooted_geom:
  "rebooted s u \<Longrightarrow> log_geom u = log_geom s \<and> log_area u = log_area s \<and> lh_ok u = lh_ok s"
  by (simp add: rebooted_def log_geom_def log_area_def lh_ok_def fun_eq_iff)

lemma recover_disk:
  fixes s :: "'a log_state_scheme"
  assumes "recover_ready s"
  shows "wp recover_from_log (\<lambda>_ t. disk t (drive ROOTDEV) = recovered (log_start s) (disk s (drive ROOTDEV)) \<and>
    view t = disk t (drive ROOTDEV) \<and> log_lh t = [] \<and> log_clear t \<and> pinned t = {} \<and> held t = {} \<and> bio_inv t \<and>
    log_geom t \<and> log_area t = log_area s) s"
proof (rule wp_mono [OF recover_wp [OF assms]], elim conjE)
  fix t :: "'a log_state_scheme"
  let ?t = "t\<lparr>log_lh := log_lh s\<rparr>" and ?st = "log_start s" and ?d = "disk s (drive ROOTDEV)"
  assume l: "log_lh t = []" and w: "writes_through (recover_ws ?st ?d) s ?t"
  note rdy = assms [unfolded recover_ready_def]
  note t = writes_throughD [OF w, simplified] and rt = bio_rest_log [OF writes_throughD(2) [OF w], simplified]
  note gt = log_geom_rest [OF writes_throughD(2) [OF w], simplified]
  have d: "disk t (drive ROOTDEV) = recovered ?st ?d" by (simp add: t recovered_def)
  moreover have e: "held t = {}" "pinned t = {}" using rdy by (auto simp: t)
  moreover have "view t = disk t (drive ROOTDEV)" using t(1) e by (simp add: view_idle)
  moreover have "length (?d ?st) = BSIZE" using rdy by (simp add: bio_inv_def)
  then have "log_clear t" by (simp add: log_clear_def d rt recovered_def recover_ws_def)
  ultimately show "disk t (drive ROOTDEV) = recovered ?st ?d \<and> view t = disk t (drive ROOTDEV) \<and>
      log_lh t = [] \<and> log_clear t \<and> pinned t = {} \<and> held t = {} \<and> bio_inv t \<and>
      log_geom t \<and> log_area t = log_area s"
    using l t(1) rdy gt by simp
qed

text \<open>A concrete machine for the examples: one running process, thirty clean buffers over a zeroed
  disk, the log in blocks 2 to 31; the second state has a logged block, 100, in buffer 0.\<close>

definition empty_buf :: buf where
  "empty_buf = \<lparr>b_valid = False, b_dirty = False, b_dev = 0, b_blockno = 0,
     b_lock = \<lparr>sl_locked = False, sl_pid = 0\<rparr>, b_refcnt = 0, b_data = replicate BSIZE 0\<rparr>"

definition demo_boot :: log_state where
  "demo_boot = log_state.make (\<lambda>_. 0) 0 False 0 demo_ptable 2 0 0 0 0 (\<lambda>_ _. replicate BSIZE 0) [] True []
     (\<lambda>_. empty_buf) [0..<NBUF] 2 30 0 False ROOTDEV []"

definition demo_txn :: log_state where
  "demo_txn = demo_boot\<lparr>log_lh := [100], log_outstanding := 0,
     bufs := (\<lambda>_. empty_buf)(0 := empty_buf\<lparr>b_valid := True, b_dirty := True, b_dev := ROOTDEV,
       b_blockno := 100, b_data := replicate BSIZE 7\<rparr>)\<rparr>"

lemma ROOTDEV_neq0 [simp]: "ROOTDEV \<noteq> 0" "0 \<noteq> ROOTDEV"
  by (simp_all add: ROOTDEV_def)

lemma demo_boot_idle: "bio_inv demo_boot" "held demo_boot = {}" "pinned demo_boot = {}"
  by (auto simp: demo_boot_def log_state.defs bio_inv_def buf_ok_def empty_buf_def held_def pinned_def)

lemma demo_txn_ready: "commit_ready demo_txn" "log_clear demo_txn" "log_lh demo_txn = [100]"
  "log_start demo_txn = 2" "rebooted demo_txn demo_boot"
proof -
  have "bio_inv demo_txn" "held demo_txn = {}" "pinned demo_txn = {100}"
    by (auto simp: demo_txn_def demo_boot_def log_state.defs bio_inv_def buf_ok_def empty_buf_def
        held_def pinned_def)
  moreover have "log_geom demo_txn" "lh_ok demo_txn [100]"
    by (simp_all add: demo_txn_def demo_boot_def log_state.defs log_geom_def lh_ok_def log_area_def)
  moreover show "log_lh demo_txn = [100]" "log_start demo_txn = 2"
    by (simp_all add: demo_txn_def demo_boot_def log_state.defs)
  ultimately show "commit_ready demo_txn" by (simp add: commit_ready_def)
  show "log_clear demo_txn"
    by (simp add: log_clear_def header_count_def demo_txn_def demo_boot_def log_state.defs)
  show "rebooted demo_txn demo_boot"
    using demo_boot_idle by (simp add: rebooted_def demo_txn_def demo_boot_def log_state.defs)
qed

lemma apply_writes_agree:
  "(\<And>b. b \<notin> fst ` set ws \<Longrightarrow> f b = g b) \<Longrightarrow> apply_writes ws f = apply_writes ws g"
proof (induction ws arbitrary: f g)
  case (Cons w ws)
  show ?case using Cons.prems by (auto intro!: Cons.IH)
qed auto

lemma put_header_Nil_idem [simp]:
  "length d = BSIZE \<Longrightarrow> put_header [] (put_header [] d) = put_header [] d"
  by (simp add: put_header_def enc_u32s_def) (simp add: bsplice_def)

lemma recovered_crash:
  assumes "distinct (get_header (d st))" "st \<notin> set (get_header (d st))" "length (d st) = BSIZE"
    and log: "\<And>i. i < length (get_header (d st)) \<Longrightarrow> st + i + 1 \<notin> set (get_header (d st))"
  shows "recovered st (crash_disk j (recover_ws st d) d) = recovered st d"
proof -
  let ?lh = "get_header (d st)"
  let ?hs = "map (\<lambda>i. (?lh ! i, d (st + i + 1))) [0..<length ?lh]"
  have hs: "fst ` set ?hs = set ?lh" by (force simp: in_set_conv_nth)
  show ?thesis
  proof (cases "j \<le> length ?lh")
    case True
    define e where "e = crash_disk j (recover_ws st d) d"
    have e: "e = apply_writes (take j ?hs) d" using True by (simp add: e_def crash_disk_def recover_ws_def)
    have "fst ` set (take j ?hs) \<subseteq> set ?lh" using hs set_take_subset by fastforce
    then have same: "e b = d b" if "b \<notin> set ?lh" for b
      using that unfolding e by (intro apply_writes_other) auto
    have "recover_ws st e = recover_ws st d"
      using same assms(2) log by (simp add: recover_ws_def)
    moreover have "apply_writes (recover_ws st d) e = apply_writes (recover_ws st d) d"
      using same hs by (intro apply_writes_agree) (auto simp: recover_ws_def image_Un)
    ultimately show ?thesis by (simp add: recovered_def flip: e_def)
  next
    case False
    then have e: "crash_disk j (recover_ws st d) d = recovered st d"
      by (simp add: crash_disk_def recover_ws_def recovered_def)
    have st: "recovered st d st = put_header [] (d st)" by (simp add: recovered_def recover_ws_def)
    then have "recover_ws st (recovered st d) = [(st, recovered st d st)]"
      using assms(3) by (simp add: recover_ws_def)
    then have "apply_writes (recover_ws st (recovered st d)) (recovered st d) = recovered st d"
      by simp
    then show ?thesis by (simp add: e) (simp add: recovered_def)
  qed
qed

lemma recover_crash_header:
  assumes "st \<notin> set (get_header (d st))"
  shows "crash_disk j (recover_ws st d) d st \<in> {d st, put_header [] (d st)}"
proof (cases "j \<le> length (get_header (d st))")
  case True
  let ?hs = "map (\<lambda>i. (get_header (d st) ! i, d (st + i + 1))) [0..<length (get_header (d st))]"
  have "fst ` set (take j ?hs) \<subseteq> fst ` set ?hs" using set_take_subset by fast
  also have "\<dots> = set (get_header (d st))" by (force simp: in_set_conv_nth)
  finally have "st \<notin> fst ` set (take j ?hs)" using assms by auto
  then show ?thesis using True by (simp add: crash_disk_def recover_ws_def apply_writes_other)
qed (simp add: crash_disk_def recover_ws_def)

lemma recover_crash_ready:
  assumes "recover_ready s" and "rebooted s u"
    and "disk u (drive ROOTDEV) = crash_disk j (recover_ws (log_start s) (disk s (drive ROOTDEV))) (disk s (drive ROOTDEV))"
  shows "recover_ready u"
proof -
  note rdy = assms(1) [unfolded recover_ready_def]
  let ?d = "disk s (drive ROOTDEV)"
  have "log_start s \<in> log_area s" using rdy by (auto simp: log_area_def log_geom_def)
  then have "log_start s \<notin> set (get_header (?d (log_start s)))" using rdy by (auto simp: lh_ok_def)
  then have "disk u (drive ROOTDEV) (log_start s) \<in> {?d (log_start s), put_header [] (?d (log_start s))}"
    unfolding assms(3) by (rule recover_crash_header)
  moreover have "lh_ok s []" "length (?d (log_start s)) = BSIZE"
    using rdy by (simp_all add: lh_ok_def log_geom_def bio_inv_def)
  ultimately show ?thesis
    using rdy rebooted_geom [OF assms(2)] assms(2) by (auto simp: recover_ready_def rebooted_def)
qed

section \<open>Properties of the log\<close>

text \<open>C1: Commits are atomic across crashes.  \<open>commit\<close> returns and performs one sequence of disk writes;
  whatever prefix of it reaches the disk before the machine stops, running \<open>recover_from_log\<close> after
  the reboot returns, leaves the log empty, and leaves every block outside the log with its contents
  from before the transaction, or every one with its contents after it (the latter exactly when the
  header write got through).\<close>

theorem commit_crash_safe:
  fixes s :: "'a log_state_scheme"
  assumes "commit_ready s" and "log_clear s" and "log_lh s \<noteq> []"
  shows "\<exists>t ws. commit s = Done () t \<and> disk_writes t = disk_writes s @ map (Pair (drive ROOTDEV)) ws \<and>
    (\<forall>k u. rebooted s u \<and> disk u (drive ROOTDEV) = crash_disk k ws (disk s (drive ROOTDEV)) \<longrightarrow>
      wp recover_from_log (\<lambda>_ v. log_clear v \<and> (\<forall>b. b \<notin> log_area s \<longrightarrow> disk v (drive ROOTDEV) b =
        (if k \<le> length (log_lh s) then disk s (drive ROOTDEV) b else view s b))) u)"
proof -
  obtain t where t: "commit s = Done () t" and w: "writes_through (commit_ws s) s (t\<lparr>log_lh := log_lh s\<rparr>)"
    by (rule wp_unitE [OF commit_wp [OF assms(1,3)]]) blast
  have rec: "wp recover_from_log (\<lambda>_ v. log_clear v \<and> (\<forall>b. b \<notin> log_area s \<longrightarrow> disk v (drive ROOTDEV) b =
      (if k \<le> length (log_lh s) then disk s (drive ROOTDEV) b else view s b))) u"
    if u: "rebooted s u" and d: "disk u (drive ROOTDEV) = crash_disk k (commit_ws s) (disk s (drive ROOTDEV))"
    for k and u :: "'a log_state_scheme"
  proof -
    note at = crash_atomic [OF assms(1,2) d]
    have "recover_ready u"
      using u at(1,2) rebooted_geom [OF u] assms(1)
      by (simp add: recover_ready_def rebooted_def commit_ready_def)
    from recover_disk [OF this] show ?thesis
      by (rule wp_mono) (use u at(3) in \<open>simp add: rebooted_def\<close>)
  qed
  show ?thesis
    by (intro exI [of _ t] exI [of _ "commit_ws s"] conjI t allI impI rec)
      (use writes_throughD(7) [OF w] in auto)
qed

theorem commit_crash_safe_witness:
  "\<exists>t ws. commit demo_txn = Done () t \<and>
    disk_writes t = disk_writes demo_txn @ map (Pair (drive ROOTDEV)) ws \<and>
    (\<forall>k u. rebooted demo_txn u \<and> disk u (drive ROOTDEV) = crash_disk k ws (disk demo_txn (drive ROOTDEV)) \<longrightarrow>
      wp recover_from_log (\<lambda>_ v. log_clear v \<and> (\<forall>b. b \<notin> log_area demo_txn \<longrightarrow> disk v (drive ROOTDEV) b =
        (if k \<le> 1 then disk demo_txn (drive ROOTDEV) b else view demo_txn b))) u)"
  using commit_crash_safe [of demo_txn] by (simp add: demo_txn_ready)

lemma commit_done:
  fixes s :: "'a log_state_scheme"
  assumes "commit_ready s" and "log_lh s \<noteq> []"
  shows "wp commit (\<lambda>_ t. bio_rest s (t\<lparr>log_lh := log_lh s\<rparr>) \<and> (\<forall>b. b \<notin> log_area s \<longrightarrow> disk t (drive ROOTDEV) b = view s b \<and> view t b = view s b) \<and>
    pinned t = {} \<and> held t = {} \<and> log_lh t = [] \<and> log_clear t \<and> bio_inv t) s"
proof (rule wp_mono [OF commit_wp [OF assms]], elim conjE)
  fix t :: "'a log_state_scheme"
  assume l: "log_lh t = []" and w: "writes_through (commit_ws s) s (t\<lparr>log_lh := log_lh s\<rparr>)"
  note t = writes_throughD [OF w, simplified] and rt = bio_rest_log [OF writes_throughD(2) [OF w], simplified]
  note rdy = assms(1) [unfolded commit_ready_def] and st = commit_ready_start [OF assms(1)]
  let ?n = "length (log_lh s)"
  have dt: "disk t (drive ROOTDEV) = (mid_disk ?n s)
      (log_start s := put_header [] (put_header (log_lh s) (view s (log_start s))))"
    using crash_after [of s "length (commit_ws s)"] t(4)
    by (simp add: crash_disk_def) (simp add: commit_ws_def log_ws_def Let_def)
  have e: "held t = {}" "pinned t = {}"
    using rdy by (auto simp: t commit_ws_def Let_def image_Un image_image)
  have v: "view t = disk t (drive ROOTDEV)" using t(1) e by (simp add: view_idle)
  have "disk t (drive ROOTDEV) b = view s b" if b: "b \<notin> log_area s" for b
    using b st mid_disk_fs [OF assms(1) b, of ?n] commit_view_other [OF assms(1), of b] by (auto simp: dt)
  moreover have "log_clear t" using rdy commit_readyD [OF assms(1)] by (simp add: log_clear_def dt rt)
  ultimately show "bio_rest s (t\<lparr>log_lh := log_lh s\<rparr>) \<and> (\<forall>b. b \<notin> log_area s \<longrightarrow> disk t (drive ROOTDEV) b = view s b \<and> view t b = view s b) \<and>
      pinned t = {} \<and> held t = {} \<and> log_lh t = [] \<and> log_clear t \<and> bio_inv t"
    using e v l t(1,2) by auto
qed

text \<open>C2: A commit that is not interrupted makes the transaction durable: afterwards the disk holds, for
  every block outside the log, exactly what readers saw when the commit started, readers see no
  change, no buffer is dirty, and the log is empty both in memory and on disk.\<close>

theorem commit_durable:
  fixes s :: "'a log_state_scheme"
  assumes "commit_ready s" and "log_lh s \<noteq> []"
  shows "wp commit (\<lambda>_ t. (\<forall>b. b \<notin> log_area s \<longrightarrow> disk t (drive ROOTDEV) b = view s b \<and> view t b = view s b) \<and>
    pinned t = {} \<and> held t = {} \<and> log_lh t = [] \<and> log_clear t \<and> bio_inv t) s"
  by (rule wp_mono [OF commit_done [OF assms]]) blast

theorem commit_durable_witness:
  "wp commit (\<lambda>_ t. (\<forall>b. b \<notin> log_area demo_txn \<longrightarrow>
      disk t (drive ROOTDEV) b = view demo_txn b \<and> view t b = view demo_txn b) \<and>
    pinned t = {} \<and> held t = {} \<and> log_lh t = [] \<and> log_clear t \<and> bio_inv t) demo_txn"
  by (rule commit_durable) (simp_all add: demo_txn_ready)

text \<open>C3: Recovery may itself be interrupted, any number of times.  \<open>recover_from_log\<close> performs one
  sequence of disk writes; after a crash that lets any prefix of it through, running recovery again
  gives exactly the disk that the first run would have given.\<close>

theorem recover_idempotent:
  fixes s :: "'a log_state_scheme"
  assumes "recover_ready s"
  shows "\<exists>t ws. recover_from_log s = Done () t \<and>
    disk_writes t = disk_writes s @ map (Pair (drive ROOTDEV)) ws \<and>
    (\<forall>k u. rebooted s u \<and> disk u (drive ROOTDEV) = crash_disk k ws (disk s (drive ROOTDEV)) \<longrightarrow>
      wp recover_from_log (\<lambda>_ v. disk v (drive ROOTDEV) = disk t (drive ROOTDEV)) u)"
proof -
  let ?st = "log_start s" and ?d = "disk s (drive ROOTDEV)"
  note rdy = assms [unfolded recover_ready_def]
  obtain t where t: "recover_from_log s = Done () t"
    and w: "writes_through (recover_ws ?st ?d) s (t\<lparr>log_lh := log_lh s\<rparr>)"
    by (rule wp_unitE [OF recover_wp [OF assms]]) blast
  have dt: "disk t (drive ROOTDEV) = recovered ?st ?d"
    using writes_throughD(4) [OF w] by (simp add: recovered_def)
  have st: "?st \<in> log_area s" using rdy by (auto simp: log_area_def log_geom_def)
  have "recovered ?st (crash_disk k (recover_ws ?st ?d) ?d) = recovered ?st ?d" for k
  proof (rule recovered_crash)
    show "?st + i + 1 \<notin> set (get_header (?d ?st))" if "i < length (get_header (?d ?st))" for i
      using lh_okD(3) [of s _ i] that rdy by (auto simp: lh_ok_def)
  qed (use rdy st in \<open>auto simp: lh_ok_def bio_inv_def\<close>)
  then have rec: "wp recover_from_log (\<lambda>_ v. disk v (drive ROOTDEV) = disk t (drive ROOTDEV)) u"
    if "rebooted s u \<and> disk u (drive ROOTDEV) = crash_disk k (recover_ws ?st ?d) ?d"
    for k and u :: "'a log_state_scheme"
    using that recover_crash_ready [OF assms, of u k]
    by (intro wp_mono [OF recover_disk [of u]]) (auto simp: rebooted_def dt)
  show ?thesis
    by (intro exI [of _ t] exI [of _ "recover_ws ?st ?d"] conjI t allI impI rec)
      (use writes_throughD(7) [OF w] in auto)
qed

text \<open>A disk with a committed transaction in the log: block 100 is to receive the contents of log block 3.\<close>

definition demo_crashed :: log_state where
  "demo_crashed = demo_boot\<lparr>disk := (\<lambda>_. (\<lambda>_. replicate BSIZE 0)
     (2 := put_header [100] (replicate BSIZE 0), 3 := replicate BSIZE 7))\<rparr>"

lemma demo_crashed_ready: "recover_ready demo_crashed"
proof -
  have "bio_inv demo_crashed" "held demo_crashed = {}" "pinned demo_crashed = {}"
    by (auto simp: demo_crashed_def demo_boot_def log_state.defs bio_inv_def buf_ok_def empty_buf_def
        held_def pinned_def)
  moreover have "log_geom demo_crashed" "lh_ok demo_crashed [100]"
    by (simp_all add: demo_crashed_def demo_boot_def log_state.defs log_geom_def lh_ok_def log_area_def)
  ultimately show ?thesis
    by (simp add: recover_ready_def) (simp add: demo_crashed_def demo_boot_def log_state.defs)
qed

theorem recover_idempotent_witness:
  "\<exists>t ws. recover_from_log demo_crashed = Done () t \<and>
    disk_writes t = disk_writes demo_crashed @ map (Pair (drive ROOTDEV)) ws \<and>
    (\<forall>k u. rebooted demo_crashed u \<and>
        disk u (drive ROOTDEV) = crash_disk k ws (disk demo_crashed (drive ROOTDEV)) \<longrightarrow>
      wp recover_from_log (\<lambda>_ v. disk v (drive ROOTDEV) = disk t (drive ROOTDEV)) u)"
  by (rule recover_idempotent [OF demo_crashed_ready])

end
