(* ===== verification/Trans.thy ===== *)
theory Trans
  imports Log
begin

text \<open>
  Transactions: what file system code sees of the log.  Between \<open>begin_op\<close> and \<open>end_op\<close> it reads
  blocks, changes them and calls \<open>log_write\<close>; \<open>tx_inv\<close> is the invariant of the cache and the log whenever no
  commit is running.  \<open>tx_to v l s t\<close> says that a
  piece of such code took \<open>s\<close> to \<open>t\<close>, where readers see the blocks \<open>v\<close> and the log holds \<open>l\<close>; the rules
  \<open>tx_open\<close>, \<open>tx_update\<close> and \<open>tx_close\<close> derive it for the sequences of calls the code is made of.
\<close>

section \<open>Invariant\<close>

definition tx_inv :: "'a log_state_scheme \<Rightarrow> bool" where
  "tx_inv s \<longleftrightarrow> bio_inv s \<and> log_geom s \<and> lh_ok s (log_lh s) \<and> pinned s = set (log_lh s)"

text \<open>Everything outside the cache, the disk and the in-memory log header.\<close>

definition tx_rest :: "'a log_state_scheme \<Rightarrow> 'a log_state_scheme \<Rightarrow> bool" where
  "tx_rest s t \<longleftrightarrow> bio_rest s (t\<lparr>log_lh := log_lh s\<rparr>)"

lemma tx_rest_refl [simp, intro]: "tx_rest s s"
  by (simp add: tx_rest_def)

lemma bio_rest_tx: "bio_rest s t \<Longrightarrow> tx_rest s t"
  by (simp add: tx_rest_def flip: bio_rest_log(1))

lemma tx_restD:
  assumes "tx_rest s t"
  shows "proc_frame s t" "log_start t = log_start s" "log_size t = log_size s" "log_dev t = log_dev s"
    "log_outstanding t = log_outstanding s" "log_committing t = log_committing s"
    "log_state.more t = log_state.more s"
  using assms by (cases s; cases t; simp add: tx_rest_def bio_rest_def proc_frame_def)+

lemma tx_restI:
  assumes "proc_frame s t" "log_start t = log_start s" "log_size t = log_size s" "log_dev t = log_dev s"
    "log_outstanding t = log_outstanding s" "log_committing t = log_committing s"
    "log_state.more t = log_state.more s"
  shows "tx_rest s t"
  using assms by (cases s; cases t; simp add: tx_rest_def bio_rest_def proc_frame_def)

lemma tx_rest_trans [trans]:
  assumes "tx_rest s t" and "tx_rest t u"
  shows "tx_rest s u"
  using tx_restD [OF assms(1)] tx_restD [OF assms(2)]
  by (intro tx_restI) (auto intro: proc_frame_trans)

lemma tx_rest_geom:
  assumes "tx_rest s t"
  shows "log_geom t = log_geom s" "log_area t = log_area s" "lh_ok t = lh_ok s"
  using tx_restD [OF assms] by (simp_all add: log_geom_def log_area_def lh_ok_def fun_eq_iff)

lemma tx_inv_length: "tx_inv s \<Longrightarrow> length (log_lh s) < log_size s \<and> log_size s \<le> LOGSIZE"
  by (simp add: tx_inv_def lh_ok_def log_geom_def)

text \<open>The header after logging a block: absorbed if it is already there.\<close>

definition add_log :: "nat \<Rightarrow> nat list \<Rightarrow> nat list" where
  "add_log b lh = (if b \<in> set lh then lh else lh @ [b])"

lemma set_add_log [simp]: "set (add_log b lh) = insert b (set lh)"
  by (auto simp: add_log_def)

lemma distinct_add_log [simp]: "distinct lh \<Longrightarrow> distinct (add_log b lh)"
  by (simp add: add_log_def)

lemma length_add_log: "length (add_log b lh) \<le> length lh + 1"
  by (simp add: add_log_def)

text \<open>A transaction is open and the log has room for \<open>k\<close> more blocks.\<close>

definition log_room :: "nat \<Rightarrow> 'a log_state_scheme \<Rightarrow> bool" where
  "log_room k s \<longleftrightarrow> log_outstanding s \<ge> 1 \<and> length (log_lh s) + k < log_size s"

section \<open>log_write\<close>

lemma log_write_eq:
  "log_write i s =
     (if length (log_lh s) \<ge> LOGSIZE \<or> int (length (log_lh s)) \<ge> int (log_size s) - 1
        then Panic ''too big a transaction''
      else if log_outstanding s < 1 then Panic ''log_write outside of trans''
      else Done () (upd_buf i (\<lambda>b. b\<lparr>b_dirty := True\<rparr>)
        (s\<lparr>log_lh := add_log (b_blockno (bufs s i)) (log_lh s)\<rparr>)))"
  by (simp add: log_write_def add_log_def kernel_defs)

lemma log_write_wp:
  assumes "tx_inv s" "owns i b s" "b \<notin> log_area s" "log_room 1 s"
  shows "wp (log_write i) (\<lambda>_ t. tx_inv t \<and> obs t = (obs s)\<lparr>o_pinned := insert b (pinned s)\<rparr> \<and>
    log_lh t = add_log b (log_lh s) \<and> tx_rest s t \<and> (\<forall>j c. owns j c s \<longrightarrow> owns j c t)) s"
proof -
  note inv = assms(1) [unfolded tx_inv_def] and len = tx_inv_length [OF assms(1)]
  have h: "holds i b s" and b: "b < FSSIZE" using assms(2) by (auto simp: owns_def)
  have i: "i < NBUF" "b_blockno (bufs s i) = b" "b_dev (bufs s i) = ROOTDEV" "b_valid (bufs s i)"
    "b_refcnt (bufs s i) = 1" using h by (auto simp: holds_def)
  let ?u = "s\<lparr>log_lh := add_log b (log_lh s)\<rparr>"
  let ?t = "upd_buf i (\<lambda>b. b\<lparr>b_dirty := True\<rparr>) ?u"
  have d: "log_write i s = Done () ?t"
    using len assms(4) inv i by (simp add: log_write_eq log_room_def)
  have bt: "bufs ?t = (bufs s)(i := (bufs s i)\<lparr>b_dirty := True\<rparr>)" by simp
  have same: "lru ?t = lru s" "disk ?t = disk s" "disk_writes ?t = disk_writes s"
    "idequeue ?t = idequeue s" "havedisk1 ?t = havedisk1 s" "p_pid (myproc ?t) = p_pid (myproc s)"
    by (simp_all add: upd_buf_def myproc_def)
  have invt: "bio_inv ?t"
    using inv i unfolding bio_inv_def buf_ok_def same bt by (auto split: if_splits)
  have vt: "view ?t = view s"
  proof -
    have "view ?t = (view s)(b := b_data ((bufs s i)\<lparr>b_dirty := True\<rparr>))"
      by (rule upd_held_view [OF _ invt h bt]) (use inv i in \<open>simp_all add: same\<close>)
    also have "\<dots> = view s" using view_holds [OF _ h] inv by (simp add: fun_eq_iff)
    finally show ?thesis .
  qed
  have sets: "held ?t = held s" "pinned ?t = insert b (pinned s)"
    using upd_held_sets [OF h _ bt] inv i by simp_all
  have ot: "obs ?t = (obs s)\<lparr>o_pinned := insert b (pinned s)\<rparr>"
    by (simp add: obs_def vt sets)
  have lh: "log_lh ?t = add_log b (log_lh s)" by (simp add: upd_buf_def)
  have rest: "tx_rest s ?t" by (rule tx_restI) (simp_all add: upd_buf_def proc_frame_def)
  have "lh_ok s (add_log b (log_lh s))"
    using inv assms(3,4) b length_add_log [of b "log_lh s"] by (auto simp: lh_ok_def log_room_def)
  then have "tx_inv ?t"
    using inv invt sets tx_rest_geom [OF rest] tx_restD(5) [OF rest] lh by (simp add: tx_inv_def)
  moreover have "owns j c ?t" if "owns j c s" for j c
    using that by (auto simp: owns_def holds_def same bt myproc_def)
  ultimately show ?thesis using d ot lh rest by (intro wpI) auto
qed

section \<open>Reading and updating blocks in a transaction\<close>

definition tx_to :: "(nat \<Rightarrow> byte list) \<Rightarrow> nat list \<Rightarrow> 'a log_state_scheme \<Rightarrow> 'a log_state_scheme \<Rightarrow> bool" where
  "tx_to v l s t \<longleftrightarrow> tx_inv t \<and> obs t = (obs s)\<lparr>o_view := v, o_pinned := set l\<rparr> \<and> log_lh t = l \<and>
     tx_rest s t \<and> (\<forall>j c. owns j c s \<longrightarrow> owns j c t)"

lemma tx_toD:
  assumes "tx_to v l s t"
  shows "tx_inv t" "view t = v" "log_lh t = l" "held t = held s" "pinned t = set l"
    "disk t (drive ROOTDEV) = disk s (drive ROOTDEV)" "disk_writes t = disk_writes s" "tx_rest s t"
    "log_area t = log_area s" "log_room k t \<longleftrightarrow> log_outstanding s \<ge> 1 \<and> length l + k < log_size s" "owns j c s \<Longrightarrow> owns j c t"
proof -
  have o: "obs t = (obs s)\<lparr>o_view := v, o_pinned := set l\<rparr>" and l: "log_lh t = l" and r: "tx_rest s t"
    using assms by (simp_all add: tx_to_def)
  show "view t = v" "held t = held s" "pinned t = set l"
    "disk t (drive ROOTDEV) = disk s (drive ROOTDEV)" "disk_writes t = disk_writes s"
    using o by (simp_all add: obs_def)
  show "log_area t = log_area s" using tx_rest_geom(2) [OF r] .
  show "log_room k t \<longleftrightarrow> log_outstanding s \<ge> 1 \<and> length l + k < log_size s" using tx_restD(3,5) [OF r] l by (simp add: log_room_def)
qed (use assms in \<open>simp_all add: tx_to_def\<close>)

lemma tx_to_refl [simp]: "tx_inv s \<Longrightarrow> tx_to (view s) (log_lh s) s s"
  by (simp add: tx_to_def tx_inv_def obs_def)

lemma tx_to_trans: "tx_to v l s t \<Longrightarrow> tx_to v' l' t u \<Longrightarrow> tx_to v' l' s u"
  by (auto simp: tx_to_def intro: tx_rest_trans)

text \<open>Since state \<open>s\<close> buffer \<open>i\<close> has been read for block \<open>b\<close>, and readers now see \<open>v\<close>.\<close>

definition opened ::
  "nat \<Rightarrow> nat \<Rightarrow> (nat \<Rightarrow> byte list) \<Rightarrow> nat list \<Rightarrow> 'a log_state_scheme \<Rightarrow> 'a log_state_scheme \<Rightarrow> bool" where
  "opened b i v l s t \<longleftrightarrow> b \<notin> held s \<and> tx_inv t \<and> owns i b t \<and>
     obs t = (obs s)\<lparr>o_view := v, o_pinned := set l, o_held := insert b (held s)\<rparr> \<and> log_lh t = l \<and>
     tx_rest s t \<and> (\<forall>j c. owns j c s \<longrightarrow> owns j c t)"

lemma openedD:
  assumes "opened b i v l s t"
  shows "tx_inv t" "bio_inv t" "owns i b t" "view t = v" "held t = insert b (held s)" "pinned t = set l"
    "log_lh t = l" "disk t (drive ROOTDEV) = disk s (drive ROOTDEV)" "disk_writes t = disk_writes s"
    "tx_rest s t" "log_area t = log_area s" "log_room k t \<longleftrightarrow> log_outstanding s \<ge> 1 \<and> length l + k < log_size s" "b \<notin> held s"
    "obs t = (obs s)\<lparr>o_view := v, o_pinned := set l, o_held := insert b (held s)\<rparr>"
    "owns j c s \<Longrightarrow> owns j c t"
proof -
  have o: "obs t = (obs s)\<lparr>o_view := v, o_pinned := set l, o_held := insert b (held s)\<rparr>"
    and l: "log_lh t = l" and r: "tx_rest s t" and i: "tx_inv t"
    using assms by (simp_all add: opened_def)
  show "view t = v" "held t = insert b (held s)" "pinned t = set l"
    "disk t (drive ROOTDEV) = disk s (drive ROOTDEV)" "disk_writes t = disk_writes s"
    using o by (simp_all add: obs_def)
  show "log_area t = log_area s" using tx_rest_geom(2) [OF r] .
  show "log_room k t \<longleftrightarrow> log_outstanding s \<ge> 1 \<and> length l + k < log_size s" using tx_restD(3,5) [OF r] l by (simp add: log_room_def)
  show "bio_inv t" using i by (simp add: tx_inv_def)
qed (use assms in \<open>simp_all add: opened_def\<close>)

lemma opened_step:
  assumes "opened b i v l s t" and "tx_to v' l' t u"
  shows "opened b i v' l' s u"
proof -
  have "obs u = (obs s)\<lparr>o_view := v', o_pinned := set l', o_held := insert b (held s)\<rparr>"
    using assms by (simp add: opened_def tx_to_def)
  then show ?thesis
    using assms tx_rest_trans [OF openedD(10) [OF assms(1)] tx_toD(8) [OF assms(2)]]
    by (auto simp: opened_def tx_to_def)
qed

lemma bio_rest_tx_inv: "tx_inv s \<Longrightarrow> bio_rest s t \<Longrightarrow> bio_inv t \<Longrightarrow> pinned t = pinned s \<Longrightarrow> tx_inv t"
  using bio_rest_log [of s t] log_geom_rest [of s t] by (simp add: tx_inv_def)

definition buf_room :: "'a log_state_scheme \<Rightarrow> bool" where
  "buf_room s \<longleftrightarrow> card (held s \<union> set (log_lh s)) < NBUF"

lemma tx_bread:
  assumes "tx_inv s" "b < FSSIZE" "b \<notin> held s" "b \<in> set (log_lh s) \<or> buf_room s"
    and Q: "\<And>i t. opened b i (view s) (log_lh s) s t \<Longrightarrow> Q i t"
  shows "wp (bread ROOTDEV b) Q s"
proof -
  have inv: "bio_inv s" and pin: "pinned s = set (log_lh s)" using assms(1) by (auto simp: tx_inv_def)
  have room: "o_room b (obs s)" using assms(4) pin by (simp add: o_room_def buf_room_def)
  obtain i t where 1: "bread ROOTDEV b s = Done i t" "bio_inv t" "owns i b t" "bio_rest s t"
    "obs t = (obs s)\<lparr>o_held := insert b (held s)\<rparr>" "\<forall>j c. owns j c s \<longrightarrow> owns j c t"
    by (rule wpE [OF bc.rd_ok [OF inv assms(2) _ room]]) (use assms(3) in auto)
  have "pinned t = pinned s" using 1(5) by (simp add: obs_def)
  moreover have "obs s = (obs s)\<lparr>o_view := view s, o_pinned := set (log_lh s)\<rparr>"
    using pin by (simp add: obs_def)
  ultimately have "opened b i (view s) (log_lh s) s t"
    using 1 assms(1,3) bio_rest_log(1) [OF 1(4)] bio_rest_tx_inv [of s t]
    by (simp add: opened_def bio_rest_tx)
  then show ?thesis using 1(1) Q by (simp add: wp_def)
qed

lemma tx_get:
  assumes "opened b i v l s t" and "Q (v b) t"
  shows "wp (buf_data i) Q t"
  by (rule wp_mono [OF bc.get_ok [OF openedD(2,3) [OF assms(1)]]])
    (use assms in \<open>simp add: openedD(4) [OF assms(1)]\<close>)

text \<open>There is a free buffer whenever at most one is in use and the log is not full.\<close>

lemma buf_roomI:
  assumes "tx_inv s" "card (held s) \<le> 1" "log_room 1 s"
  shows "buf_room s"
proof -
  have "card (held s \<union> set (log_lh s)) \<le> card (held s) + card (set (log_lh s))" by (rule card_Un_le)
  also have "card (set (log_lh s)) \<le> length (log_lh s)" by (rule card_length)
  finally show ?thesis using assms tx_inv_length [OF assms(1)] by (simp add: buf_room_def log_room_def)
qed

lemma buf_roomI0:
  assumes "tx_inv s" "held s = {}"
  shows "buf_room s"
  using card_length [of "log_lh s"] tx_inv_length [OF assms(1)] assms(2) by (simp add: buf_room_def)

lemma owns_heldD: "bio_inv s \<Longrightarrow> owns i b s \<Longrightarrow> b \<in> held s \<and> b < FSSIZE"
  using bc.own_held [of s i b] by simp

lemma brelse_opened:
  fixes s :: "'a log_state_scheme"
  assumes "tx_inv s" "opened b i v l s t" "o_clean b (obs t)"
    and Q: "\<And>u. tx_to v l s u \<Longrightarrow> Q () u"
  shows "wp (brelse i) Q t"
proof (rule wp_mono [OF bc.rel_ok [OF openedD(2,3) [OF assms(2)] assms(3)]], elim conjE)
  fix a :: unit and u :: "'a log_state_scheme"
  note t = openedD [OF assms(2)]
  assume u: "bio_inv u" "bio_rest t u" and o: "obs u = (obs t)\<lparr>o_held := o_held (obs t) - {b}\<rparr>"
    and own: "\<forall>j c. c \<noteq> b \<longrightarrow> owns j c t \<longrightarrow> owns j c u"
  have "obs u = (obs s)\<lparr>o_view := v, o_pinned := set l\<rparr>"
    using o t(13) by (simp add: t(14))
  moreover have "pinned u = pinned t" using o by (simp add: obs_def)
  then have "tx_inv u" using bio_rest_tx_inv [OF t(1) u(2,1)] by simp
  moreover have "owns j c u" if "owns j c s" for j c
  proof -
    have "bio_inv s" using assms(1) by (simp add: tx_inv_def)
    then have "c \<noteq> b" using t(13) owns_heldD [OF _ that] by auto
    then show ?thesis using own t(15) [OF that] by auto
  qed
  ultimately have "tx_to v l s u"
    using bio_rest_log(1) [OF u(2)] t(7) tx_rest_trans [OF t(10) bio_rest_tx [OF u(2)]]
    by (simp add: tx_to_def)
  then show "Q a u" using Q by simp
qed

lemma tx_close:
  fixes s :: "'a log_state_scheme"
  assumes "tx_inv s" "opened b i v l s t" "b \<in> set l \<or> v b = view s b" "set (log_lh s) \<subseteq> set l"
    and Q: "\<And>u. tx_to v l s u \<Longrightarrow> Q () u"
  shows "wp (brelse i) Q t"
proof -
  note t = openedD [OF assms(2)]
  have "b \<in> set l \<or> view s b = disk s (drive ROOTDEV) b"
    using assms(1,4) t(13) view_unpinned [of s b] by (auto simp: tx_inv_def)
  then have "o_clean b (obs t)" using assms(3) by (auto simp: o_clean_def t)
  then show ?thesis by (rule brelse_opened [OF assms(1,2)]) (rule Q)
qed

lemma tx_update:
  fixes s :: "'a log_state_scheme"
  assumes "tx_inv s" "opened b i v l s t" "length d = BSIZE" "b \<notin> log_area s" "log_outstanding s \<ge> 1 \<and> length l + 1 < log_size s"
    and Q: "\<And>u. tx_to (v(b := d)) (add_log b l) s u \<Longrightarrow> Q () u"
  shows "wp (set_buf_data i d) (\<lambda>_. wp (log_write i) (\<lambda>_. wp (brelse i) Q)) t"
proof -
  note t = openedD [OF assms(2)]
  obtain u where 1: "set_buf_data i d t = Done () u" "bio_inv u" "bio_rest t u"
    "obs u = (obs t)\<lparr>o_view := (o_view (obs t))(b := d)\<rparr>" "\<forall>j c. owns j c t \<longrightarrow> owns j c u"
    by (rule wp_unitE [OF bc.put_ok [OF t(2,3) assms(3)]]) blast
  have "pinned u = pinned t" using 1(4) by (simp add: obs_def)
  then have ui: "tx_inv u" using bio_rest_tx_inv [OF t(1) 1(3,2)] by simp
  have ur: "tx_rest s u" using tx_rest_trans [OF t(10) bio_rest_tx [OF 1(3)]] .
  have ul: "log_lh u = l" using bio_rest_log(1) [OF 1(3)] t(7) by simp
  have uo: "owns i b u" using 1(5) t(3) by blast
  have "b \<notin> log_area u" "log_room 1 u"
    using assms(4,5) tx_rest_geom [OF ur] tx_restD [OF ur] ul by (simp_all add: log_room_def)
  from log_write_wp [OF ui uo this] obtain w where 2: "log_write i u = Done () w" "tx_inv w"
    "log_lh w = add_log b l" "obs w = (obs u)\<lparr>o_pinned := insert b (pinned u)\<rparr>" "tx_rest u w"
    "\<forall>j c. owns j c u \<longrightarrow> owns j c w"
    by (rule wp_unitE) (simp add: ul)
  have pw: "pinned w = set (add_log b l)" using 2(2,3) by (simp add: tx_inv_def)
  have "obs w = (obs s)\<lparr>o_view := v(b := d), o_pinned := set (add_log b l), o_held := insert b (held s)\<rparr>"
    using \<open>pinned u = pinned t\<close> by (simp add: 2(4) 1(4) t(6,14))
  moreover have "owns j c w" if "owns j c s" for j c using that t(15) 1(5) 2(6) by blast
  ultimately have "opened b i (v(b := d)) (add_log b l) s w"
    using t(13) 2(2,3,6) uo tx_rest_trans [OF ur 2(5)] by (simp add: opened_def)
  moreover have "o_clean b (obs w)" by (simp add: o_clean_def pw)
  ultimately have "wp (brelse i) Q w" using Q by (rule brelse_opened [OF assms(1)])
  then show ?thesis using 1(1) 2(1) by (simp add: wp_def)
qed

end
