(* ===== verification/Balloc.thy ===== *)
theory Balloc
  imports Trans
begin

text \<open>
  The block allocator of \<^verbatim>\<open>fs.c\<close>: \<^verbatim>\<open>bzero\<close>, \<^verbatim>\<open>balloc\<close> and \<^verbatim>\<open>bfree\<close>, over the free map on disk.  The state
  gains the globals of \<^verbatim>\<open>fs.c\<close>, the super block and the inode cache, which theory \<open>Icache\<close> uses.
\<close>

section \<open>State\<close>

abbreviation NINODE :: nat where "NINODE \<equiv> 50"

record inode =
  i_dev :: nat
  i_inum :: nat
  i_ref :: int
  i_lock :: sleeplock
  i_valid :: bool
  i_din :: dinode     \<comment> \<open>copy of disk inode\<close>

record fs_state = log_state +
  fs_sb :: superblock
  icache :: "nat \<Rightarrow> inode"   \<comment> \<open>\<^verbatim>\<open>icache.inode[NINODE]\<close>\<close>

section \<open>Operations\<close>

definition bzero :: "nat \<Rightarrow> nat \<Rightarrow> ('a fs_state_scheme, unit) kernel" where
  "bzero dev bno = kbind (bread dev bno) (\<lambda>bp.
     kseq (set_buf_data bp (replicate BSIZE 0)) (kseq (log_write bp) (brelse bp)))"

text \<open>The test \<^verbatim>\<open>bp->data[bi/8] & m\<close> and the updates \<^verbatim>\<open>|= m\<close> and \<^verbatim>\<open>&= ~m\<close> with \<^verbatim>\<open>m = 1 << (bi % 8)\<close>.\<close>

definition bm_mask :: "nat \<Rightarrow> byte" where
  "bm_mask bi = push_bit (bi mod 8) 1"

definition bm_used :: "byte list \<Rightarrow> nat \<Rightarrow> bool" where
  "bm_used d bi \<longleftrightarrow> d ! (bi div 8) AND bm_mask bi \<noteq> 0"

definition bm_set :: "nat \<Rightarrow> byte list \<Rightarrow> byte list" where
  "bm_set bi d = d[bi div 8 := d ! (bi div 8) OR bm_mask bi]"

definition bm_clear :: "nat \<Rightarrow> byte list \<Rightarrow> byte list" where
  "bm_clear bi d = d[bi div 8 := d ! (bi div 8) AND NOT (bm_mask bi)]"

function balloc_from :: "nat \<Rightarrow> superblock \<Rightarrow> nat \<Rightarrow> ('a fs_state_scheme, nat) kernel" where
  "balloc_from dev sb b =
     (if b < sb_size sb then
        kbind (bread dev (BBLOCK b sb)) (\<lambda>bp. kbind (buf_data bp) (\<lambda>d.
          case List.find (\<lambda>bi. \<not> bm_used d bi) [0..<min BPB (sb_size sb - b)] of
            Some bi \<Rightarrow>
              kseq (set_buf_data bp (bm_set bi d)) (kseq (log_write bp) (kseq (brelse bp)
                (kseq (bzero dev (b + bi)) (kreturn (b + bi)))))
          | None \<Rightarrow> kseq (brelse bp) (balloc_from dev sb (b + BPB))))
      else kpanic ''balloc: out of blocks'')"
  by pat_completeness auto
termination
  by (relation "measure (\<lambda>(dev, sb, b). sb_size sb - b)") auto

declare balloc_from.simps [simp del]

definition balloc :: "nat \<Rightarrow> ('a fs_state_scheme, nat) kernel" where
  "balloc dev = kbind (kget fs_sb) (\<lambda>sb. balloc_from dev sb 0)"

definition bfree :: "nat \<Rightarrow> nat \<Rightarrow> ('a fs_state_scheme, unit) kernel" where
  "bfree dev b = kbind (kget fs_sb) (\<lambda>sb. kbind (bread dev (BBLOCK b sb)) (\<lambda>bp. kbind (buf_data bp) (\<lambda>d.
     let bi = b mod BPB in
     if \<not> bm_used d bi then kpanic ''freeing free block''
     else kseq (set_buf_data bp (bm_clear bi d)) (kseq (log_write bp) (brelse bp)))))"

section \<open>Bits of the free map\<close>

lemma bm_used_bit: "bm_used d bi \<longleftrightarrow> bit (d ! (bi div 8)) (bi mod 8)"
  by (simp add: bm_used_def bm_mask_def push_bit_of_1 and_exp_eq_0_iff_not_bit)

lemma bit_bm_mask: "bit (bm_mask i) k \<longleftrightarrow> k = i mod 8"
  by (auto simp: bm_mask_def push_bit_of_1 bit_exp_iff)

lemma div_mod_8_inj: "i div 8 = j div 8 \<Longrightarrow> i mod 8 = j mod 8 \<Longrightarrow> i = (j :: nat)"
  by (metis div_mult_mod_eq)

lemma length_bm_set [simp]: "length (bm_set i d) = length d"
  and length_bm_clear [simp]: "length (bm_clear i d) = length d"
  by (simp_all add: bm_set_def bm_clear_def)

lemma bm_used_set:
  assumes "i div 8 < length d" "j div 8 < length d"
  shows "bm_used (bm_set i d) j \<longleftrightarrow> j = i \<or> bm_used d j"
  using assms div_mod_8_inj [of j i]
  by (auto simp: bm_used_bit bm_set_def nth_list_update bit_or_iff bit_bm_mask)

lemma bm_used_clear:
  assumes "i div 8 < length d" "j div 8 < length d"
  shows "bm_used (bm_clear i d) j \<longleftrightarrow> j \<noteq> i \<and> bm_used d j"
proof -
  have "j mod 8 < 8" by simp
  then show ?thesis
    using assms div_mod_8_inj [of j i]
    by (auto simp: bm_used_bit bm_clear_def nth_list_update bit_and_iff bit_not_iff bit_bm_mask)
qed

section \<open>Geometry of the file system\<close>

text \<open>The layout \<^verbatim>\<open>mkfs\<close> gives a disk: boot block, super block, log, inodes, free map (one block), data.\<close>

definition sb_ok :: "superblock \<Rightarrow> bool" where
  "sb_ok sb \<longleftrightarrow> 2 \<le> sb_logstart sb \<and> sb_logstart sb + sb_nlog sb \<le> sb_inodestart sb \<and>
     sb_inodestart sb + sb_ninodes sb div IPB < sb_bmapstart sb \<and>
     sb_bmapstart sb < sb_size sb \<and> sb_size sb \<le> FSSIZE"

definition fs_geom :: "'a fs_state_scheme \<Rightarrow> bool" where
  "fs_geom s \<longleftrightarrow> sb_ok (fs_sb s) \<and> log_start s = sb_logstart (fs_sb s) \<and> log_size s = sb_nlog (fs_sb s)"

definition data_start :: "superblock \<Rightarrow> nat" where
  "data_start sb = sb_bmapstart sb + 1"

definition used :: "superblock \<Rightarrow> (nat \<Rightarrow> byte list) \<Rightarrow> nat \<Rightarrow> bool" where
  "used sb v b = bm_used (v (BBLOCK b sb)) (b mod BPB)"

text \<open>The blocks before the data area are marked in use.\<close>

definition meta_used :: "superblock \<Rightarrow> (nat \<Rightarrow> byte list) \<Rightarrow> bool" where
  "meta_used sb v \<longleftrightarrow> (\<forall>b < data_start sb. used sb v b)"

lemma BBLOCK_one: "sb_ok sb \<Longrightarrow> b < sb_size sb \<Longrightarrow> BBLOCK b sb = sb_bmapstart sb \<and> b mod BPB = b"
  by (simp add: BBLOCK_def sb_ok_def)

lemma fs_geom_area:
  assumes "fs_geom s"
  shows "log_area s = {sb_logstart (fs_sb s) ..< sb_logstart (fs_sb s) + sb_nlog (fs_sb s)}"
    and "sb_bmapstart (fs_sb s) \<notin> log_area s" and "data_start (fs_sb s) \<le> b \<Longrightarrow> b \<notin> log_area s"
    and "i < sb_ninodes (fs_sb s) \<Longrightarrow> IBLOCK i (fs_sb s) \<notin> log_area s"
  using assms by (auto simp: fs_geom_def log_area_def sb_ok_def data_start_def IBLOCK_def)

lemma IBLOCK_bound:
  assumes "sb_ok sb" and "i < sb_ninodes sb"
  shows "IBLOCK i sb < sb_bmapstart sb" "sb_inodestart sb \<le> IBLOCK i sb"
proof -
  have "i div IPB \<le> sb_ninodes sb div IPB" using assms(2) by (intro div_le_mono) simp
  then show "IBLOCK i sb < sb_bmapstart sb" using assms(1) by (simp add: IBLOCK_def sb_ok_def)
  show "sb_inodestart sb \<le> IBLOCK i sb" by (simp add: IBLOCK_def)
qed

definition first_free :: "superblock \<Rightarrow> (nat \<Rightarrow> byte list) \<Rightarrow> nat option" where
  "first_free sb v = List.find (\<lambda>b. \<not> used sb v b) [0..<sb_size sb]"

text \<open>What allocating and freeing block \<open>b\<close> do to the disk contents.\<close>

definition alloc_view :: "superblock \<Rightarrow> nat \<Rightarrow> (nat \<Rightarrow> byte list) \<Rightarrow> nat \<Rightarrow> byte list" where
  "alloc_view sb b v = v(sb_bmapstart sb := bm_set b (v (sb_bmapstart sb)), b := replicate BSIZE 0)"

definition free_view :: "superblock \<Rightarrow> nat \<Rightarrow> (nat \<Rightarrow> byte list) \<Rightarrow> nat \<Rightarrow> byte list" where
  "free_view sb b v = v(sb_bmapstart sb := bm_clear b (v (sb_bmapstart sb)))"

lemma first_free_data:
  assumes "sb_ok sb" "meta_used sb v" "first_free sb v = Some b"
  shows "data_start sb \<le> b" "b < sb_size sb" "\<not> used sb v b" "b \<noteq> sb_bmapstart sb"
proof -
  have b: "\<not> used sb v b" "b < sb_size sb"
    using find_Some_iff' [OF assms(3) [unfolded first_free_def]] by auto
  then show "data_start sb \<le> b" using assms(2) by (auto simp: meta_used_def not_less [symmetric])
  then show "b \<noteq> sb_bmapstart sb" by (simp add: data_start_def)
  show "b < sb_size sb" "\<not> used sb v b" using b by simp_all
qed

lemma tx_rest_fs:
  fixes s t :: "'a fs_state_scheme"
  assumes "tx_rest s t"
  shows "fs_sb t = fs_sb s" "icache t = icache s" "fs_state.more t = fs_state.more s"
  using tx_restD(7) [OF assms] by (cases s; cases t; simp)+

lemma tx_rest_fs_geom:
  fixes s t :: "'a fs_state_scheme"
  assumes "tx_rest s t"
  shows "fs_geom t = fs_geom s"
  using tx_restD [OF assms] tx_rest_fs [OF assms] by (simp add: fs_geom_def)

section \<open>Contracts\<close>

lemma bzero_wp:
  assumes "tx_inv s" "b < FSSIZE" "b \<notin> held s" "card (held s) \<le> 1" "b \<notin> log_area s" "log_room 1 s"
    and Q: "\<And>t. tx_to ((view s)(b := replicate BSIZE 0)) (add_log b (log_lh s)) s t \<Longrightarrow> Q () t"
  shows "wp (bzero ROOTDEV b) Q s"
  unfolding bzero_def
proof (simp, rule tx_bread [OF assms(1-3)])
  show "b \<in> set (log_lh s) \<or> buf_room s" using buf_roomI [OF assms(1,4,6)] by simp
  fix i t
  assume o: "opened b i (view s) (log_lh s) s t"
  show "wp (set_buf_data i (replicate BSIZE 0)) (\<lambda>_. wp (log_write i) (\<lambda>_. wp (brelse i) Q)) t"
    by (rule tx_update [OF assms(1) o]) (use assms in \<open>auto simp: log_room_def\<close>)
qed

lemma bfree_wp:
  fixes s :: "'a fs_state_scheme"
  assumes "tx_inv s" "fs_geom s" "b < sb_size (fs_sb s)" "used (fs_sb s) (view s) b"
    and "sb_bmapstart (fs_sb s) \<notin> held s" "card (held s) \<le> 1" "log_room 1 s"
    and Q: "\<And>t. tx_to (free_view (fs_sb s) b (view s)) (add_log (sb_bmapstart (fs_sb s)) (log_lh s)) s t \<Longrightarrow> Q () t"
  shows "wp (bfree ROOTDEV b) Q s"
proof -
  let ?sb = "fs_sb s" and ?m = "sb_bmapstart (fs_sb s)"
  have sb: "sb_ok ?sb" using assms(2) by (simp add: fs_geom_def)
  note bb = BBLOCK_one [OF sb assms(3)]
  have m: "?m < FSSIZE" using sb by (simp add: sb_ok_def)
  have len: "length (view s ?m) = BSIZE" using assms(1) by (simp add: tx_inv_def)
  have b4: "b < BPB" using assms(3) sb by (simp add: sb_ok_def)
  have u: "bm_used (view s ?m) b" using assms(4) bb by (simp add: used_def)
  show ?thesis
    unfolding bfree_def Let_def
    apply (simp add: bb b4)
    apply (rule tx_bread [OF assms(1) m assms(5)])
    subgoal using buf_roomI [OF assms(1,6,7)] by simp
    apply (rule tx_get, assumption)
    apply (simp add: u)
    apply (rule tx_update [OF assms(1)], assumption)
    using assms(7) len fs_geom_area(2) [OF assms(2)] by (auto simp: log_room_def free_view_def b4 intro!: Q)
qed

lemma balloc_wp:
  fixes s :: "'a fs_state_scheme"
  assumes "tx_inv s" "fs_geom s" "meta_used (fs_sb s) (view s)" "first_free (fs_sb s) (view s) = Some b"
    and "sb_bmapstart (fs_sb s) \<notin> held s" "b \<notin> held s" "card (held s) \<le> 1" "log_room 2 s"
    and Q: "\<And>t. tx_to (alloc_view (fs_sb s) b (view s))
        (add_log b (add_log (sb_bmapstart (fs_sb s)) (log_lh s))) s t \<Longrightarrow> Q b t"
  shows "wp (balloc ROOTDEV) Q s"
proof -
  let ?sb = "fs_sb s" and ?m = "sb_bmapstart (fs_sb s)" and ?v = "view s"
  have sb: "sb_ok ?sb" using assms(2) by (simp add: fs_geom_def)
  note ff = first_free_data [OF sb assms(3,4)]
  have m: "?m < FSSIZE" and sz: "0 < sb_size ?sb" "sb_size ?sb \<le> BPB" using sb by (auto simp: sb_ok_def)
  have len: "length (?v ?m) = BSIZE" using assms(1) by (simp add: tx_inv_def)
  have bb0: "BBLOCK 0 ?sb = ?m" by (simp add: BBLOCK_def)
  have find: "List.find (\<lambda>bi. \<not> bm_used (?v ?m) bi) [0..<sb_size ?sb] = Some b"
  proof -
    have "List.find (\<lambda>bi. \<not> bm_used (?v ?m) bi) [0..<sb_size ?sb] = first_free ?sb ?v"
      unfolding first_free_def by (rule find_cong') (simp add: used_def BBLOCK_one [OF sb])
    then show ?thesis using assms(4) by simp
  qed
  have lr: "log_room 1 s" using assms(8) by (simp add: log_room_def)
  have upd: "wp (bzero ROOTDEV b) (\<lambda>_. Q b) t"
    if t: "tx_to (?v(?m := bm_set b (?v ?m))) (add_log ?m (log_lh s)) s t" for t :: "'a fs_state_scheme"
  proof (rule bzero_wp)
    show "log_room 1 t" using assms(8) length_add_log [of ?m "log_lh s"] tx_toD(10) [OF t, of 1] by (simp add: log_room_def)
    show "b \<notin> log_area t" using fs_geom_area(3) [OF assms(2) ff(1)] tx_toD(9) [OF t] by simp
    fix u
    assume "tx_to ((view t)(b := replicate BSIZE 0)) (add_log b (log_lh t)) t u"
    then show "Q b u"
      using tx_to_trans [OF t] by (intro Q) (simp add: alloc_view_def tx_toD(2,3) [OF t])
  qed (use t assms(6,7) ff sb in \<open>auto simp: tx_toD sb_ok_def\<close>)
  show ?thesis
    unfolding balloc_def
    apply simp
    apply (subst balloc_from.simps)
    apply (simp add: sz bb0)
    apply (rule tx_bread [OF assms(1) m assms(5)])
    subgoal using buf_roomI [OF assms(1,7) lr] by simp
    apply (rule tx_get, assumption)
    apply (simp add: min_absorb2 sz find)
    apply (rule tx_update [OF assms(1)], assumption)
    using lr len fs_geom_area(2) [OF assms(2)] upd by (auto simp: log_room_def)
qed

end
