(* ===== verification/Icache.thy ===== *)
theory Icache
  imports Balloc
begin

text \<open>
  Inodes (\<^verbatim>\<open>fs.c\<close>): the inode cache with its reference counts and locks, the copies of inodes between
  cache and disk, allocation and truncation, and the map from file blocks to disk blocks.  A pointer
  to an inode is its index in \<^verbatim>\<open>icache.inode\<close>; the null pointer never reaches these functions, since
  every caller has tested it before.
\<close>

section \<open>Operations\<close>

definition upd_inode :: "nat \<Rightarrow> (inode \<Rightarrow> inode) \<Rightarrow> 'a fs_state_scheme \<Rightarrow> 'a fs_state_scheme" where
  "upd_inode i f s = s\<lparr>icache := (icache s)(i := f (icache s i))\<rparr>"

definition inode_lock :: "nat \<Rightarrow> 'a fs_state_scheme \<Rightarrow> sleeplock" where
  "inode_lock i s = i_lock (icache s i)"

definition set_inode_lock :: "nat \<Rightarrow> sleeplock \<Rightarrow> 'a fs_state_scheme \<Rightarrow> 'a fs_state_scheme" where
  "set_inode_lock i l = upd_inode i (\<lambda>ip. ip\<lparr>i_lock := l\<rparr>)"

definition upd_din :: "(dinode \<Rightarrow> dinode) \<Rightarrow> inode \<Rightarrow> inode" where
  "upd_din f ip = ip\<lparr>i_din := f (i_din ip)\<rparr>"

definition iinit :: "nat \<Rightarrow> ('a fs_state_scheme, unit) kernel" where
  "iinit dev = kseq (kfor [0..<NINODE] (\<lambda>i. kmodify (set_inode_lock i initsleeplock)))
     (kbind (readsb dev) (\<lambda>sb. kmodify (\<lambda>s. s\<lparr>fs_sb := sb\<rparr>)))"

definition iget :: "nat \<Rightarrow> nat \<Rightarrow> ('a fs_state_scheme, nat) kernel" where
  "iget dev inum = kbind (kget icache) (\<lambda>ic.
     case List.find (\<lambda>i. i_ref (ic i) > 0 \<and> i_dev (ic i) = dev \<and> i_inum (ic i) = inum) [0..<NINODE] of
       Some i \<Rightarrow> kseq (kmodify (upd_inode i (\<lambda>ip. ip\<lparr>i_ref := i_ref ip + 1\<rparr>))) (kreturn i)
     | None \<Rightarrow>
        (case List.find (\<lambda>i. i_ref (ic i) = 0) [0..<NINODE] of
           None \<Rightarrow> kpanic ''iget: no inodes''
         | Some i \<Rightarrow>
             kseq (kmodify (upd_inode i (\<lambda>ip. ip\<lparr>i_dev := dev, i_inum := inum, i_ref := 1, i_valid := False\<rparr>)))
                  (kreturn i)))"

definition zero_dinode :: dinode where
  "zero_dinode = \<lparr>d_type = 0, d_major = 0, d_minor = 0, d_nlink = 0, d_mode = 0, d_size = 0,
     d_addrs = replicate (NDIRECT + 1) 0\<rparr>"

function ialloc_from :: "nat \<Rightarrow> int \<Rightarrow> superblock \<Rightarrow> nat \<Rightarrow> ('a fs_state_scheme, nat) kernel" where
  "ialloc_from dev ty sb inum =
     (if inum < sb_ninodes sb then
        kbind (bread dev (IBLOCK inum sb)) (\<lambda>bp. kbind (buf_data bp) (\<lambda>d.
          if d_type (dinode_at d (inum mod IPB)) = 0 then
            kseq (set_buf_data bp (set_dinode (inum mod IPB) (zero_dinode\<lparr>d_type := ty, d_mode := 493\<rparr>) d))
            (kseq (log_write bp) (kseq (brelse bp) (iget dev inum)))
          else kseq (brelse bp) (ialloc_from dev ty sb (inum + 1))))
      else kpanic ''ialloc: no inodes'')"
  by pat_completeness auto
termination
  by (relation "measure (\<lambda>(dev, ty, sb, inum). sb_ninodes sb - inum)") auto

declare ialloc_from.simps [simp del]

definition ialloc :: "nat \<Rightarrow> int \<Rightarrow> ('a fs_state_scheme, nat) kernel" where
  "ialloc dev ty = kbind (kget fs_sb) (\<lambda>sb. ialloc_from dev ty sb 1)"

definition iupdate :: "nat \<Rightarrow> ('a fs_state_scheme, unit) kernel" where
  "iupdate i = kbind (kget id) (\<lambda>s. let ip = icache s i in
     kbind (bread (i_dev ip) (IBLOCK (i_inum ip) (fs_sb s))) (\<lambda>bp. kbind (buf_data bp) (\<lambda>d.
       kseq (set_buf_data bp (set_dinode (i_inum ip mod IPB) (i_din ip) d))
       (kseq (log_write bp) (brelse bp)))))"

definition idup :: "nat \<Rightarrow> ('a fs_state_scheme, nat) kernel" where
  "idup i = kseq (kmodify (upd_inode i (\<lambda>ip. ip\<lparr>i_ref := i_ref ip + 1\<rparr>))) (kreturn i)"

definition ilock :: "nat \<Rightarrow> ('a fs_state_scheme, unit) kernel" where
  "ilock i = kbind (kget (\<lambda>s. i_ref (icache s i))) (\<lambda>r.
     if r < 1 then kpanic ''ilock''
     else kseq (acquiresleep (inode_lock i) (set_inode_lock i) (Chan_sleeplock_inode i))
       (kbind (kget id) (\<lambda>s. let ip = icache s i in
          kwhen (\<not> i_valid ip)
            (kbind (bread (i_dev ip) (IBLOCK (i_inum ip) (fs_sb s))) (\<lambda>bp. kbind (buf_data bp) (\<lambda>d.
               kseq (kmodify (upd_inode i (\<lambda>ip. ip\<lparr>i_din := dinode_at d (i_inum ip mod IPB)\<rparr>)))
               (kseq (brelse bp)
               (kseq (kmodify (upd_inode i (\<lambda>ip. ip\<lparr>i_valid := True\<rparr>)))
               (kbind (kget (\<lambda>s. d_type (i_din (icache s i)))) (\<lambda>ty.
                  if ty = 0 then kpanic ''ilock: no type'' else kreturn ()))))))))))"

definition iunlock :: "nat \<Rightarrow> ('a fs_state_scheme, unit) kernel" where
  "iunlock i = kbind (holdingsleep (inode_lock i)) (\<lambda>h. kbind (kget (\<lambda>s. i_ref (icache s i))) (\<lambda>r.
     if \<not> h \<or> r < 1 then kpanic ''iunlock''
     else releasesleep (set_inode_lock i) (Chan_sleeplock_inode i)))"

text \<open>The address slot \<open>k\<close> of an inode, allocating a block for it if it is empty.\<close>

definition addr_slot :: "nat \<Rightarrow> nat \<Rightarrow> ('a fs_state_scheme, nat) kernel" where
  "addr_slot i k = kbind (kget (\<lambda>s. icache s i)) (\<lambda>ip. let addr = d_addrs (i_din ip) ! k in
     if addr = 0 then
       kbind (balloc (i_dev ip)) (\<lambda>addr.
         kseq (kmodify (upd_inode i (upd_din (\<lambda>d. d\<lparr>d_addrs := (d_addrs d)[k := addr]\<rparr>)))) (kreturn addr))
     else kreturn addr)"

definition bmap :: "nat \<Rightarrow> nat \<Rightarrow> ('a fs_state_scheme, nat) kernel" where
  "bmap i bn =
     (if bn < NDIRECT then addr_slot i bn
      else let bn = bn - NDIRECT in
        if bn < NINDIRECT then
          kbind (kget (\<lambda>s. i_dev (icache s i))) (\<lambda>dev.
          kbind (addr_slot i NDIRECT) (\<lambda>addr.
          kbind (bread dev addr) (\<lambda>bp. kbind (buf_data bp) (\<lambda>d.
            if u32_at d bn = 0 then
              kbind (balloc dev) (\<lambda>addr. kbind (buf_data bp) (\<lambda>d.
                kseq (set_buf_data bp (set_u32 bn addr d)) (kseq (log_write bp)
                  (kseq (brelse bp) (kreturn addr)))))
            else kseq (brelse bp) (kreturn (u32_at d bn))))))
        else kpanic ''bmap: out of range'')"

definition itrunc :: "nat \<Rightarrow> ('a fs_state_scheme, unit) kernel" where
  "itrunc i =
     kseq (kfor [0..<NDIRECT] (\<lambda>k. kbind (kget (\<lambda>s. icache s i)) (\<lambda>ip.
       kwhen (d_addrs (i_din ip) ! k \<noteq> 0)
         (kseq (bfree (i_dev ip) (d_addrs (i_din ip) ! k))
               (kmodify (upd_inode i (upd_din (\<lambda>d. d\<lparr>d_addrs := (d_addrs d)[k := 0]\<rparr>))))))))
     (kseq (kbind (kget (\<lambda>s. icache s i)) (\<lambda>ip.
       kwhen (d_addrs (i_din ip) ! NDIRECT \<noteq> 0)
         (kbind (bread (i_dev ip) (d_addrs (i_din ip) ! NDIRECT)) (\<lambda>bp. kbind (buf_data bp) (\<lambda>d.
            kseq (kfor [0..<NINDIRECT] (\<lambda>j. kwhen (u32_at d j \<noteq> 0) (bfree (i_dev ip) (u32_at d j))))
            (kseq (brelse bp)
            (kseq (bfree (i_dev ip) (d_addrs (i_din ip) ! NDIRECT))
                  (kmodify (upd_inode i (upd_din (\<lambda>d. d\<lparr>d_addrs := (d_addrs d)[NDIRECT := 0]\<rparr>)))))))))))
     (kseq (kmodify (upd_inode i (upd_din (\<lambda>d. d\<lparr>d_size := 0\<rparr>)))) (iupdate i)))"

definition iput :: "nat \<Rightarrow> ('a fs_state_scheme, unit) kernel" where
  "iput i = kseq (acquiresleep (inode_lock i) (set_inode_lock i) (Chan_sleeplock_inode i))
     (kseq (kbind (kget (\<lambda>s. icache s i)) (\<lambda>ip.
        kwhen (i_valid ip \<and> d_nlink (i_din ip) = 0 \<and> i_ref ip = 1)
          (kseq (itrunc i)
          (kseq (kmodify (upd_inode i (upd_din (\<lambda>d. d\<lparr>d_type := 0\<rparr>))))
          (kseq (iupdate i)
                (kmodify (upd_inode i (\<lambda>ip. ip\<lparr>i_valid := False\<rparr>))))))))
     (kseq (releasesleep (set_inode_lock i) (Chan_sleeplock_inode i))
           (kmodify (upd_inode i (\<lambda>ip. ip\<lparr>i_ref := i_ref ip - 1\<rparr>)))))"

definition iunlockput :: "nat \<Rightarrow> ('a fs_state_scheme, unit) kernel" where
  "iunlockput i = kseq (iunlock i) (iput i)"

definition stati :: "nat \<Rightarrow> ('a fs_state_scheme, stat) kernel" where
  "stati i = kget (\<lambda>s. let ip = icache s i in
     \<lparr>st_type = d_type (i_din ip), st_dev = i_dev ip, st_ino = i_inum ip, st_nlink = d_nlink (i_din ip),
      st_size = d_size (i_din ip), st_mode = d_mode (i_din ip)\<rparr>)"

section \<open>A concrete state\<close>

definition empty_inode :: inode where
  "empty_inode = \<lparr>i_dev = 0, i_inum = 0, i_ref = 0, i_lock = initsleeplock, i_valid = False, i_din = zero_dinode\<rparr>"

definition demo_sb :: superblock where
  "demo_sb = \<lparr>sb_size = 1000, sb_nblocks = 941, sb_ninodes = 200, sb_nlog = 30, sb_logstart = 2,
     sb_inodestart = 32, sb_bmapstart = 58\<rparr>"

definition demo_fs :: fs_state where
  "demo_fs = log_state.extend demo_boot (fs_state.fields demo_sb (\<lambda>_. empty_inode))"

end
