(* ===== verification/Ring.thy ===== *)
theory Ring
  imports Xv6_Prelude
begin

text \<open>
  Ring buffers with free-running 32-bit indices, as the console's input buffer and the pipes have
  them: a cell is addressed by an index modulo the size, and the distance of two indices is their
  difference modulo \<open>2\<^sup>3\<^sup>2\<close>.  The lemmas need that the size divides \<open>2\<^sup>3\<^sup>2\<close>, so that a wrap of the index
  does not move the cells; they are proved once, in a locale, for all such sizes.
\<close>

type_synonym index = "32 word"

text \<open>The \<open>k\<close> bytes from index \<open>a\<close> on.\<close>

definition ring_seg :: "nat \<Rightarrow> (nat \<Rightarrow> 'b) \<Rightarrow> index \<Rightarrow> nat \<Rightarrow> 'b list" where
  "ring_seg N b a k = map (\<lambda>j. b (unat (a + of_nat j) mod N)) [0..<k]"

lemma length_ring_seg [simp]: "length (ring_seg N b a k) = k"
  by (simp add: ring_seg_def)

lemma ring_seg_0 [simp]: "ring_seg N b a 0 = []"
  by (simp add: ring_seg_def)

lemma ring_seg_Suc: "ring_seg N b a (Suc k) = ring_seg N b a k @ [b (unat (a + of_nat k) mod N)]"
  by (simp add: ring_seg_def)

lemma ring_seg_add: "ring_seg N b a (j + k) = ring_seg N b a j @ ring_seg N b (a + of_nat j) k"
  by (induction k) (simp_all add: ring_seg_Suc add.assoc)

lemma ring_seg_Cons: "ring_seg N b a (Suc k) = b (unat a mod N) # ring_seg N b (a + 1) k"
  using ring_seg_add [of N b a 1 k] by (simp add: ring_seg_def)

text \<open>Distances between indices.\<close>

lemma index_dist:
  fixes r w e :: index
  assumes "unat (w - r) \<le> unat (e - r)"
  shows "unat (e - w) = unat (e - r) - unat (w - r)"
proof -
  have "e - w = (e - r) - (w - r)" by simp
  moreover have "w - r \<le> e - r" using assms by (simp add: word_le_nat_alt)
  ultimately show ?thesis by (metis unat_sub)
qed

lemma index_of_dist: "w = r + of_nat (unat (w - r))" for w r :: index
  by simp

lemma unat_index_Suc:
  fixes a b :: index
  assumes "unat (b - a) < 2 ^ 32 - 1"
  shows "unat (b + 1 - a) = unat (b - a) + 1"
proof -
  have e: "b + 1 - a = (b - a) + 1" by simp
  show ?thesis unfolding e using assms by (simp add: unat_word_ariths)
qed

lemma unat_index_pred:
  fixes a b :: index
  assumes "b \<noteq> a"
  shows "unat (b - 1 - a) = unat (b - a) - 1"
proof -
  have "b - a \<noteq> 0" using assms by simp
  then have "unat ((b - a) - 1) = unat (b - a) - 1"
    by (metis One_nat_def unat_1 unat_sub word_le_nat_alt unat_gt_0 Suc_leI word_less_1 not_le)
  moreover have e: "b - 1 - a = (b - a) - 1" by simp
  ultimately show ?thesis unfolding e by simp
qed

lemma unat_index_next:
  fixes a b :: index
  assumes "b \<noteq> a"
  shows "unat (b - (a + 1)) = unat (b - a) - 1"
proof -
  have "b - (a + 1) = b - 1 - a" by simp
  then show ?thesis using unat_index_pred [OF assms] by metis
qed

lemma unat_index_0: "unat (b - a) = 0 \<longleftrightarrow> b = a" for a b :: index
  by (simp add: unat_eq_0)

locale ring =
  fixes N :: nat
  assumes N_pos: "0 < N" and N_dvd: "N dvd 2 ^ 32"
begin

lemma idx: "unat (a + of_nat j :: index) mod N = (unat a + j) mod N"
proof -
  have "unat (a + of_nat j :: index) = (unat a + j) mod 2 ^ 32"
    by (simp add: unat_word_ariths unat_of_nat mod_simps)
  then show ?thesis using N_dvd by (simp add: mod_mod_cancel)
qed

lemma idx_inj:
  assumes "j < N" "k < N" "j \<noteq> k"
  shows "unat (a + of_nat j :: index) mod N \<noteq> unat (a + of_nat k) mod N"
proof
  assume "unat (a + of_nat j :: index) mod N = unat (a + of_nat k) mod N"
  then have "(unat a + j) mod N = (unat a + k) mod N" by (simp add: idx)
  then have m: "(unat a + i) mod N = (unat a + i') mod N" if "{i, i'} = {j, k}" for i i'
    using that by (auto simp: doubleton_eq_iff)
  have "N dvd i' - i" if "i < i'" "{i, i'} = {j, k}" for i i'
    using mod_eq_dvd_iff_nat [of "unat a + i" "unat a + i'" N] m [OF that(2)] that(1) by simp
  from this [of j k] this [of k j] show False
    using assms by (cases "j < k") (auto simp: insert_commute dest: dvd_imp_le)
qed

text \<open>Writing the cell after the segment leaves the segment alone, and extends it.\<close>

lemma seg_write:
  assumes "k < N"
  shows "ring_seg N (b(unat (a + of_nat k) mod N := x)) a k = ring_seg N b a k"
  using idx_inj [of _ k a] assms by (auto simp: ring_seg_def)

lemma seg_push:
  assumes "k < N"
  shows "ring_seg N (b(unat (a + of_nat k) mod N := x)) a (Suc k) = ring_seg N b a k @ [x]"
  using seg_write [OF assms] by (simp add: ring_seg_Suc)

end

end
