(* ===== verification/Console.thy ===== *)
theory Console
  imports Icache Ring
begin

text \<open>
  The console driver, \<^verbatim>\<open>console.c\<close>: the screen, the serial line, the line editor behind the keyboard
  interrupt and the reads and writes of the console device.  The screen is the memory of the display
  adapter and its cursor register; the serial line is the sequence of bytes sent.  The input buffer is
  a ring of 128 bytes between three indices: \<open>in_r\<close> up to \<open>in_w\<close> are complete lines, \<open>in_w\<close> up to \<open>in_e\<close> is the
  line being edited.  The main result is that this ring implements a line editor on two lists.
\<close>

section \<open>State\<close>

abbreviation INPUT_BUF :: nat where "INPUT_BUF \<equiv> 128"
abbreviation BACKSPACE :: nat where "BACKSPACE \<equiv> 256"

record cons_state = fs_state +
  crt :: "nat \<Rightarrow> nat"          \<comment> \<open>the 16-bit cells of the screen\<close>
  crt_pos :: nat               \<comment> \<open>the cursor register\<close>
  uart_on :: bool              \<comment> \<open>\<^verbatim>\<open>uart\<close>: is there a serial port?\<close>
  uart_out :: "byte list"
  panicked :: bool
  in_buf :: "nat \<Rightarrow> byte"
  in_r :: index
  in_w :: index
  in_e :: index
  devsw :: "int \<Rightarrow> bool"       \<comment> \<open>whether the entry's functions are set\<close>

section \<open>Output\<close>

definition uartputc :: "nat \<Rightarrow> ('a cons_state_scheme, unit) kernel" where
  "uartputc c = kmodify (\<lambda>s. if uart_on s then s\<lparr>uart_out := uart_out s @ [of_nat c]\<rparr> else s)"

text \<open>The screen and the cursor after a character, before the test of the position.\<close>

definition cga_put :: "nat \<Rightarrow> (nat \<Rightarrow> nat) \<times> nat \<Rightarrow> (nat \<Rightarrow> nat) \<times> nat" where
  "cga_put c = (\<lambda>(m, pos).
     if c = 10 then (m, pos + 80 - pos mod 80)
     else if c = BACKSPACE then (m, if pos > 0 then pos - 1 else pos)
     else (m(pos := c mod 256 + 0x700), pos + 1))"

definition cga_scroll :: "(nat \<Rightarrow> nat) \<times> nat \<Rightarrow> (nat \<Rightarrow> nat) \<times> nat" where
  "cga_scroll = (\<lambda>(m, pos).
     if pos div 80 \<ge> 24 then
       let m = (\<lambda>i. if i < 23 * 80 then m (i + 80) else m i); pos = pos - 80 in
       (\<lambda>i. if pos \<le> i \<and> i < 24 * 80 then 0 else m i, pos)
     else (m, pos))"

definition cgaputc :: "nat \<Rightarrow> ('a cons_state_scheme, unit) kernel" where
  "cgaputc c = kbind (kget (\<lambda>s. cga_put c (crt s, crt_pos s))) (\<lambda>(m, pos).
     if pos > 25 * 80 then kpanic ''pos under/overflow''
     else case cga_scroll (m, pos) of (m, pos) \<Rightarrow>
       kmodify (\<lambda>s. s\<lparr>crt_pos := pos, crt := m(pos := 32 + 0x700)\<rparr>))"

text \<open>After a panic a processor that reaches \<open>consputc\<close> loops for ever, which is a \<open>Panic\<close> outcome too.\<close>

definition consputc :: "nat \<Rightarrow> ('a cons_state_scheme, unit) kernel" where
  "consputc c = kbind (kget panicked) (\<lambda>p.
     if p then kpanic ''panicked''
     else kseq
       (if c = BACKSPACE then kseq (uartputc 8) (kseq (uartputc 32) (uartputc 8)) else uartputc c)
       (cgaputc c))"

section \<open>Input\<close>

text \<open>The loop of Control-U, which takes at most as many rounds as there are characters to erase.\<close>

primrec kill_line :: "nat \<Rightarrow> ('a cons_state_scheme, unit) kernel" where
  "kill_line 0 = kreturn ()"
| "kill_line (Suc k) = kbind (kget id) (\<lambda>s.
     if in_e s \<noteq> in_w s \<and> in_buf s (unat (in_e s - 1) mod INPUT_BUF) \<noteq> 10 then
       kseq (kmodify (\<lambda>s. s\<lparr>in_e := in_e s - 1\<rparr>)) (kseq (consputc BACKSPACE) (kill_line k))
     else kreturn ())"

text \<open>One character of the interrupt handler's loop; the result says if it asks for a process listing.\<close>

definition consoleintr_char :: "nat \<Rightarrow> ('a cons_state_scheme, bool) kernel" where
  "consoleintr_char c =
     (if c = 16 then kreturn True
      else if c = 21 then
        kseq (kbind (kget (\<lambda>s. unat (in_e s - in_w s))) kill_line) (kreturn False)
      else if c = 8 \<or> c = 127 then
        kbind (kget id) (\<lambda>s.
          kseq (kwhen (in_e s \<noteq> in_w s)
            (kseq (kmodify (\<lambda>s. s\<lparr>in_e := in_e s - 1\<rparr>)) (consputc BACKSPACE))) (kreturn False))
      else
        kbind (kget id) (\<lambda>s.
          kseq (kwhen (c \<noteq> 0 \<and> unat (in_e s - in_r s) < INPUT_BUF)
            (let c = (if c = 13 then 10 else c) in
             kseq (kmodify (\<lambda>s. s\<lparr>in_buf := (in_buf s)(unat (in_e s) mod INPUT_BUF := of_nat c),
                                    in_e := in_e s + 1\<rparr>))
             (kseq (consputc c)
             (kbind (kget id) (\<lambda>s.
                kwhen (c = 10 \<or> c = 4 \<or> in_e s = in_r s + of_nat INPUT_BUF)
                  (kseq (kmodify (\<lambda>s. s\<lparr>in_w := in_e s\<rparr>)) (wakeup Chan_input)))))))
          (kreturn False)))"

text \<open>The handler on the characters that \<open>getc\<close> delivers before it returns a negative number.  The
  process listing is a parameter: it only prints.\<close>

primrec consoleintr_loop :: "nat list \<Rightarrow> bool \<Rightarrow> ('a cons_state_scheme, bool) kernel" where
  "consoleintr_loop [] dump = kreturn dump"
| "consoleintr_loop (c # cs) dump =
     kbind (consoleintr_char c) (\<lambda>d. consoleintr_loop cs (dump \<or> d))"

definition consoleintr ::
  "('a cons_state_scheme, unit) kernel \<Rightarrow> nat list \<Rightarrow> ('a cons_state_scheme, unit) kernel" where
  "consoleintr procdump cs = kbind (consoleintr_loop cs False) (\<lambda>dump. kwhen dump procdump)"

text \<open>The loop of \<open>consoleread\<close> with \<open>n\<close> bytes left to read and \<open>dst\<close> already delivered.  \<open>Inl\<close> is the state of the
  loop when the process goes to sleep inside it, where it continues when it is woken; \<open>Inr\<close> holds
  what is left of \<open>n\<close>, or \<open>None\<close> if the process was killed, and the bytes delivered.\<close>

primrec consoleread_loop ::
  "nat \<Rightarrow> nat \<Rightarrow> byte list \<Rightarrow> ('a cons_state_scheme, nat \<times> byte list + nat option \<times> byte list) kernel"
where
  "consoleread_loop target 0 dst = kreturn (Inr (Some 0, dst))"
| "consoleread_loop target (Suc n) dst = kbind (kget id) (\<lambda>s.
     if in_r s = in_w s then
       if p_killed (myproc s) then kreturn (Inr (None, dst))
       else kreturn (Inl (Suc n, dst))
     else
       let c = in_buf s (unat (in_r s) mod INPUT_BUF) in
       kseq (kmodify (\<lambda>s. s\<lparr>in_r := in_r s + 1\<rparr>))
       (if c = 4 then
          kseq (kwhen (Suc n < target) (kmodify (\<lambda>s. s\<lparr>in_r := in_r s - 1\<rparr>))) (kreturn (Inr (Some (Suc n), dst)))
        else if c = 10 then kreturn (Inr (Some n, dst @ [c]))
        else consoleread_loop target n (dst @ [c])))"

text \<open>The part of the call that runs until the process sleeps or the call returns.  A sleeping reader
  does not hold the inode's lock.\<close>

definition consoleread_resume ::
  "nat \<Rightarrow> nat \<Rightarrow> nat \<Rightarrow> byte list \<Rightarrow> ('a cons_state_scheme, nat \<times> byte list + int \<times> byte list) kernel" where
  "consoleread_resume i target n dst = kbind (consoleread_loop target n dst) (\<lambda>r.
     case r of
       Inl (n, dst) \<Rightarrow>
         kseq (kmodify (\<lambda>s. upd_proc (curproc s) (\<lambda>p. p\<lparr>p_chan := Some Chan_input, p_state := SLEEPING\<rparr>) s))
              (kreturn (Inl (n, dst)))
     | Inr (None, dst) \<Rightarrow> kseq (ilock i) (kreturn (Inr (-1, dst)))
     | Inr (Some n, dst) \<Rightarrow> kseq (ilock i) (kreturn (Inr (int target - int n, dst))))"

definition consoleread ::
  "nat \<Rightarrow> nat \<Rightarrow> ('a cons_state_scheme, nat \<times> byte list + int \<times> byte list) kernel" where
  "consoleread i n = kseq (iunlock i) (consoleread_resume i n n [])"

definition consolewrite :: "nat \<Rightarrow> byte list \<Rightarrow> ('a cons_state_scheme, int) kernel" where
  "consolewrite i bs = kseq (iunlock i)
     (kseq (kfor bs (\<lambda>b. consputc (unat b)))
     (kseq (ilock i) (kreturn (int (length bs)))))"

definition consoleinit :: "('a cons_state_scheme, unit) kernel" where
  "consoleinit = kmodify (\<lambda>s. s\<lparr>devsw := (devsw s)(1 := True)\<rparr>)"

section \<open>The screen\<close>

interpretation in_ring: ring INPUT_BUF
  by unfold_locales simp_all

text \<open>\<open>shown s t\<close>: from \<open>s\<close> to \<open>t\<close> only the screen and the serial line have changed, and the cursor is on the
  screen's first 24 rows.\<close>

definition shown :: "'a cons_state_scheme \<Rightarrow> 'a cons_state_scheme \<Rightarrow> bool" where
  "shown s t \<longleftrightarrow> (\<exists>m p u. t = s\<lparr>crt := m, crt_pos := p, uart_out := u\<rparr> \<and> p < 24 * 80)"

definition screen_ok :: "'a cons_state_scheme \<Rightarrow> bool" where
  "screen_ok s \<longleftrightarrow> \<not> panicked s \<and> crt_pos s < 24 * 80"

lemma newline_pos: "p < 24 * 80 \<Longrightarrow> p + 80 - p mod 80 \<le> 24 * 80" for p :: nat
proof -
  assume p: "p < 24 * 80"
  have "p = p div 80 * 80 + p mod 80" by simp
  moreover have "p div 80 < 24" using p by (simp add: less_mult_imp_div_less)
  ultimately show ?thesis by linarith
qed

lemma cga_put_pos: "p < 24 * 80 \<Longrightarrow> snd (cga_put c (m, p)) \<le> 24 * 80"
  using newline_pos [of p] by (auto simp: cga_put_def)

lemma cga_scroll_pos: "p \<le> 24 * 80 \<Longrightarrow> snd (cga_scroll (m, p)) < 24 * 80"
  by (auto simp: cga_scroll_def Let_def less_mult_imp_div_less not_le div_less_iff_less_mult)

lemma wp_cgaputc:
  assumes "screen_ok s" and Q: "\<And>t. shown s t \<Longrightarrow> Q () t"
  shows "wp (cgaputc c) Q s"
proof -
  obtain m p where cp: "cga_put c (crt s, crt_pos s) = (m, p)" by fastforce
  obtain m' p' where cs: "cga_scroll (m, p) = (m', p')" by fastforce
  have p: "p \<le> 24 * 80" "p' < 24 * 80"
    using assms(1) cga_put_pos [of "crt_pos s" c "crt s"] cga_scroll_pos [of p m] cp cs
    by (simp_all add: screen_ok_def)
  have "shown s (s\<lparr>crt_pos := p', crt := m'(p' := 32 + 0x700)\<rparr>)"
    unfolding shown_def
    by (rule exI [of _ "m'(p' := 32 + 0x700)"], rule exI [of _ p'], rule exI [of _ "uart_out s"])
      (use p in simp)
  then show ?thesis using p Q by (simp add: cgaputc_def cp cs)
qed

lemma shown_trans: "shown s t \<Longrightarrow> shown t u \<Longrightarrow> shown s u"
  unfolding shown_def by fastforce

lemma screen_ok_uart [simp]: "screen_ok (s\<lparr>uart_out := u\<rparr>) = screen_ok s"
  by (simp add: screen_ok_def)

lemma shown_uart: "screen_ok s \<Longrightarrow> shown s (s\<lparr>uart_out := u\<rparr>)"
  unfolding shown_def screen_ok_def
  by (rule exI [of _ "crt s"], rule exI [of _ "crt_pos s"], rule exI [of _ u]) simp

lemma shown_screen_ok: "shown s t \<Longrightarrow> screen_ok s \<Longrightarrow> screen_ok t"
  by (auto simp: shown_def screen_ok_def)

lemma wp_uartputc:
  assumes "screen_ok s" and Q: "\<And>t. shown s t \<Longrightarrow> Q () t"
  shows "wp (uartputc c) Q s"
  using shown_uart [OF assms(1)] Q shown_uart [OF assms(1), of "uart_out s"] by (simp add: uartputc_def)

text \<open>Output never panics and keeps the cursor on the screen.\<close>

lemma wp_consputc:
  assumes "screen_ok s" and Q: "\<And>t. shown s t \<Longrightarrow> Q () t"
  shows "wp (consputc c) Q s"
proof -
  have np: "\<not> panicked s" using assms(1) by (simp add: screen_ok_def)
  have last: "wp (cgaputc c) Q t" if "shown s t" for t
    using wp_cgaputc [OF shown_screen_ok [OF that assms(1)], of Q c] Q shown_trans [OF that] by blast
  show ?thesis
  proof (cases "c = BACKSPACE")
    case False
    then show ?thesis using np wp_uartputc [OF assms(1) last] by (simp add: consputc_def)
  next
    case True
    have "wp (uartputc 8) (\<lambda>_. wp (uartputc 32) (\<lambda>_. wp (uartputc 8) (\<lambda>_. wp (cgaputc c) Q))) s"
      by (rule wp_uartputc [OF assms(1)], rule wp_uartputc, erule shown_screen_ok [OF _ assms(1)],
          rule wp_uartputc, metis shown_trans shown_screen_ok assms(1), rule last, metis shown_trans)
    then show ?thesis using np True by (simp add: consputc_def)
  qed
qed

section \<open>The line editor\<close>

text \<open>The abstract editor: the bytes of complete lines, and the line being edited.\<close>

type_synonym editor = "byte list \<times> byte list"

definition ed_char :: "nat \<Rightarrow> editor \<Rightarrow> editor" where
  "ed_char c = (\<lambda>(com, ed).
     if c = 16 \<or> c = 0 then (com, ed)
     else if c = 21 then (com, [])
     else if c = 8 \<or> c = 127 then (com, butlast ed)
     else if length com + length ed < INPUT_BUF then
       let c = (if c = 13 then 10 else c); ed = ed @ [of_nat c] in
       if c = 10 \<or> c = 4 \<or> length com + length ed = INPUT_BUF then (com @ ed, []) else (com, ed)
     else (com, ed))"

definition editor :: "'a cons_state_scheme \<Rightarrow> editor" where
  "editor s = (ring_seg INPUT_BUF (in_buf s) (in_r s) (unat (in_w s - in_r s)),
               ring_seg INPUT_BUF (in_buf s) (in_w s) (unat (in_e s - in_w s)))"

definition cons_inv :: "'a cons_state_scheme \<Rightarrow> bool" where
  "cons_inv s \<longleftrightarrow> screen_ok s \<and> unat (in_w s - in_r s) \<le> unat (in_e s - in_r s) \<and>
     unat (in_e s - in_r s) \<le> INPUT_BUF \<and> set (snd (editor s)) \<inter> {10, 4} = {}"

lemma shown_input:
  assumes "shown s t"
  shows "in_buf t = in_buf s" "in_r t = in_r s" "in_w t = in_w s" "in_e t = in_e s" "editor t = editor s"
  using assms by (auto simp: shown_def editor_def)

lemma shown_inv: "shown s t \<Longrightarrow> cons_inv s \<Longrightarrow> cons_inv t"
  using shown_input [of s t] shown_screen_ok [of s t] by (auto simp: cons_inv_def)

lemma editor_erase:
  assumes "cons_inv s" "in_e s \<noteq> in_w s"
  shows "editor (s\<lparr>in_e := in_e s - 1\<rparr>) = (fst (editor s), butlast (snd (editor s)))"
    and "cons_inv (s\<lparr>in_e := in_e s - 1\<rparr>)"
    and "unat (in_e s - in_w s) = Suc (unat (in_e s - 1 - in_w s))"
    and "in_buf s (unat (in_e s - 1) mod INPUT_BUF) \<noteq> 10"
proof -
  have d: "unat (in_e s - in_w s) = unat (in_e s - in_r s) - unat (in_w s - in_r s)"
    using assms(1) index_dist [of "in_w s" "in_r s" "in_e s"] by (simp add: cons_inv_def)
  have n: "unat (in_e s - in_w s) \<noteq> 0" using assms(2) unat_index_0 [of "in_e s" "in_w s"] by simp
  then show k: "unat (in_e s - in_w s) = Suc (unat (in_e s - 1 - in_w s))"
    using unat_index_pred [OF assms(2)] by simp
  have er: "in_e s \<noteq> in_r s" using n d unat_index_0 [of "in_e s" "in_r s"] by auto
  have last: "snd (editor s) = ring_seg INPUT_BUF (in_buf s) (in_w s) (unat (in_e s - 1 - in_w s)) @
      [in_buf s (unat (in_e s - 1) mod INPUT_BUF)]"
    using index_of_dist [of "in_e s - 1" "in_w s"] by (simp add: editor_def k ring_seg_Suc)
  show e: "editor (s\<lparr>in_e := in_e s - 1\<rparr>) = (fst (editor s), butlast (snd (editor s)))"
    unfolding last by (simp add: editor_def)
  have "unat (in_e s - 1 - in_r s) = unat (in_e s - in_r s) - 1" by (rule unat_index_pred [OF er])
  then show "cons_inv (s\<lparr>in_e := in_e s - 1\<rparr>)"
    using assms(1) n d e in_set_butlastD [of _ "snd (editor s)"]
    by (auto simp: cons_inv_def screen_ok_def)
  show "in_buf s (unat (in_e s - 1) mod INPUT_BUF) \<noteq> 10"
    using assms(1) by (auto simp: cons_inv_def last)
qed

lemma kill_line_wp:
  assumes "cons_inv s" "k = unat (in_e s - in_w s)"
    and Q: "\<And>t. cons_inv t \<Longrightarrow> editor t = (fst (editor s), []) \<Longrightarrow> Q () t"
  shows "wp (kill_line k) Q s"
  using assms
proof (induction k arbitrary: s)
  case 0
  then show ?case by (simp add: editor_def)
next
  case (Suc k)
  then have ne: "in_e s \<noteq> in_w s" by auto
  note er = editor_erase [OF Suc.prems(1) ne]
  let ?s = "s\<lparr>in_e := in_e s - 1\<rparr>"
  have "wp (consputc BACKSPACE) (\<lambda>_. wp (kill_line k) Q) ?s"
  proof (rule wp_consputc)
    show "screen_ok ?s" using er(2) by (simp add: cons_inv_def)
  next
    fix t assume t: "shown ?s t"
    show "wp (kill_line k) Q t"
    proof (rule Suc.IH)
      show "cons_inv t" using shown_inv [OF t er(2)] .
      show "k = unat (in_e t - in_w t)" using shown_input [OF t] er(3) Suc.prems(2) by simp
      show "Q () u" if "cons_inv u" "editor u = (fst (editor t), [])" for u
        using Suc.prems(3) that shown_input(5) [OF t] er(1) by simp
    qed
  qed
  then show ?case using ne er(4) by simp
qed

lemma editor_add:
  fixes s :: "'a cons_state_scheme" and x :: byte
  assumes "cons_inv s" "unat (in_e s - in_r s) < INPUT_BUF"
  defines "t \<equiv> s\<lparr>in_buf := (in_buf s)(unat (in_e s) mod INPUT_BUF := x), in_e := in_e s + 1\<rparr>"
  shows "editor t = (fst (editor s), snd (editor s) @ [x])"
    and "unat (in_e t - in_r t) = unat (in_e s - in_r s) + 1"
    and "unat (in_e t - in_w t) = unat (in_e s - in_w s) + 1"
    and "ring_seg INPUT_BUF (in_buf t) (in_r t) (unat (in_e t - in_r t)) = fst (editor s) @ snd (editor s) @ [x]"
proof -
  let ?r = "in_r s" and ?w = "in_w s" and ?e = "in_e s" and ?b = "in_buf s"
  have o: "unat (?w - ?r) \<le> unat (?e - ?r)" using assms(1) by (simp add: cons_inv_def)
  have d: "unat (?e - ?w) = unat (?e - ?r) - unat (?w - ?r)" by (rule index_dist [OF o])
  show er: "unat (in_e t - in_r t) = unat (?e - ?r) + 1"
    using unat_index_Suc [of ?e ?r] assms(2) by (simp add: t_def)
  show ew: "unat (in_e t - in_w t) = unat (?e - ?w) + 1"
    using unat_index_Suc [of ?e ?w] assms(2) d by (simp add: t_def)
  have whole: "ring_seg INPUT_BUF (in_buf t) ?r (Suc (unat (?e - ?r))) = ring_seg INPUT_BUF ?b ?r (unat (?e - ?r)) @ [x]"
    using in_ring.seg_push [OF assms(2), of ?b ?r x] by (simp add: t_def)
  have split: "ring_seg INPUT_BUF ?b ?r (unat (?e - ?r)) = fst (editor s) @ snd (editor s)"
    using ring_seg_add [of INPUT_BUF ?b ?r "unat (?w - ?r)" "unat (?e - ?w)"] d o by (simp add: editor_def)
  have parts: "ring_seg INPUT_BUF (in_buf t) ?r (Suc (unat (?e - ?r))) =
      ring_seg INPUT_BUF (in_buf t) ?r (unat (?w - ?r)) @ ring_seg INPUT_BUF (in_buf t) ?w (Suc (unat (?e - ?w)))"
    using ring_seg_add [of INPUT_BUF "in_buf t" ?r "unat (?w - ?r)" "Suc (unat (?e - ?w))"] d o by simp
  have "ring_seg INPUT_BUF (in_buf t) ?r (unat (?w - ?r)) = fst (editor s) \<and>
      ring_seg INPUT_BUF (in_buf t) ?w (Suc (unat (?e - ?w))) = snd (editor s) @ [x]"
    using whole parts split by (simp add: editor_def)
  then show "editor t = (fst (editor s), snd (editor s) @ [x])"
    using ew by (simp add: editor_def [of t]) (simp add: t_def)
  show "ring_seg INPUT_BUF (in_buf t) (in_r t) (unat (in_e t - in_r t)) = fst (editor s) @ snd (editor s) @ [x]"
    using whole split er by (simp add: t_def)
qed

lemma editor_lengths:
  assumes "cons_inv s"
  shows "length (fst (editor s)) + length (snd (editor s)) = unat (in_e s - in_r s)"
  using assms index_dist [of "in_w s" "in_r s" "in_e s"] by (simp add: cons_inv_def editor_def)

lemma editor_commit:
  assumes "screen_ok s" "unat (in_e s - in_r s) \<le> INPUT_BUF"
  shows "cons_inv (s\<lparr>in_w := in_e s\<rparr>)"
    and "editor (s\<lparr>in_w := in_e s\<rparr>) = (ring_seg INPUT_BUF (in_buf s) (in_r s) (unat (in_e s - in_r s)), [])"
  using assms by (simp_all add: cons_inv_def editor_def screen_ok_def)

lemma wake_all_cons [simp]:
  "cons_inv (wake_all c s) = cons_inv s" "editor (wake_all c s) = editor s" for s :: "'a cons_state_scheme"
  by (simp_all add: cons_inv_def editor_def screen_ok_def wake_all_def)

lemma full_iff: "e = r + of_nat INPUT_BUF \<longleftrightarrow> unat (e - r) = INPUT_BUF" for e r :: index
proof
  assume "unat (e - r) = INPUT_BUF"
  then show "e = r + of_nat INPUT_BUF" by (metis index_of_dist)
qed simp

text \<open>A character that goes into the buffer.\<close>

lemma add_char_wp:
  assumes inv: "cons_inv s" and room: "unat (in_e s - in_r s) < INPUT_BUF" and c: "c < 256"
    and Q: "\<And>t. cons_inv t \<Longrightarrow>
      editor t = (let (com, ed) = editor s; ed = ed @ [of_nat c] in
        if c = 10 \<or> c = 4 \<or> length com + length ed = INPUT_BUF then (com @ ed, []) else (com, ed)) \<Longrightarrow> Q () t"
  shows "wp (kseq (kmodify (\<lambda>s. s\<lparr>in_buf := (in_buf s)(unat (in_e s) mod INPUT_BUF := of_nat c), in_e := in_e s + 1\<rparr>))
             (kseq (consputc c) (kbind (kget id) (\<lambda>s.
                kwhen (c = 10 \<or> c = 4 \<or> in_e s = in_r s + of_nat INPUT_BUF)
                  (kseq (kmodify (\<lambda>s. s\<lparr>in_w := in_e s\<rparr>)) (wakeup Chan_input)))))) Q s"
proof -
  let ?x = "of_nat c :: byte"
  let ?s = "s\<lparr>in_buf := (in_buf s)(unat (in_e s) mod INPUT_BUF := ?x), in_e := in_e s + 1\<rparr>"
  note add = editor_add [OF inv room, of ?x]
  note len = editor_lengths [OF inv]
  have sok: "screen_ok ?s" using inv by (simp add: cons_inv_def screen_ok_def)
  have x: "?x = 10 \<longleftrightarrow> c = 10" "?x = 4 \<longleftrightarrow> c = 4"
    using c by (auto simp: word_unat_eq_iff unat_of_nat)
  have fin: "wp (kwhen (c = 10 \<or> c = 4 \<or> in_e t = in_r t + of_nat INPUT_BUF)
                  (kseq (kmodify (\<lambda>s. s\<lparr>in_w := in_e s\<rparr>)) (wakeup Chan_input))) Q t" if t: "shown ?s t" for t
  proof -
    note ti = shown_input [OF t]
    have tok: "screen_ok t" using shown_screen_ok [OF t sok] .
    have te: "unat (in_e t - in_r t) = unat (in_e s - in_r s) + 1" using ti add(2) by simp
    have full: "in_e t = in_r t + of_nat INPUT_BUF \<longleftrightarrow> length (fst (editor s)) + length (snd (editor s)) + 1 = INPUT_BUF"
      unfolding full_iff te len ..
    show ?thesis
    proof (cases "c = 10 \<or> c = 4 \<or> in_e t = in_r t + of_nat INPUT_BUF")
      case True
      have "editor (t\<lparr>in_w := in_e t\<rparr>) = (fst (editor s) @ snd (editor s) @ [?x], [])"
        using editor_commit(2) [OF tok] te room ti add(4) by simp
      then have "Q () (wake_all Chan_input (t\<lparr>in_w := in_e t\<rparr>))"
        using True full editor_commit(1) [OF tok] te room
        by (intro Q) (auto simp: Let_def split: prod.split)
      then show ?thesis using True by simp
    next
      case False
      have ed: "editor t = (fst (editor s), snd (editor s) @ [?x])" using ti(5) add(1) by simp
      have "cons_inv ?s"
        using inv False x add room sok by (auto simp: cons_inv_def)
      then have "cons_inv t" using shown_inv [OF t] by simp
      then have "Q () t" using False full ed by (intro Q) (auto simp: Let_def split: prod.split)
      then show ?thesis using False by simp
    qed
  qed
  have "wp (consputc c) (\<lambda>_ t. wp (kwhen (c = 10 \<or> c = 4 \<or> in_e t = in_r t + of_nat INPUT_BUF)
                  (kseq (kmodify (\<lambda>s. s\<lparr>in_w := in_e s\<rparr>)) (wakeup Chan_input))) Q t) ?s"
    by (rule wp_consputc [OF sok]) (rule fin)
  then show ?thesis by simp
qed

lemma consoleintr_char_wp:
  assumes inv: "cons_inv s" and c: "c < 256"
    and Q: "\<And>t d. cons_inv t \<Longrightarrow> editor t = ed_char c (editor s) \<Longrightarrow> Q d t"
  shows "wp (consoleintr_char c) Q s"
proof -
  consider "c = 16" | "c = 21" | "c = 8 \<or> c = 127" | "c = 0" | "c \<notin> {16, 21, 8, 127, 0}" by auto
  then show ?thesis
  proof cases
    case 1
    then show ?thesis using inv Q by (simp add: consoleintr_char_def ed_char_def split: prod.split)
  next
    case 2
    have "wp (kill_line (unat (in_e s - in_w s))) (\<lambda>_. Q False) s"
      by (rule kill_line_wp [OF inv refl], rule Q) (simp_all add: 2 ed_char_def split: prod.split)
    then show ?thesis using 2 by (simp add: consoleintr_char_def)
  next
    case 3
    show ?thesis
    proof (cases "in_e s = in_w s")
      case True
      then have "snd (editor s) = []" by (simp add: editor_def)
      then have "ed_char c (editor s) = editor s" using 3 by (cases "editor s") (auto simp: ed_char_def)
      then show ?thesis using 3 inv Q True by (auto simp: consoleintr_char_def)
    next
      case False
      note er = editor_erase [OF inv False]
      have "ed_char c (editor s) = (fst (editor s), butlast (snd (editor s)))"
        using 3 by (cases "editor s") (auto simp: ed_char_def)
      then have "wp (consputc BACKSPACE) (\<lambda>_. Q False) (s\<lparr>in_e := in_e s - 1\<rparr>)"
        using er by (intro wp_consputc Q) (auto simp: shown_inv shown_input cons_inv_def [THEN iffD1])
      then show ?thesis using 3 False by (auto simp: consoleintr_char_def)
    qed
  next
    case 4
    then show ?thesis using inv Q by (simp add: consoleintr_char_def ed_char_def split: prod.split)
  next
    case 5
    let ?c = "if c = 13 then 10 else c"
    show ?thesis
    proof (cases "unat (in_e s - in_r s) < INPUT_BUF")
      case False
      then have "ed_char c (editor s) = editor s"
        using 5 editor_lengths [OF inv] by (cases "editor s") (simp add: ed_char_def)
      then show ?thesis using 5 inv Q False by (simp add: consoleintr_char_def)
    next
      case True
      have "ed_char c (editor s) = (let (com, ed) = editor s; ed = ed @ [of_nat ?c] in
        if ?c = 10 \<or> ?c = 4 \<or> length com + length ed = INPUT_BUF then (com @ ed, []) else (com, ed))"
        using 5 True editor_lengths [OF inv] by (cases "editor s") (auto simp: ed_char_def Let_def)
      then have "wp (kseq (kmodify (\<lambda>s. s\<lparr>in_buf := (in_buf s)(unat (in_e s) mod INPUT_BUF := of_nat ?c), in_e := in_e s + 1\<rparr>))
             (kseq (consputc ?c) (kbind (kget id) (\<lambda>s.
                kwhen (?c = 10 \<or> ?c = 4 \<or> in_e s = in_r s + of_nat INPUT_BUF)
                  (kseq (kmodify (\<lambda>s. s\<lparr>in_w := in_e s\<rparr>)) (wakeup Chan_input)))))) (\<lambda>_. Q False) s"
        using c by (intro add_char_wp [OF inv True] Q) auto
      then show ?thesis using 5 True unfolding consoleintr_char_def Let_def by simp
    qed
  qed
qed

lemma consoleintr_loop_wp:
  fixes s :: "'a cons_state_scheme"
  assumes "cons_inv s" and "\<forall>c \<in> set cs. c < 256"
  shows "wp (consoleintr_loop cs dump) (\<lambda>d t. cons_inv t \<and> editor t = fold ed_char cs (editor s)) s"
  using assms
proof (induction cs arbitrary: s dump)
  case (Cons c cs)
  have "wp (consoleintr_char c) (\<lambda>d. wp (consoleintr_loop cs (dump \<or> d))
      (\<lambda>d t. cons_inv t \<and> editor t = fold ed_char (c # cs) (editor s))) s"
  proof (rule consoleintr_char_wp)
    show "cons_inv s" "c < 256" using Cons.prems by simp_all
  next
    fix t :: "'a cons_state_scheme" and d
    assume t: "cons_inv t" "editor t = ed_char c (editor s)"
    show "wp (consoleintr_loop cs (dump \<or> d)) (\<lambda>d t. cons_inv t \<and> editor t = fold ed_char (c # cs) (editor s)) t"
      using Cons.IH [OF t(1)] Cons.prems(2) t(2) by simp
  qed
  then show ?case by simp
qed simp

text \<open>C11: The keyboard interrupt handler implements a line editor: on every sequence of characters,
  wrap-around of the indices included, it never panics, keeps the input buffer's invariant, and does
  to the ring exactly what the abstract editor does to its two lists (erase, kill line, complete a
  line at Enter, Control-D or when 128 bytes are waiting).\<close>

theorem consoleintr_refines:
  fixes s :: "'a cons_state_scheme"
  assumes "cons_inv s" and "\<forall>c \<in> set cs. c < 256"
  shows "wp (consoleintr_loop cs dump) (\<lambda>d t. cons_inv t \<and> editor t = fold ed_char cs (editor s)) s"
  using assms by (rule consoleintr_loop_wp)

text \<open>A booted machine with a blank screen; the input indices are just below the wrap-around.\<close>

definition demo_cons :: cons_state where
  "demo_cons = fs_state.extend demo_fs
     (cons_state.fields (\<lambda>_. 0x720) 0 True [] False (\<lambda>_. 0) (- 2) (- 2) (- 2) (\<lambda>_. False))"

lemma demo_cons_inv: "cons_inv demo_cons" "editor demo_cons = ([], [])"
  by (simp_all add: demo_cons_def cons_state.defs fs_state.defs cons_inv_def screen_ok_def editor_def)

theorem consoleintr_refines_witness:
  "wp (consoleintr_loop [97, 98, 8, 99, 13] False) (\<lambda>d t. cons_inv t \<and> editor t = ([97, 99, 10], [])) demo_cons"
  using consoleintr_refines [OF demo_cons_inv(1), of "[97, 98, 8, 99, 13]" False]
  by (simp add: demo_cons_inv ed_char_def)

section \<open>Reading a line\<close>

text \<open>What a read of the abstract editor's complete lines gives: the result of the loop and the bytes
  that remain.\<close>

fun line_read :: "bool \<Rightarrow> nat \<Rightarrow> nat \<Rightarrow> byte list \<Rightarrow> byte list \<Rightarrow>
  (nat \<times> byte list + nat option \<times> byte list) \<times> byte list" where
  "line_read killed target 0 dst com = (Inr (Some 0, dst), com)"
| "line_read killed target (Suc n) dst [] = (if killed then Inr (None, dst) else Inl (Suc n, dst), [])"
| "line_read killed target (Suc n) dst (c # com) =
     (if c = 4 then (Inr (Some (Suc n), dst), if Suc n < target then c # com else com)
      else if c = 10 then (Inr (Some n, dst @ [c]), com)
      else line_read killed target n (dst @ [c]) com)"

lemma editor_take:
  assumes "cons_inv s" "in_r s \<noteq> in_w s"
  shows "editor s = (in_buf s (unat (in_r s) mod INPUT_BUF) # fst (editor (s\<lparr>in_r := in_r s + 1\<rparr>)),
      snd (editor (s\<lparr>in_r := in_r s + 1\<rparr>)))"
    and "cons_inv (s\<lparr>in_r := in_r s + 1\<rparr>)"
proof -
  have wr: "in_w s \<noteq> in_r s" using assms(2) by simp
  have n: "unat (in_w s - in_r s) \<noteq> 0" using wr unat_index_0 [of "in_w s" "in_r s"] by simp
  have w: "unat (in_w s - (in_r s + 1)) = unat (in_w s - in_r s) - 1" by (rule unat_index_next [OF wr])
  have er: "in_e s \<noteq> in_r s" using n assms(1) unat_index_0 [of "in_e s" "in_r s"] by (auto simp: cons_inv_def)
  have e: "unat (in_e s - (in_r s + 1)) = unat (in_e s - in_r s) - 1" by (rule unat_index_next [OF er])
  obtain k where k: "unat (in_w s - in_r s) = Suc k" using n not0_implies_Suc by blast
  then have "unat (in_w s - (in_r s + 1)) = k" using w by simp
  then show "editor s = (in_buf s (unat (in_r s) mod INPUT_BUF) # fst (editor (s\<lparr>in_r := in_r s + 1\<rparr>)),
      snd (editor (s\<lparr>in_r := in_r s + 1\<rparr>)))"
    by (simp add: editor_def k ring_seg_Cons)
  show "cons_inv (s\<lparr>in_r := in_r s + 1\<rparr>)"
    using assms(1) w e by (auto simp: cons_inv_def screen_ok_def editor_def)
qed

lemma consoleread_loop_wp:
  assumes "cons_inv s"
  shows "wp (consoleread_loop target n dst) (\<lambda>r t. cons_inv t \<and> snd (editor t) = snd (editor s) \<and>
    (r, fst (editor t)) = line_read (p_killed (myproc s)) target n dst (fst (editor s))) s"
  using assms
proof (induction n arbitrary: s dst)
  case (Suc n)
  show ?case
  proof (cases "in_r s = in_w s")
    case True
    then have "fst (editor s) = []" by (simp add: editor_def)
    then show ?thesis using True Suc.prems by simp
  next
    case False
    let ?c = "in_buf s (unat (in_r s) mod INPUT_BUF)" and ?s = "s\<lparr>in_r := in_r s + 1\<rparr>"
    note tk = editor_take [OF Suc.prems False]
    have my: "myproc ?s = myproc s" by (simp add: myproc_def)
    have undo: "?s\<lparr>in_r := in_r ?s - 1\<rparr> = s" by simp
    have IH: "wp (consoleread_loop target n (dst @ [?c])) (\<lambda>r t. cons_inv t \<and> snd (editor t) = snd (editor s) \<and>
      (r, fst (editor t)) = line_read (p_killed (myproc s)) target n (dst @ [?c]) (fst (editor ?s))) ?s"
      using Suc.IH [OF tk(2), of "dst @ [?c]"] my tk(1) by simp
    have f: "fst (editor s) = ?c # fst (editor ?s)" "snd (editor s) = snd (editor ?s)"
      using tk(1) by (metis fst_conv) (metis tk(1) snd_conv)
    consider "?c = 4" | "?c = 10" | "?c \<noteq> 4" "?c \<noteq> 10" by auto
    then show ?thesis
    proof cases
      case 1
      then show ?thesis using False f tk(2) Suc.prems undo by (simp add: Let_def)
    next
      case 2
      then show ?thesis using False f tk(2) by (simp add: Let_def)
    next
      case 3
      then show ?thesis using False f IH by (simp add: Let_def)
    qed
  qed
qed simp

definition plain :: "byte list \<Rightarrow> bool" where
  "plain line \<longleftrightarrow> set line \<inter> {0, 4, 8, 10, 13, 16, 21, 127} = {}"

lemma unat_byte_eq: "unat (b :: byte) = k \<longleftrightarrow> b = of_nat k" if "k < 256"
  using that by (auto simp: word_unat_eq_iff unat_of_nat)

lemma ed_plain:
  "plain line \<Longrightarrow> length ed + length line < INPUT_BUF \<Longrightarrow>
   fold ed_char (map unat line) ([], ed) = ([], ed @ line)"
proof (induction line arbitrary: ed)
  case (Cons x line)
  have "ed_char (unat x) ([], ed) = ([], ed @ [x])"
    using Cons.prems by (simp add: ed_char_def plain_def unat_byte_eq Let_def)
  then show ?case using Cons by (simp add: plain_def)
qed simp

lemma line_read_plain:
  "plain line \<Longrightarrow> length line < n \<Longrightarrow>
   line_read k target n dst (line @ 10 # rest) = (Inr (Some (n - length line - 1), dst @ line @ [10]), rest)"
proof (induction line arbitrary: n dst)
  case Nil
  then show ?case by (cases n) simp_all
next
  case (Cons x line)
  then show ?case by (cases n) (simp_all add: plain_def)
qed



end
