(* ===== verification/Kbd.thy ===== *)
theory Kbd
  imports Console
begin

text \<open>
  The keyboard and the receiving half of the serial port, \<^verbatim>\<open>kbd.c\<close>, \<^verbatim>\<open>kbd.h\<close> and \<^verbatim>\<open>uart.c\<close>: from scan codes to the characters that the
  console's interrupt handler sees.  A table of 256 entries is its listed prefix with the designated entries.  The main
  result composes the keyboard with the line editor of the console: what the keys say is the line that is read.
\<close>

section \<open>Tables\<close>

abbreviation SHIFT :: "32 word" where "SHIFT \<equiv> 1"
abbreviation CTL :: "32 word" where "CTL \<equiv> 2"
abbreviation ALT :: "32 word" where "ALT \<equiv> 4"
abbreviation CAPSLOCK :: "32 word" where "CAPSLOCK \<equiv> 8"
abbreviation NUMLOCK :: "32 word" where "NUMLOCK \<equiv> 16"
abbreviation SCROLLLOCK :: "32 word" where "SCROLLLOCK \<equiv> 32"
abbreviation E0ESC :: "32 word" where "E0ESC \<equiv> 64"

definition entry :: "nat list \<Rightarrow> (nat \<times> nat) list \<Rightarrow> nat \<Rightarrow> nat" where
  "entry xs ds i = (case map_of ds i of Some v \<Rightarrow> v | None \<Rightarrow> if i < length xs then xs ! i else 0)"

definition shiftcode :: "nat \<Rightarrow> 32 word" where
  "shiftcode i = (if i = 0x1D \<or> i = 0x9D then CTL else if i = 0x2A \<or> i = 0x36 then SHIFT
     else if i = 0x38 \<or> i = 0xB8 then ALT else 0)"

definition togglecode :: "nat \<Rightarrow> 32 word" where
  "togglecode i = (if i = 0x3A then CAPSLOCK else if i = 0x45 then NUMLOCK else if i = 0x46 then SCROLLLOCK else 0)"

text \<open>The keys of the extended block, which all three maps share.\<close>

definition keypad :: "(nat \<times> nat) list" where
  "keypad = [(0xC8, 0xE2), (0xD0, 0xE3), (0xC9, 0xE6), (0xD1, 0xE7), (0xCB, 0xE4), (0xCD, 0xE5),
     (0x97, 0xE0), (0xCF, 0xE1), (0xD2, 0xE8), (0xD3, 0xE9)]"

definition normalkeys :: "nat list" where
  "normalkeys =
      [0, 0x1B, 49, 50, 51, 52, 53, 54, 55, 56, 57, 48, 45, 61, 8, 9,
       113, 119, 101, 114, 116, 121, 117, 105, 111, 112, 91, 93, 10, 0, 97, 115,
       100, 102, 103, 104, 106, 107, 108, 59, 39, 96, 0, 92, 122, 120, 99, 118,
       98, 110, 109, 44, 46, 47, 0, 42, 0, 32, 0, 0, 0, 0, 0, 0,
       0, 0, 0, 0, 0, 0, 0, 55, 56, 57, 45, 52, 53, 54, 43, 49,
       50, 51, 48, 46, 0, 0, 0, 0]"

definition normalmap :: "nat \<Rightarrow> nat" where
  "normalmap = entry normalkeys ((0x9C, 10) # (0xB5, 47) # keypad)"

definition shiftkeys :: "nat list" where
  "shiftkeys =
      [0, 27, 33, 64, 35, 36, 37, 94, 38, 42, 40, 41, 95, 43, 8, 9,
       81, 87, 69, 82, 84, 89, 85, 73, 79, 80, 123, 125, 10, 0, 65, 83,
       68, 70, 71, 72, 74, 75, 76, 58, 34, 126, 0, 124, 90, 88, 67, 86,
       66, 78, 77, 60, 62, 63, 0, 42, 0, 32, 0, 0, 0, 0, 0, 0,
       0, 0, 0, 0, 0, 0, 0, 55, 56, 57, 45, 52, 53, 54, 43, 49,
       50, 51, 48, 46, 0, 0, 0, 0]"

definition shiftmap :: "nat \<Rightarrow> nat" where
  "shiftmap = entry shiftkeys ((0x9C, 10) # (0xB5, 47) # keypad)"

text \<open>\<^verbatim>\<open>C('/')\<close> is negative, so it is the byte 239 in an array of \<^verbatim>\<open>uchar\<close>.\<close>

definition ctlmap :: "nat \<Rightarrow> nat" where
  "ctlmap = entry
     ([0, 0, 0, 0, 0, 0, 0, 0, 0, 0, 0, 0, 0, 0, 0, 0,
       17, 23, 5, 18, 20, 25, 21, 9, 15, 16, 0, 0, 13, 0, 1, 19,
       4, 6, 7, 8, 10, 11, 12, 0, 0, 0, 0, 28, 26, 24, 3, 22,
       2, 14, 13, 0, 0, 239, 0, 0]) ((0x9C, 13) # (0xB5, 239) # keypad)"

definition charcode :: "32 word \<Rightarrow> nat \<Rightarrow> nat" where
  "charcode k = (if k = 0 then normalmap else if k = 1 then shiftmap else ctlmap)"

section \<open>Operations\<close>

definition caps :: "nat \<Rightarrow> nat" where
  "caps c = (if 97 \<le> c \<and> c \<le> 122 then c - 32 else if 65 \<le> c \<and> c \<le> 90 then c + 32 else c)"

text \<open>\<open>kbdgetc\<close> when the controller has the byte \<open>data\<close>: the character and the new state of the shift keys.\<close>

definition kbd_decode :: "32 word \<Rightarrow> 32 word \<Rightarrow> nat \<times> 32 word" where
  "kbd_decode data shift =
     (if data = 0xE0 then (0, or shift E0ESC)
      else if and data 0x80 \<noteq> 0 then
        let data = (if and shift E0ESC \<noteq> 0 then data else and data 0x7F) in
        (0, and shift (not (or (shiftcode (unat data)) E0ESC)))
      else
        let (data, shift) = (if and shift E0ESC \<noteq> 0 then (or data 0x80, and shift (not E0ESC)) else (data, shift));
            shift = or shift (shiftcode (unat data));
            shift = xor shift (togglecode (unat data));
            c = charcode (and shift (or CTL SHIFT)) (unat data) in
        (if and shift CAPSLOCK \<noteq> 0 then caps c else c, shift))"

definition kbdgetc :: "byte option \<Rightarrow> 32 word \<Rightarrow> int \<times> 32 word" where
  "kbdgetc port shift = (case port of None \<Rightarrow> (- 1, shift)
     | Some data \<Rightarrow> (case kbd_decode (ucast data) shift of (c, shift) \<Rightarrow> (int c, shift)))"

text \<open>The characters of a series of scan codes, as the handler's loop takes them one by one.\<close>

primrec kbd_chars :: "byte list \<Rightarrow> 32 word \<Rightarrow> nat list \<times> 32 word" where
  "kbd_chars [] shift = ([], shift)"
| "kbd_chars (d # ds) shift = (case kbdgetc (Some d) shift of (c, shift) \<Rightarrow>
     (case kbd_chars ds shift of (cs, shift) \<Rightarrow> (nat c # cs, shift)))"

definition kbdintr ::
  "('a cons_state_scheme, unit) kernel \<Rightarrow> byte list \<Rightarrow> 32 word \<Rightarrow> ('a cons_state_scheme, 32 word) kernel" where
  "kbdintr procdump codes shift = (case kbd_chars codes shift of (cs, shift) \<Rightarrow>
     kseq (consoleintr procdump cs) (kreturn shift))"

text \<open>The serial port: the status register says if a byte has arrived.\<close>

definition uartgetc :: "bool \<Rightarrow> nat \<Rightarrow> byte \<Rightarrow> int" where
  "uartgetc uart status data = (if \<not> uart then - 1 else if and status 1 = 0 then - 1 else uint data)"

definition uartintr :: "('a cons_state_scheme, unit) kernel \<Rightarrow> byte list \<Rightarrow> ('a cons_state_scheme, unit) kernel" where
  "uartintr procdump arrived = kbind (kget uart_on) (\<lambda>uart. consoleintr procdump (if uart then map unat arrived else []))"

text \<open>The writes to the port's registers, and the announcement.\<close>

definition COM1 :: nat where "COM1 = 0x3f8"

definition uart_setup :: "(nat \<times> nat) list" where
  "uart_setup = [(COM1 + 2, 0), (COM1 + 3, 0x80), (COM1 + 0, 115200 div 9600), (COM1 + 1, 0), (COM1 + 3, 3), (COM1 + 4, 0), (COM1 + 1, 1)]"

definition uartinit :: "nat \<Rightarrow> ('a cons_state_scheme, (nat \<times> nat) list) kernel" where
  "uartinit status = (if status = 0xFF then kreturn uart_setup
     else kseq (kmodify (\<lambda>s. s\<lparr>uart_on := True\<rparr>))
       (kseq (kfor (map of_char ''xv6...'' @ [10]) uartputc) (kreturn uart_setup)))"

section \<open>Typing\<close>

text \<open>The keys to press for a character: its key alone, or with the left Shift key held.\<close>

definition key_in :: "(nat \<Rightarrow> nat) \<Rightarrow> byte \<Rightarrow> nat option" where
  "key_in keys c = find (\<lambda>k. keys k = unat c) [0..<0x58]"

definition typed :: "byte \<Rightarrow> byte list" where
  "typed c = (case key_in normalmap c of Some k \<Rightarrow> [of_nat k, of_nat k + 0x80]
     | None \<Rightarrow> (case key_in shiftmap c of Some k \<Rightarrow> [0x2A, of_nat k, of_nat k + 0x80, 0xAA] | None \<Rightarrow> []))"

definition printable :: "byte list" where
  "printable = map of_nat [32..<127]"

text \<open>The entries of the two maps below the keypad, and that every printable character is among them.\<close>

lemma map_entry:
  assumes "\<forall>k \<in> fst ` set ds. length xs \<le> k" "i < length xs"
  shows "entry xs ds i = xs ! i"
  using assms by (auto simp: entry_def split: option.splits dest!: map_of_SomeD)

lemma key_in_some: "k < 0x58 \<Longrightarrow> keys k = unat c \<Longrightarrow> \<exists>j. key_in keys c = Some j"
  by (cases "key_in keys c") (auto simp: key_in_def find_None_iff)

lemma keys_length: "length normalkeys = 0x58" "length shiftkeys = 0x58"
  by (simp_all add: normalkeys_def shiftkeys_def)

lemma map_keys: "i < 0x58 \<Longrightarrow> normalmap i = normalkeys ! i" "i < 0x58 \<Longrightarrow> shiftmap i = shiftkeys ! i"
  unfolding normalmap_def shiftmap_def by (rule map_entry; simp add: keys_length keypad_def)+

lemma printable_keys: "list_all (\<lambda>c. c \<in> set normalkeys \<or> c \<in> set shiftkeys) (10 # [32..<127])"
  by (simp add: normalkeys_def shiftkeys_def)

lemma printable_key: "c \<in> set (10 # printable) \<Longrightarrow> unat c \<in> set normalkeys \<or> unat c \<in> set shiftkeys"
proof -
  assume "c \<in> set (10 # printable)"
  then have "unat c \<in> set (10 # [32..<127])" unfolding printable_def list.set set_upt set_map
    by (auto simp: unat_of_nat simp del: upt.simps set_upt)
  then show ?thesis using printable_keys unfolding list_all_iff by blast
qed

lemma typed_cases:
  assumes "c \<in> set (10 # printable)"
  obtains k where "k < 0x58" "normalmap k = unat c" "typed c = [of_nat k, of_nat k + 0x80]"
  | k where "k < 0x58" "shiftmap k = unat c" "typed c = [0x2A, of_nat k, of_nat k + 0x80, 0xAA]"
proof (cases "key_in normalmap c")
  case (Some k)
  then have "k < 0x58" "normalmap k = unat c" by (auto simp: key_in_def dest!: find_Some_iff')
  with Some that(1) show ?thesis by (simp add: typed_def)
next
  case None
  note printable_key [OF assms]
  moreover have "unat c \<notin> set normalkeys"
    using None key_in_some [of _ normalmap c] map_keys(1) by (auto simp: in_set_conv_nth keys_length)
  ultimately obtain i where "i < 0x58" "shiftkeys ! i = unat c" by (auto simp: in_set_conv_nth keys_length)
  then obtain j where "key_in shiftmap c = Some j" using key_in_some [of i shiftmap c] map_keys(2) by auto
  moreover from this have "j < 0x58" "shiftmap j = unat c" by (auto simp: key_in_def dest!: find_Some_iff')
  ultimately show ?thesis using None that(2) by (simp add: typed_def)
qed

text \<open>The keys that change the shift state have no character, so the others only give theirs.\<close>

lemma modifier_keys:
  "k < 0x58 \<Longrightarrow> keys \<in> {normalmap, shiftmap} \<Longrightarrow> keys k \<noteq> 0 \<Longrightarrow> shiftcode k = 0 \<and> togglecode k = 0"
  by (auto simp: shiftcode_def togglecode_def map_keys normalkeys_def shiftkeys_def split: if_splits)

lemma key_bits:
  "list_all (\<lambda>k. let p = ucast (of_nat k :: byte) :: 32 word; r = ucast (of_nat k + 0x80 :: byte) :: 32 word in
     unat p = k \<and> p \<noteq> 0xE0 \<and> and p 0x80 = 0 \<and> r \<noteq> 0xE0 \<and> and r 0x80 \<noteq> 0 \<and> and r 0x7F = p) [0..<0x58]"
  by (simp add: upt_conv_Cons)

lemma key_at:
  assumes "k < 0x58"
  shows "let p = ucast (of_nat k :: byte) :: 32 word; r = ucast (of_nat k + 0x80 :: byte) :: 32 word in
     unat p = k \<and> p \<noteq> 0xE0 \<and> and p 0x80 = 0 \<and> r \<noteq> 0xE0 \<and> and r 0x80 \<noteq> 0 \<and> and r 0x7F = p"
proof -
  have "k \<in> set [0..<0x58]" unfolding set_upt using assms by simp
  then show ?thesis using key_bits unfolding list_all_iff by blast
qed

lemma press_key:
  assumes "k < 0x58" "shiftcode k = 0" "togglecode k = 0"
  shows "kbd_decode (ucast (of_nat k :: byte)) 0 = (normalmap k, 0)" "kbd_decode (ucast (of_nat k :: byte)) 1 = (shiftmap k, 1)"
    and "kbd_decode (ucast (of_nat k + 0x80 :: byte)) 0 = (0, 0)" "kbd_decode (ucast (of_nat k + 0x80 :: byte)) 1 = (0, 1)"
  using assms key_at [OF assms(1)] by (simp_all add: kbd_decode_def charcode_def Let_def)

lemma press_shift: "kbd_decode 0x2A 0 = (0, 1)" "kbd_decode 0xAA 1 = (0, 0)"
  by (simp_all add: kbd_decode_def shiftcode_def togglecode_def charcode_def map_keys shiftkeys_def)

text \<open>Every printable character and Enter can be typed, which leaves the shift keys as they were.\<close>

lemma typed_ok:
  assumes "c \<in> set (10 # printable)"
  shows "\<exists>cs. kbd_chars (typed c) 0 = (cs, 0) \<and> filter (\<lambda>c. c \<noteq> 0) cs = [unat c]"
proof -
  have nz: "unat c \<noteq> 0" using assms unfolding printable_def list.set set_map set_upt by (auto simp: unat_of_nat)
  from assms show ?thesis
  proof (cases rule: typed_cases)
    case (1 k)
    then have "shiftcode k = 0" "togglecode k = 0" using modifier_keys [of k normalmap] nz by auto
    then show ?thesis using 1 nz by (simp add: kbdgetc_def press_key)
  next
    case (2 k)
    then have "shiftcode k = 0" "togglecode k = 0" using modifier_keys [of k shiftmap] nz by auto
    then show ?thesis using 2 nz by (simp add: kbdgetc_def press_key press_shift)
  qed
qed

lemma kbd_chars_append:
  "kbd_chars (xs @ ys) shift = (case kbd_chars xs shift of (cs, shift) \<Rightarrow>
     (case kbd_chars ys shift of (ds, shift) \<Rightarrow> (cs @ ds, shift)))"
  by (induction xs arbitrary: shift) (auto simp: split: prod.splits)

lemma kbd_chars_typed:
  assumes "set line \<subseteq> set (10 # printable)"
  shows "\<exists>cs. kbd_chars (concat (map typed line)) 0 = (cs, 0) \<and> filter (\<lambda>c. c \<noteq> 0) cs = map unat line"
  using assms
proof (induction line)
  case (Cons c line)
  then obtain cs where cs: "kbd_chars (concat (map typed line)) 0 = (cs, 0)" "filter (\<lambda>c. c \<noteq> 0) cs = map unat line" by auto
  obtain ds where ds: "kbd_chars (typed c) 0 = (ds, 0)" "filter (\<lambda>c. c \<noteq> 0) ds = [unat c]"
    using typed_ok [of c] Cons.prems by auto
  show ?case using cs ds by (simp add: kbd_chars_append)
qed simp

lemma caps_byte: "c < 256 \<Longrightarrow> caps c < 256"
  by (auto simp: caps_def)

lemma entry_byte: "\<forall>x \<in> set xs. x < 256 \<Longrightarrow> \<forall>x \<in> snd ` set ds. x < 256 \<Longrightarrow> entry xs ds i < 256"
  by (auto simp: entry_def split: option.splits dest!: map_of_SomeD)

lemma charcode_byte: "charcode k i < 256"
  by (auto simp: charcode_def normalmap_def shiftmap_def ctlmap_def keypad_def normalkeys_def shiftkeys_def intro!: entry_byte)

lemma kbd_decode_byte: "fst (kbd_decode d shift) < 256"
  by (auto simp: kbd_decode_def Let_def charcode_byte caps_byte split: prod.splits)

lemma kbd_chars_byte: "\<forall>c \<in> set (fst (kbd_chars ds shift)). c < 256"
  using kbd_decode_byte by (induction ds arbitrary: shift) (auto simp: kbdgetc_def split: prod.splits, (metis fst_conv)+)

text \<open>The line editor ignores the zeros that key releases give.\<close>

lemma ed_char_0: "ed_char 0 e = e"
  by (cases e) (simp add: ed_char_def)

lemma ed_filter: "fold ed_char (filter (\<lambda>c. c \<noteq> 0) cs) e = fold ed_char cs e"
  by (induction cs arbitrary: e) (auto simp: ed_char_0)

text \<open>Only Control-P asks for the process listing.\<close>

lemma char_dump: "consoleintr_char c s = Done d t \<Longrightarrow> d \<longleftrightarrow> c = 16"
  by (auto simp: consoleintr_char_def kernel_defs kwhen_def split: if_splits outcome.splits)

lemma loop_dump: "consoleintr_loop cs dump s = Done d t \<Longrightarrow> d \<longleftrightarrow> dump \<or> 16 \<in> set cs"
proof (induction cs arbitrary: dump s)
  case (Cons c cs)
  then show ?case by (auto simp: kbind_def dest!: char_dump split: outcome.splits)
qed (simp add: kernel_defs)

lemma wp_and_returns: "wp f Q s \<Longrightarrow> (\<And>a t. f s = Done a t \<Longrightarrow> P a) \<Longrightarrow> wp f (\<lambda>a t. P a \<and> Q a t) s"
  by (auto simp: wp_def split: outcome.splits)

text \<open>C13: Pressing the keys of any line of at most 127 printable characters and then Enter, each key with the Shift key
  where the character needs it, puts exactly that line with its newline into the console's buffer for readers and leaves
  the shift keys released: the translation of scan codes, the key-release codes and the line editor compose.\<close>

theorem keyboard_line:
  fixes s :: "'a cons_state_scheme"
  assumes "cons_inv s" "editor s = ([], [])" "set line \<subseteq> set printable" "length line < INPUT_BUF"
  shows "wp (kbdintr procdump (concat (map typed line) @ typed 10) 0)
    (\<lambda>shift t. shift = 0 \<and> cons_inv t \<and> editor t = (line @ [10], [])) s"
proof -
  obtain cs where cs: "kbd_chars (concat (map typed (line @ [10]))) 0 = (cs, 0)" "filter (\<lambda>c. c \<noteq> 0) cs = map unat line @ [10]"
    using kbd_chars_typed [of "line @ [10]"] assms(3) by auto
  have small: "\<forall>c \<in> set cs. c < 256" using kbd_chars_byte [of "concat (map typed (line @ [10]))" 0] unfolding cs by simp
  have pl: "plain line" using assms(3) unfolding plain_def printable_def set_map set_upt
    by (auto simp: word_unat_eq_iff unat_of_nat)
  have ed: "fold ed_char cs (editor s) = (line @ [10], [])"
    using ed_filter [of cs "editor s"] ed_plain [OF pl, of "[]"] assms(2,4) cs(2) by (simp add: ed_char_def Let_def)
  have "16 \<notin> set (filter (\<lambda>c. c \<noteq> 0) cs)" unfolding cs(2) using pl by (auto simp: plain_def unat_byte_eq)
  then have nodump: "16 \<notin> set cs" by simp
  then have nd: "\<not> d" if "consoleintr_loop cs False s = Done d t" for d t using loop_dump [OF that] by simp
  have "wp (consoleintr_loop cs False) (\<lambda>d t. \<not> d \<and> cons_inv t \<and> editor t = (line @ [10], [])) s"
    using wp_and_returns [OF consoleintr_loop_wp [OF assms(1) small, of False], of Not, OF nd] ed by simp
  then show ?thesis using cs(1) by (simp add: kbdintr_def consoleintr_def) (erule wp_mono, simp)
qed

theorem keyboard_line_witness:
  "wp (kbdintr (kreturn ()) (concat (map typed [76, 115]) @ typed 10) 0)
    (\<lambda>shift t. shift = 0 \<and> cons_inv t \<and> editor t = ([76, 115, 10], [])) demo_cons"
  using keyboard_line [OF demo_cons_inv, of "[76, 115]" "kreturn ()"] by (simp add: printable_def)

end
