(* ===== verification/Pool.thy ===== *)
theory Pool
  imports Kalloc
begin

text \<open>
  The page allocator over its life: \<open>freerange\<close> hands it the pages of a range, and from then on callers take pages, write to the pages they
  hold, and give them back, in any order.
\<close>

section \<open>Filling the pool\<close>

definition range_pages :: "nat \<Rightarrow> nat \<Rightarrow> nat set" where
  "range_pages p vend = {x. \<exists>k. x = p + k * PGSIZE \<and> x + PGSIZE \<le> vend}"

lemma range_pages_step:
  "p + PGSIZE \<le> vend \<Longrightarrow> range_pages p vend = insert p (range_pages (p + PGSIZE) vend)"
proof -
  assume le: "p + PGSIZE \<le> vend"
  have "(\<exists>k. x = p + k * PGSIZE) \<longleftrightarrow> x = p \<or> (\<exists>k. x = p + PGSIZE + k * PGSIZE)" for x
  proof
    assume "\<exists>k. x = p + k * PGSIZE"
    then obtain k where "x = p + k * PGSIZE" ..
    then show "x = p \<or> (\<exists>k. x = p + PGSIZE + k * PGSIZE)" by (cases k) auto
  next
    assume "x = p \<or> (\<exists>k. x = p + PGSIZE + k * PGSIZE)"
    then show "\<exists>k. x = p + k * PGSIZE" by (elim disjE exE) (rule exI [of _ 0], simp, metis add.assoc mult_Suc)
  qed
  with le show ?thesis by (auto simp: range_pages_def)
qed

lemma range_pages_none: "\<not> p + PGSIZE \<le> vend \<Longrightarrow> range_pages p vend = {}"
  by (auto simp: range_pages_def)

lemma range_pages_above: "x \<in> range_pages p vend \<Longrightarrow> p \<le> x"
  by (auto simp: range_pages_def)

lemma freerange_loop_wp:
  "kmem_inv s xs \<Longrightarrow> \<forall>x \<in> range_pages p vend. page_ok (km_end s) x \<and> x \<notin> set xs \<Longrightarrow>
   wp (freerange_loop p vend) (\<lambda>_ t. \<exists>ys. kmem_inv t ys \<and> set ys = set xs \<union> range_pages p vend \<and> km_end t = km_end s) s"
proof (induction p vend arbitrary: s xs rule: freerange_loop.induct)
  case (1 p vend)
  show ?case
  proof (cases "p + PGSIZE \<le> vend")
    case True
    note r = range_pages_step [OF True]
    have "page_ok (km_end s) p" "p \<notin> set xs" using "1.prems"(2) r by simp_all
    from kfree_ok [OF "1.prems"(1) this] obtain t where
      t: "kfree p s = Done () t" "kmem_inv t (p # xs)" "t = s\<lparr>km_mem := km_mem t, km_freelist := p\<rparr>" by blast
    have e: "km_end t = km_end s" by (subst t(3)) simp
    have "\<forall>x \<in> range_pages (p + PGSIZE) vend. page_ok (km_end t) x \<and> x \<notin> set (p # xs)"
      using "1.prems"(2) r e range_pages_above [of _ "p + PGSIZE" vend] by fastforce
    note ih = "1.IH" [OF True t(2) this]
    show ?thesis using True ih t(1) by (subst freerange_loop.simps) (simp add: wp_def kernel_defs r e)
  qed (subst freerange_loop.simps, use 1 in \<open>auto simp: range_pages_none\<close>)
qed

lemma freerange_wp:
  "kmem_inv s xs \<Longrightarrow> \<forall>x \<in> range_pages (PGROUNDUP vstart) vend. page_ok (km_end s) x \<and> x \<notin> set xs \<Longrightarrow>
   wp (freerange vstart vend) (\<lambda>_ t. \<exists>ys. kmem_inv t ys \<and> set ys = set xs \<union> range_pages (PGROUNDUP vstart) vend \<and> km_end t = km_end s) s"
  unfolding freerange_def by (rule freerange_loop_wp)

section \<open>Using it\<close>

text \<open>A step of the callers, with the set of the pages that they hold.\<close>

inductive pool_step :: "'a kmem_state_scheme \<times> nat set \<Rightarrow> 'a kmem_state_scheme \<times> nat set \<Rightarrow> bool" where
  take_page: "kalloc s = Done p t \<Longrightarrow> pool_step (s, held) (t, if p = 0 then held else insert p held)"
| use_page: "p \<in> held \<Longrightarrow> \<forall>x. \<not> (p \<le> x \<and> x < p + PGSIZE) \<longrightarrow> m x = km_mem s x \<Longrightarrow> pool_step (s, held) (s\<lparr>km_mem := m\<rparr>, held)"
| give_page: "p \<in> held \<Longrightarrow> kfree p s = Done () t \<Longrightarrow> pool_step (s, held) (t, held - {p})"

definition pool_ok :: "nat set \<Rightarrow> 'a kmem_state_scheme \<times> nat set \<Rightarrow> bool" where
  "pool_ok all x \<longleftrightarrow> (\<exists>xs. kmem_inv (fst x) xs \<and> set xs \<inter> snd x = {} \<and> set xs \<union> snd x = all \<and> (\<forall>p \<in> all. page_ok (km_end (fst x)) p))"

lemma pool_okE:
  assumes "pool_ok all (s, held)"
  obtains xs where "kmem_inv s xs" "set xs \<inter> held = {}" "set xs \<union> held = all" "\<forall>p \<in> all. page_ok (km_end s) p"
  using assms by (auto simp: pool_ok_def)

lemma page_ok_pos: "kmem_inv s xs \<Longrightarrow> x \<in> set xs \<Longrightarrow> x \<noteq> 0"
  by (auto simp: kmem_inv_def page_ok_def)

lemma pool_take:
  assumes "pool_ok all (s, held)"
  shows "wp kalloc (\<lambda>p t. pool_ok all (t, if p = 0 then held else insert p held) \<and> p \<notin> held \<and> (p = 0 \<longleftrightarrow> held = all) \<and>
    (p \<noteq> 0 \<longrightarrow> p \<in> all)) s"
  using assms
proof (cases rule: pool_okE)
  case (1 xs)
  have "\<not> page_ok (km_end s) 0" using 1(1) by (simp add: kmem_inv_def page_ok_def)
  then have z: "0 \<notin> all" using 1(4) by blast
  show ?thesis
  proof (cases xs)
    case Nil
    then have "kalloc s = Done 0 s" using 1 by (simp add: kalloc_empty)
    then show ?thesis using 1 z Nil assms by (intro wpI) auto
  next
    case (Cons x ys)
    with 1 kalloc_Cons [of s x ys] obtain t where t: "kalloc s = Done x t" "kmem_inv t ys" "km_end t = km_end s" by auto
    have x: "x \<noteq> 0" "x \<notin> set ys" "x \<in> all" "x \<notin> held" using 1 Cons z by (auto simp: kmem_inv_def)
    then have "pool_ok all (t, insert x held)" using t 1 Cons by (auto simp: pool_ok_def intro!: exI [of _ ys])
    then show ?thesis using x t(1) by (intro wpI [of kalloc s x t]) auto
  qed
qed

lemma pool_give:
  assumes "pool_ok all (s, held)" "p \<in> held"
  shows "wp (kfree p) (\<lambda>_ t. pool_ok all (t, held - {p})) s"
  using assms(1)
proof (cases rule: pool_okE)
  case (1 xs)
  have "page_ok (km_end s) p" "p \<notin> set xs" using 1 assms(2) by auto
  from kfree_ok [OF 1(1) this] obtain t where
    t: "kfree p s = Done () t" "kmem_inv t (p # xs)" "t = s\<lparr>km_mem := km_mem t, km_freelist := p\<rparr>" by blast
  have "km_end t = km_end s" by (subst t(3)) simp
  then have "pool_ok all (t, held - {p})" using t(2) 1 assms(2) by (auto simp: pool_ok_def intro!: exI [of _ "p # xs"])
  then show ?thesis using t(1) by (simp add: wp_def)
qed

lemma pool_step_ok:
  assumes "pool_step x y" "pool_ok all x"
  shows "pool_ok all y"
  using assms
proof (cases rule: pool_step.cases)
  case (take_page s p t held)
  then have "pool_ok all (s, held)" using assms(2) by simp
  from wp_DoneD [OF pool_take [OF this] take_page(3)] show ?thesis unfolding take_page(2) by blast
next
  case (use_page p held m s)
  from assms(2) [unfolded use_page] show ?thesis
  proof (cases rule: pool_okE)
    case (1 xs)
    have "page_ok (km_end s) p" "p \<notin> set xs" using 1 use_page by auto
    then have "kmem_inv (s\<lparr>km_mem := m\<rparr>) xs" using kmem_inv_write_used [OF 1(1)] use_page(4) by blast
    then show ?thesis using 1 use_page by (auto simp: pool_ok_def)
  qed
next
  case (give_page p held s t)
  then show ?thesis using assms(2) wp_DoneD [OF pool_give, of all s held p "()" t] by simp
qed

lemma pool_reachable: "pool_step\<^sup>*\<^sup>* x y \<Longrightarrow> pool_ok all x \<Longrightarrow> pool_ok all y"
  by (induction rule: rtranclp_induct) (auto intro: pool_step_ok)

text \<open>C37: No page is lost, shared or invented.  After \<open>kinit2\<close> has filled an empty allocator with the pages of a range, and the callers have
  taken pages, written to the pages they hold and given them back in any order, every page of the range is either held or on the free list and
  never both, the free list is well-formed, a held page can always be given back, and \<open>kalloc\<close> yields a page of the range that
  nobody holds, failing exactly when all of them are held.\<close>

theorem pages_conserved:
  fixes s :: "'a kmem_state_scheme"
  assumes empty: "kmem_inv s []" and pages: "\<forall>x \<in> range_pages (PGROUNDUP vstart) vend. page_ok (km_end s) x"
    and init: "kinit2 vstart vend s = Done () t" and run: "pool_step\<^sup>*\<^sup>* (t, {}) (u, held)"
  shows "(\<exists>xs. kmem_inv u xs \<and> set xs \<inter> held = {} \<and> set xs \<union> held = range_pages (PGROUNDUP vstart) vend) \<and>
    (\<forall>p \<in> held. wp (kfree p) (\<lambda>_ _. True) u) \<and>
    wp kalloc (\<lambda>p _. (p = 0 \<longleftrightarrow> held = range_pages (PGROUNDUP vstart) vend) \<and>
      (p \<noteq> 0 \<longrightarrow> p \<in> range_pages (PGROUNDUP vstart) vend - held)) u"
proof -
  let ?all = "range_pages (PGROUNDUP vstart) vend"
  have "\<forall>x \<in> ?all. page_ok (km_end s) x \<and> x \<notin> set []" using pages by simp
  from freerange_wp [OF empty this] obtain t' ys where
    t': "freerange vstart vend s = Done () t'" "kmem_inv t' ys" "set ys = ?all" "km_end t' = km_end s" by (elim wp_unitE) auto
  then have t: "t = t'\<lparr>km_use_lock := True\<rparr>" using init by (simp add: kinit2_def kernel_defs)
  have "pool_ok ?all (t, {})" using t' pages by (auto simp: pool_ok_def t kmem_inv_def intro!: exI [of _ ys])
  then have ok: "pool_ok ?all (u, held)" by (rule pool_reachable [OF run])
  have "wp (kfree p) (\<lambda>_ _. True) u" if "p \<in> held" for p by (rule wp_mono [OF pool_give [OF ok that]]) simp
  moreover have "wp kalloc (\<lambda>p _. (p = 0 \<longleftrightarrow> held = ?all) \<and> (p \<noteq> 0 \<longrightarrow> p \<in> ?all - held)) u"
    by (rule wp_mono [OF pool_take [OF ok]]) auto
  moreover have "\<exists>xs. kmem_inv u xs \<and> set xs \<inter> held = {} \<and> set xs \<union> held = ?all" by (rule pool_okE [OF ok]) blast
  ultimately show ?thesis by blast
qed

definition demo_mem :: kmem_state where
  "demo_mem = \<lparr>km_mem = (\<lambda>_. 0), km_freelist = 0, km_use_lock = False, km_end = 0x80400000\<rparr>"

theorem pages_conserved_witness:
  "\<exists>t u. kinit2 0x80400010 0x80403000 demo_mem = Done () t \<and> kalloc t = Done 0x80402000 u \<and>
    wp (kfree 0x80402000) (\<lambda>_ _. True) u \<and> wp kalloc (\<lambda>p _. p = 0x80401000) u"
proof -
  have r: "range_pages (PGROUNDUP 0x80400010) 0x80403000 = {0x80401000, 0x80402000}"
    by (simp add: PGROUNDUP_eq range_pages_step range_pages_none)
  have empty: "kmem_inv demo_mem []" by (simp add: kmem_inv_def demo_mem_def)
  have pages: "\<forall>x \<in> range_pages (PGROUNDUP 0x80400010) 0x80403000. page_ok (km_end demo_mem) x"
    by (simp add: r demo_mem_def page_ok_def V2P_def)
  have "\<forall>x \<in> range_pages (PGROUNDUP 0x80400010) 0x80403000. page_ok (km_end demo_mem) x \<and> x \<notin> set []" using pages by simp
  from freerange_wp [OF empty this] obtain t where t: "kinit2 0x80400010 0x80403000 demo_mem = Done () t"
    by (elim wp_unitE) (simp add: kinit2_def kernel_defs)
  have f: "km_freelist t = 0x80402000"
    using t by (simp add: kinit2_def freerange_def freerange_loop.simps PGROUNDUP_eq kfree_def kernel_defs demo_mem_def V2P_def) auto
  then obtain u where u: "kalloc t = Done 0x80402000 u" by (simp add: kalloc_def kernel_defs)
  have "pool_step\<^sup>*\<^sup>* (t, {}) (u, {0x80402000})" using take_page [OF u, of "{}"] by auto
  from pages_conserved [OF empty pages t this] have "wp (kfree 0x80402000) (\<lambda>_ _. True) u"
    "wp kalloc (\<lambda>p _. p = 0x80401000) u" by (auto simp: r insert_eq_iff elim!: wp_mono)
  then show ?thesis using t u by blast
qed

end
