(* ===== verification/MemIde.thy ===== *)
theory MemIde
  imports Ide
begin

text \<open>
  The two disk drivers.  Either of \<^verbatim>\<open>ide.c\<close> and \<^verbatim>\<open>memide.c\<close> can be linked under the buffer cache; the interface \<open>disk_driver\<close> says what the
  cache needs of them, and both provide it.
\<close>

text \<open>\<open>ready\<close> is when the driver can serve a request for a buffer; then the request brings the buffer and the disk in agreement, in the
  direction the dirty bit gives, and touches no other buffer and no other block.\<close>

locale disk_driver =
  fixes rw :: "nat \<Rightarrow> ('a disk_state_scheme, unit) kernel" and ready :: "nat \<Rightarrow> 'a disk_state_scheme \<Rightarrow> bool"
  assumes serves: "ready i s \<Longrightarrow> wp (rw i) (\<lambda>_ t. bufs t = bufs (ide_transfer i s) \<and> disk t = disk (ide_transfer i s) \<and>
    disk_writes t = disk_writes (ide_transfer i s)) s"
begin

lemma synced:
  assumes "ready i s"
  shows "wp (rw i) (\<lambda>_ t. ide_done i t \<and> b_data (bufs t i) = disk t (drive (b_dev (bufs s i))) (b_blockno (bufs s i)) \<and>
    (\<not> b_dirty (bufs s i) \<longrightarrow> disk t = disk s) \<and> (b_dirty (bufs s i) \<longrightarrow> b_data (bufs t i) = b_data (bufs s i)) \<and>
    (\<forall>j. j \<noteq> i \<longrightarrow> bufs t j = bufs s j) \<and>
    (\<forall>d b. (d, b) \<noteq> (drive (b_dev (bufs s i)), b_blockno (bufs s i)) \<longrightarrow> disk t d b = disk s d b)) s"
  by (rule wp_mono [OF serves [OF assms]]) (auto simp: ide_transfer_def Let_def ide_done_def)

end

definition mem_ready :: "nat \<Rightarrow> nat \<Rightarrow> 'a disk_state_scheme \<Rightarrow> bool" where
  "mem_ready disksize i s \<longleftrightarrow> sl_locked (b_lock (bufs s i)) \<and> sl_pid (b_lock (bufs s i)) = p_pid (myproc s) \<and>
     \<not> ide_done i s \<and> b_dev (bufs s i) = 1 \<and> b_blockno (bufs s i) < disksize"

lemma mem_iderw_ready:
  assumes "mem_ready disksize i s"
  shows "mem_iderw disksize i s = Done () (ide_transfer i s)"
  using assms by (cases "bufs s i") (auto simp: mem_ready_def mem_iderw_def holdingsleep_def buf_lock_def kernel_defs ide_done_def
    ide_transfer_def Let_def drive_def upd_buf_def disk_write_def)

interpretation ide_disk: disk_driver iderw ide_ready
  by unfold_locales (simp add: wp_def iderw_ready)

interpretation mem_disk: disk_driver "mem_iderw disksize" "mem_ready disksize" for disksize
  by unfold_locales (simp add: wp_def mem_iderw_ready)


definition demo_disk :: disk_state where
  "demo_disk = \<lparr>km_mem = (\<lambda>_. 0), km_freelist = 0, km_use_lock = True, km_end = 0x80400000, ptable = demo_ptable, nextpid = 2,
     curproc = 0, initproc = 0, sym_trapret = 0, sym_forkret = 0, disk = (\<lambda>_ _. replicate 512 0), disk_writes = [], havedisk1 = True,
     idequeue = [], bufs = (\<lambda>_. \<lparr>b_valid = False, b_dirty = True, b_dev = 1, b_blockno = 7,
       b_lock = \<lparr>sl_locked = True, sl_pid = 1\<rparr>, b_refcnt = 1, b_data = replicate 512 5\<rparr>)\<rparr>"


end
