(* ===== verification/Vm.thy ===== *)
theory Vm
  imports Kalloc
begin

text \<open>
  Virtual memory, \<^verbatim>\<open>vm.c\<close>.  Page directories and page tables are pages of the allocator, and their entries are
  32-bit words in the kernel's memory, read and written at their kernel addresses, as the code does.  A pointer is an
  address, 0 being the null pointer.  The linker's symbol \<^verbatim>\<open>data\<close> is a parameter, and so is the printing of the two messages of
  \<open>allocuvm\<close>.  The registers of the processor that \<open>seginit\<close>, \<open>switchkvm\<close> and \<open>switchuvm\<close> load are not part
  of the state.
\<close>

section \<open>Addresses and entries (mmu.h)\<close>

abbreviation NPDENTRIES :: nat where "NPDENTRIES \<equiv> 1024"
abbreviation PTE_P :: nat where "PTE_P \<equiv> 1"
abbreviation PTE_W :: nat where "PTE_W \<equiv> 2"
abbreviation PTE_U :: nat where "PTE_U \<equiv> 4"

definition PDX :: "nat \<Rightarrow> nat" where
  "PDX va = va div 2 ^ 22 mod 1024"

definition PTX :: "nat \<Rightarrow> nat" where
  "PTX va = va div 2 ^ 12 mod 1024"

definition PGADDR :: "nat \<Rightarrow> nat \<Rightarrow> nat \<Rightarrow> nat" where
  "PGADDR d t off = (d * 2 ^ 22 + t * 2 ^ 12 + off) mod 2 ^ 32"

definition PTE_ADDR :: "nat \<Rightarrow> nat" where
  "PTE_ADDR pte = pte div PGSIZE * PGSIZE"

definition PTE_FLAGS :: "nat \<Rightarrow> nat" where
  "PTE_FLAGS pte = pte mod PGSIZE"

definition store_u32 :: "nat \<Rightarrow> nat \<Rightarrow> ('a kmem_state_scheme, unit) kernel" where
  "store_u32 a v = kmodify (\<lambda>s. s\<lparr>km_mem := write_u32 a v (km_mem s)\<rparr>)"

definition load_u32 :: "nat \<Rightarrow> ('a kmem_state_scheme, nat) kernel" where
  "load_u32 a = kget (\<lambda>s. read_u32 a (km_mem s))"

definition zero_page :: "nat \<Rightarrow> ('a kmem_state_scheme, unit) kernel" where
  "zero_page a = kmodify (\<lambda>s. s\<lparr>km_mem := mem_set a 0 PGSIZE (km_mem s)\<rparr>)"

section \<open>Page tables\<close>

definition walkpgdir :: "nat \<Rightarrow> nat \<Rightarrow> bool \<Rightarrow> ('a kmem_state_scheme, nat) kernel" where
  "walkpgdir pgdir va alloc = kbind (load_u32 (pgdir + 4 * PDX va)) (\<lambda>pde.
     if pde AND PTE_P \<noteq> 0 then kreturn (P2V (PTE_ADDR pde) + 4 * PTX va)
     else if \<not> alloc then kreturn 0
     else kbind kalloc (\<lambda>pgtab.
       if pgtab = 0 then kreturn 0
       else kseq (zero_page pgtab)
         (kseq (store_u32 (pgdir + 4 * PDX va) (V2P pgtab OR PTE_P OR PTE_W OR PTE_U))
               (kreturn (pgtab + 4 * PTX va)))))"

text \<open>One round of \<open>mappages\<close>: whether there was memory for it.\<close>

definition map_one :: "nat \<Rightarrow> nat \<Rightarrow> nat \<Rightarrow> nat \<Rightarrow> ('a kmem_state_scheme, bool) kernel" where
  "map_one pgdir perm a pa = kbind (walkpgdir pgdir a True) (\<lambda>pte.
     if pte = 0 then kreturn False
     else kbind (load_u32 pte) (\<lambda>old.
       if old AND PTE_P \<noteq> 0 then kpanic ''remap''
       else kseq (store_u32 pte (pa OR perm OR PTE_P)) (kreturn True)))"

text \<open>The loop of \<open>mappages\<close> with \<open>k\<close> rounds to go after this one, which is when \<^verbatim>\<open>a == last\<close>.\<close>

primrec mappages_loop :: "nat \<Rightarrow> nat \<Rightarrow> nat \<Rightarrow> nat \<Rightarrow> nat \<Rightarrow> ('a kmem_state_scheme, int) kernel" where
  "mappages_loop pgdir perm 0 a pa = kbind (map_one pgdir perm a pa) (\<lambda>ok. kreturn (if ok then 0 else -1))"
| "mappages_loop pgdir perm (Suc k) a pa = kbind (map_one pgdir perm a pa) (\<lambda>ok.
     if ok then mappages_loop pgdir perm k ((a + PGSIZE) mod 2 ^ 32) ((pa + PGSIZE) mod 2 ^ 32) else kreturn (-1))"

definition mappages :: "nat \<Rightarrow> nat \<Rightarrow> nat \<Rightarrow> nat \<Rightarrow> nat \<Rightarrow> ('a kmem_state_scheme, int) kernel" where
  "mappages pgdir va sz pa perm =
     (let a = PGROUNDDOWN va; last = PGROUNDDOWN ((va + sz + (2 ^ 32 - 1)) mod 2 ^ 32) in
      mappages_loop pgdir perm ((last + 2 ^ 32 - a) mod 2 ^ 32 div PGSIZE) a pa)"

text \<open>The loop of \<open>deallocuvm\<close>.  When a missing page table is the last one of the directory, the C code's
  address wraps around and its loop starts again from 0, for ever; no caller passes such an address.\<close>

function dealloc_loop :: "nat \<Rightarrow> nat \<Rightarrow> nat \<Rightarrow> ('a kmem_state_scheme, unit) kernel" where
  "dealloc_loop pgdir oldsz a =
     (if a < oldsz then
        kbind (walkpgdir pgdir a False) (\<lambda>pte.
          if pte = 0 then
            if PGADDR (PDX a + 1) 0 0 \<le> a then kpanic ''deallocuvm: endless''
            else dealloc_loop pgdir oldsz (PGADDR (PDX a + 1) 0 0)
          else kbind (load_u32 pte) (\<lambda>v.
            if v AND PTE_P \<noteq> 0 then
              if PTE_ADDR v = 0 then kpanic ''kfree''
              else kseq (kfree (P2V (PTE_ADDR v))) (kseq (store_u32 pte 0) (dealloc_loop pgdir oldsz (a + PGSIZE)))
            else dealloc_loop pgdir oldsz (a + PGSIZE)))
      else kreturn ())"
  by pat_completeness auto
termination
  by (relation "measure (\<lambda>(pgdir, oldsz, a). oldsz - a)") auto

declare dealloc_loop.simps [simp del]

definition deallocuvm :: "nat \<Rightarrow> nat \<Rightarrow> nat \<Rightarrow> ('a kmem_state_scheme, nat) kernel" where
  "deallocuvm pgdir oldsz newsz =
     (if newsz \<ge> oldsz then kreturn oldsz
      else kseq (dealloc_loop pgdir oldsz (PGROUNDUP newsz)) (kreturn newsz))"

definition freevm :: "nat \<Rightarrow> ('a kmem_state_scheme, unit) kernel" where
  "freevm pgdir =
     (if pgdir = 0 then kpanic ''freevm: no pgdir''
      else kseq (deallocuvm pgdir KERNBASE 0)
        (kseq (kfor [0..<NPDENTRIES] (\<lambda>i. kbind (load_u32 (pgdir + 4 * i)) (\<lambda>pde.
                 kwhen (pde AND PTE_P \<noteq> 0) (kfree (P2V (PTE_ADDR pde))))))
              (kfree pgdir)))"

section \<open>The kernel's part\<close>

text \<open>\<^verbatim>\<open>kmap\<close>: virtual address, first and last physical address, permissions.\<close>

definition kmap :: "nat \<Rightarrow> (nat \<times> nat \<times> nat \<times> nat) list" where
  "kmap data_sym =
     [(KERNBASE, 0, EXTMEM, PTE_W),
      (KERNBASE + EXTMEM, V2P (KERNBASE + EXTMEM), V2P data_sym, 0),
      (data_sym, V2P data_sym, PHYSTOP, PTE_W),
      (DEVSPACE, DEVSPACE, 0, PTE_W)]"

primrec setupkvm_loop :: "nat \<Rightarrow> (nat \<times> nat \<times> nat \<times> nat) list \<Rightarrow> ('a kmem_state_scheme, bool) kernel" where
  "setupkvm_loop pgdir [] = kreturn True"
| "setupkvm_loop pgdir (k # ks) = (case k of (virt, pstart, pend, perm) \<Rightarrow>
     kbind (mappages pgdir virt ((pend + 2 ^ 32 - pstart) mod 2 ^ 32) pstart perm) (\<lambda>r.
       if r < 0 then kreturn False else setupkvm_loop pgdir ks))"

definition setupkvm :: "nat \<Rightarrow> ('a kmem_state_scheme, nat) kernel" where
  "setupkvm data_sym = kbind kalloc (\<lambda>pgdir.
     if pgdir = 0 then kreturn 0
     else kseq (zero_page pgdir)
       (if P2V PHYSTOP > DEVSPACE then kpanic ''PHYSTOP too high''
        else kbind (setupkvm_loop pgdir (kmap data_sym)) (\<lambda>ok.
          if ok then kreturn pgdir else kseq (freevm pgdir) (kreturn 0))))"

section \<open>User memory\<close>

definition inituvm :: "nat \<Rightarrow> byte list \<Rightarrow> ('a kmem_state_scheme, unit) kernel" where
  "inituvm pgdir init =
     (if length init \<ge> PGSIZE then kpanic ''inituvm: more than a page''
      else kbind kalloc (\<lambda>mem.
        kseq (zero_page mem)
        (kseq (mappages pgdir 0 PGSIZE (V2P mem) (PTE_W OR PTE_U))
              (kmodify (\<lambda>s. s\<lparr>km_mem := mem_write mem init (km_mem s)\<rparr>)))))"

text \<open>The loop of \<open>allocuvm\<close>: \<open>None\<close> when all pages are there, or the message of the failure and the page to free.\<close>

function alloc_loop :: "nat \<Rightarrow> nat \<Rightarrow> nat \<Rightarrow> ('a kmem_state_scheme, (string \<times> nat) option) kernel" where
  "alloc_loop pgdir newsz a =
     (if a < newsz then
        kbind kalloc (\<lambda>mem.
          if mem = 0 then kreturn (Some (''allocuvm out of memory'' @ [CHR 0x0A], 0))
          else kseq (zero_page mem)
            (kbind (mappages pgdir a PGSIZE (V2P mem) (PTE_W OR PTE_U)) (\<lambda>r.
              if r < 0 then kreturn (Some (''allocuvm out of memory (2)'' @ [CHR 0x0A], mem))
              else alloc_loop pgdir newsz (a + PGSIZE))))
      else kreturn None)"
  by pat_completeness auto
termination
  by (relation "measure (\<lambda>(pgdir, newsz, a). newsz - a)") auto

declare alloc_loop.simps [simp del]

definition allocuvm ::
  "(string \<Rightarrow> ('a kmem_state_scheme, unit) kernel) \<Rightarrow> nat \<Rightarrow> nat \<Rightarrow> nat \<Rightarrow> ('a kmem_state_scheme, nat) kernel" where
  "allocuvm cprint pgdir oldsz newsz =
     (if newsz \<ge> KERNBASE then kreturn 0
      else if newsz < oldsz then kreturn oldsz
      else kbind (alloc_loop pgdir newsz (PGROUNDUP oldsz)) (\<lambda>r.
        case r of
          None \<Rightarrow> kreturn newsz
        | Some (msg, mem) \<Rightarrow>
            kseq (cprint msg)
            (kseq (deallocuvm pgdir newsz oldsz)
            (kseq (kwhen (mem \<noteq> 0) (kfree mem)) (kreturn 0)))))"

definition clearpteu :: "nat \<Rightarrow> nat \<Rightarrow> ('a kmem_state_scheme, unit) kernel" where
  "clearpteu pgdir uva = kbind (walkpgdir pgdir uva False) (\<lambda>pte.
     if pte = 0 then kpanic ''clearpteu''
     else kbind (load_u32 pte) (\<lambda>v. store_u32 pte (if v AND PTE_U \<noteq> 0 then v - PTE_U else v)))"

text \<open>The loop of \<open>copyuvm\<close>: whether every page was copied.\<close>

function copyuvm_loop :: "nat \<Rightarrow> nat \<Rightarrow> nat \<Rightarrow> nat \<Rightarrow> ('a kmem_state_scheme, bool) kernel" where
  "copyuvm_loop pgdir d sz i =
     (if i < sz then
        kbind (walkpgdir pgdir i False) (\<lambda>pte.
          if pte = 0 then kpanic ''copyuvm: pte should exist''
          else kbind (load_u32 pte) (\<lambda>v.
            if v AND PTE_P = 0 then kpanic ''copyuvm: page not present''
            else kbind kalloc (\<lambda>mem.
              if mem = 0 then kreturn False
              else
                kseq (kmodify (\<lambda>s. s\<lparr>km_mem := mem_write mem (mem_read (P2V (PTE_ADDR v)) PGSIZE (km_mem s)) (km_mem s)\<rparr>))
                (kbind (mappages d i PGSIZE (V2P mem) (PTE_FLAGS v)) (\<lambda>r.
                  if r < 0 then kseq (kfree mem) (kreturn False)
                  else copyuvm_loop pgdir d sz (i + PGSIZE))))))
      else kreturn True)"
  by pat_completeness auto
termination
  by (relation "measure (\<lambda>(pgdir, d, sz, i). sz - i)") auto

declare copyuvm_loop.simps [simp del]

definition copyuvm :: "nat \<Rightarrow> nat \<Rightarrow> nat \<Rightarrow> ('a kmem_state_scheme, nat) kernel" where
  "copyuvm data_sym pgdir sz = kbind (setupkvm data_sym) (\<lambda>d.
     if d = 0 then kreturn 0
     else kbind (copyuvm_loop pgdir d sz 0) (\<lambda>ok.
       if ok then kreturn d else kseq (freevm d) (kreturn 0)))"

text \<open>When there is no page table for the address, the C code reads an entry through the null pointer.\<close>

definition uva2ka :: "nat \<Rightarrow> nat \<Rightarrow> ('a kmem_state_scheme, nat) kernel" where
  "uva2ka pgdir uva = kbind (walkpgdir pgdir uva False) (\<lambda>pte.
     kbind (load_u32 pte) (\<lambda>v.
       kreturn (if v AND PTE_P = 0 then 0 else if v AND PTE_U = 0 then 0 else P2V (PTE_ADDR v))))"

function copyout :: "nat \<Rightarrow> nat \<Rightarrow> byte list \<Rightarrow> ('a kmem_state_scheme, int) kernel" where
  "copyout pgdir va bs =
     (if bs = [] then kreturn 0
      else
        let va0 = PGROUNDDOWN va; n = min (PGSIZE - va mod PGSIZE) (length bs) in
        kbind (uva2ka pgdir va0) (\<lambda>pa0.
          if pa0 = 0 then kreturn (-1)
          else kseq (kmodify (\<lambda>s. s\<lparr>km_mem := mem_write (pa0 + va mod PGSIZE) (take n bs) (km_mem s)\<rparr>))
            (copyout pgdir ((va0 + PGSIZE) mod 2 ^ 32) (drop n bs))))"
  by pat_completeness auto
termination
  by (relation "measure (\<lambda>(pgdir, va, bs). length bs)") auto

declare copyout.simps [simp del]

end
