(* ===== verification/VmMap.thy ===== *)
theory VmMap
  imports Vm
begin

text \<open>
  What the page tables of \<^verbatim>\<open>vm.c\<close> in memory mean.  A page directory denotes a function from page numbers to
  entries; \<open>walkpgdir\<close> and \<open>mappages\<close> refine updates of that function.  The pages of the directory and of its tables are disjoint
  from the free pages, and no page is lost: every operation conserves their union.
\<close>

section \<open>Words in pages\<close>

lemma read_page: "agree_on p PGSIZE m m' \<Longrightarrow> j < 1024 \<Longrightarrow> read_u32 (p + 4 * j) m' = read_u32 (p + 4 * j) m"
  by (rule read_u32_cong) (auto simp: agree_on_def)

lemma read_write_slot:
  "read_u32 (p + 4 * j) (write_u32 (p + 4 * k) v m) = (if j = k then v mod 2 ^ 32 else read_u32 (p + 4 * j) m)"
proof (cases "j = k")
  case False
  then have "agree_on (p + 4 * j) 4 (write_u32 (p + 4 * k) v m) m"
    by (auto simp: agree_on_def write_u32_def mem_write_def)
  then show ?thesis using False read_u32_cong by simp
qed simp

lemma read_zeros: "j < 1024 \<Longrightarrow> read_u32 (p + 4 * j) (mem_set p 0 PGSIZE m) = 0"
proof -
  assume "j < 1024"
  then have "mem_read (p + 4 * j) 4 (mem_set p 0 PGSIZE m) = replicate 4 0"
    by (intro nth_equalityI) (auto simp: mem_set_def)
  then show ?thesis by (simp add: read_u32_def)
qed

lemma read_u32_bound: "read_u32 a m < 2 ^ 32"
  using le_dec_bound [of "mem_read a 4 m"] by (simp add: read_u32_def)

text \<open>The page of an address, and memories that differ only in the pages of a set.\<close>

definition page :: "nat \<Rightarrow> nat" where
  "page x = x div PGSIZE * PGSIZE"

definition only_in :: "nat set \<Rightarrow> memory \<Rightarrow> memory \<Rightarrow> bool" where
  "only_in P m m' \<longleftrightarrow> (\<forall>x. page x \<notin> P \<longrightarrow> m' x = m x)"

lemma only_in_refl [simp]: "only_in P m m"
  by (simp add: only_in_def)

lemma only_in_trans: "only_in P m m' \<Longrightarrow> only_in Q m' m'' \<Longrightarrow> P \<subseteq> R \<Longrightarrow> Q \<subseteq> R \<Longrightarrow> only_in R m m''"
  by (auto simp: only_in_def) (metis subsetD)

lemma only_in_mono: "only_in P m m' \<Longrightarrow> P \<subseteq> Q \<Longrightarrow> only_in Q m m'"
  by (auto simp: only_in_def)

lemma page_id: "p mod PGSIZE = 0 \<Longrightarrow> p \<le> x \<Longrightarrow> x < p + PGSIZE \<Longrightarrow> page x = p"
proof -
  assume "p mod PGSIZE = 0" "p \<le> x" "x < p + PGSIZE"
  then obtain k where "p = PGSIZE * k" by (auto simp: mod_eq_0_iff_dvd dvd_def)
  with \<open>p \<le> x\<close> \<open>x < p + PGSIZE\<close> have "x div PGSIZE = k" by (intro div_nat_eqI) auto
  then show ?thesis using \<open>p = _\<close> by (simp add: page_def)
qed

lemma only_in_agree: "only_in P m m' \<Longrightarrow> p mod PGSIZE = 0 \<Longrightarrow> p \<notin> P \<Longrightarrow> agree_on p PGSIZE m m'"
  by (auto simp: only_in_def agree_on_def page_id)

lemma page_ok_aligned: "page_ok e p \<Longrightarrow> p mod PGSIZE = 0"
  by (simp add: page_ok_def)

lemma only_in_set: "p mod PGSIZE = 0 \<Longrightarrow> only_in {p} m (mem_set p c PGSIZE m)"
  by (auto simp: only_in_def mem_set_def page_id)

lemma only_in_mem_write: "p mod PGSIZE = 0 \<Longrightarrow> off + length bs \<le> PGSIZE \<Longrightarrow> only_in {p} m (mem_write (p + off) bs m)"
  by (auto simp: only_in_def mem_write_def page_id)

lemma only_in_slot: "p mod PGSIZE = 0 \<Longrightarrow> j < 1024 \<Longrightarrow> only_in {p} m (write_u32 (p + 4 * j) v m)"
  by (simp add: write_u32_def only_in_mem_write)

section \<open>What a page directory means\<close>

definition present :: "nat \<Rightarrow> bool" where
  "present e \<longleftrightarrow> e AND PTE_P \<noteq> 0"

definition pde :: "memory \<Rightarrow> nat \<Rightarrow> nat \<Rightarrow> nat" where
  "pde m pgdir i = read_u32 (pgdir + 4 * i) m"

definition has_tab :: "memory \<Rightarrow> nat \<Rightarrow> nat \<Rightarrow> bool" where
  "has_tab m pgdir i \<longleftrightarrow> i < 1024 \<and> present (pde m pgdir i)"

definition tab :: "memory \<Rightarrow> nat \<Rightarrow> nat \<Rightarrow> nat" where
  "tab m pgdir i = P2V (PTE_ADDR (pde m pgdir i))"

definition pte_of :: "memory \<Rightarrow> nat \<Rightarrow> nat \<Rightarrow> nat" where
  "pte_of m pgdir v = read_u32 (tab m pgdir (v div 1024) + 4 * (v mod 1024)) m"

definition pt_entry :: "memory \<Rightarrow> nat \<Rightarrow> nat \<Rightarrow> nat option" where
  "pt_entry m pgdir v =
     (if has_tab m pgdir (v div 1024) \<and> present (pte_of m pgdir v) then Some (pte_of m pgdir v) else None)"

text \<open>The pages of the directory and of its tables.\<close>

definition dirs :: "memory \<Rightarrow> nat \<Rightarrow> nat set" where
  "dirs m pgdir = insert pgdir (tab m pgdir ` {i. has_tab m pgdir i})"

definition pd_ok :: "nat \<Rightarrow> memory \<Rightarrow> nat \<Rightarrow> bool" where
  "pd_ok e m pgdir \<longleftrightarrow> page_ok e pgdir \<and>
     (\<forall>i. has_tab m pgdir i \<longrightarrow> page_ok e (tab m pgdir i) \<and> tab m pgdir i \<noteq> pgdir) \<and>
     inj_on (tab m pgdir) {i. has_tab m pgdir i}"

lemma present_iff: "present e \<longleftrightarrow> odd e"
  by (simp add: present_def and_one_eq odd_iff_mod_2_eq_one)

lemma not_present_0 [simp]: "\<not> present 0"
  by (simp add: present_iff)

text \<open>The meaning depends only on the directory's own pages.\<close>

lemma dirs_cong:
  assumes "pd_ok e m pgdir" "\<And>p. p \<in> dirs m pgdir \<Longrightarrow> agree_on p PGSIZE m m'"
  shows "pde m' pgdir i = pde m pgdir i \<or> 1024 \<le> i" "has_tab m' pgdir = has_tab m pgdir"
    "has_tab m pgdir i \<Longrightarrow> tab m' pgdir i = tab m pgdir i" "pt_entry m' pgdir = pt_entry m pgdir"
    "dirs m' pgdir = dirs m pgdir" "pd_ok e m' pgdir"
proof -
  have p: "pde m' pgdir i = pde m pgdir i" if "i < 1024" for i
    using assms(2) [of pgdir] that by (simp add: pde_def dirs_def read_page)
  then show "pde m' pgdir i = pde m pgdir i \<or> 1024 \<le> i" by force
  show h: "has_tab m' pgdir = has_tab m pgdir" using p by (auto simp: has_tab_def fun_eq_iff)
  have t: "tab m' pgdir i = tab m pgdir i" if "has_tab m pgdir i" for i using that p by (simp add: tab_def has_tab_def)
  then show "has_tab m pgdir i \<Longrightarrow> tab m' pgdir i = tab m pgdir i" .
  have "pte_of m' pgdir v = pte_of m pgdir v" if "has_tab m pgdir (v div 1024)" for v
    using assms(2) [of "tab m pgdir (v div 1024)"] that t by (simp add: pte_of_def dirs_def read_page)
  then show "pt_entry m' pgdir = pt_entry m pgdir" using h by (auto simp: pt_entry_def fun_eq_iff)
  have im: "tab m' pgdir ` {i. has_tab m pgdir i} = tab m pgdir ` {i. has_tab m pgdir i}" using t by force
  then show "dirs m' pgdir = dirs m pgdir" by (simp add: dirs_def h)
  have "inj_on (tab m' pgdir) {i. has_tab m pgdir i} = inj_on (tab m pgdir) {i. has_tab m pgdir i}"
    using t by (intro inj_on_cong) simp
  then show "pd_ok e m' pgdir" using assms(1) t by (auto simp: pd_ok_def h)
qed

lemma dirs_page_ok: "pd_ok e m pgdir \<Longrightarrow> p \<in> dirs m pgdir \<Longrightarrow> page_ok e p"
  by (auto simp: pd_ok_def dirs_def)

section \<open>Adding a table and setting an entry\<close>

lemma kernel_addr:
  assumes "page_ok e p" "KERNBASE \<le> e" "f < PGSIZE"
  shows "V2P p + f < 2 ^ 32" "PTE_ADDR (V2P p + f) = V2P p" "PTE_FLAGS (V2P p + f) = f" "P2V (V2P p) = p" "V2P p OR f = V2P p + f"
    "present (V2P p + f) \<longleftrightarrow> odd f" "V2P p mod PGSIZE = 0"
proof -
  have v: "V2P p = p - KERNBASE" "p < 2 ^ 32" "V2P p < PHYSTOP" using assms V2P_kernel [of p] by (simp_all add: page_ok_def)
  obtain k where k: "p = PGSIZE * k" using assms(1) by (auto simp: page_ok_def mod_eq_0_iff_dvd dvd_def)
  then have a: "V2P p = PGSIZE * (k - KERNBASE div PGSIZE)" using v(1) by (simp add: diff_mult_distrib2)
  then show al: "V2P p mod PGSIZE = 0" by simp
  show "V2P p + f < 2 ^ 32" using v(3) assms(3) by simp
  have d: "(V2P p + f) div PGSIZE * PGSIZE = V2P p" using a assms(3) by simp
  then show "PTE_ADDR (V2P p + f) = V2P p" by (simp add: PTE_ADDR_def)
  show "PTE_FLAGS (V2P p + f) = f" using al assms(3) by (simp add: PTE_FLAGS_def mod_add_left_eq [symmetric])
  show "P2V (V2P p) = p" using v(2) by (rule P2V_V2P)
  have "and (push_bit 12 (k - KERNBASE div PGSIZE)) (take_bit 12 f) = 0"
    by (rule bit_eqI) (auto simp: bit_simps)
  then have "and (V2P p) f = 0" using assms(3) by (simp add: a push_bit_eq_mult take_bit_nat_eq_self mult.commute)
  then show "V2P p OR f = V2P p + f" by (rule disjunctive_add_eq_or [symmetric])
  show "present (V2P p + f) \<longleftrightarrow> odd f" by (simp add: present_iff a)
qed

lemma add_table:
  assumes ok: "pd_ok e m pgdir" "KERNBASE \<le> e" and i: "i < 1024" "\<not> has_tab m pgdir i" and x: "page_ok e x" "x \<notin> dirs m pgdir"
    and m': "m' = write_u32 (pgdir + 4 * i) (V2P x OR PTE_P OR PTE_W OR PTE_U) (mem_set x 0 PGSIZE m)"
  shows "has_tab m' pgdir k \<longleftrightarrow> has_tab m pgdir k \<or> k = i" "tab m' pgdir i = x" "pt_entry m' pgdir = pt_entry m pgdir"
    "dirs m' pgdir = insert x (dirs m pgdir)" "pd_ok e m' pgdir" "only_in {x, pgdir} m m'"
proof -
  have val: "V2P x OR 7 = V2P x + 7" using kernel_addr(5) [OF x(1) ok(2), of 7] by simp
  have ne: "x \<noteq> pgdir" and pg: "page_ok e pgdir" using x ok by (auto simp: dirs_def pd_ok_def)
  have set: "only_in {x} m (mem_set x 0 PGSIZE m)" using x(1) by (intro only_in_set) (rule page_ok_aligned)
  have slot: "only_in {pgdir} (mem_set x 0 PGSIZE m) m'" unfolding m' using pg i(1) by (intro only_in_slot page_ok_aligned)
  show only: "only_in {x, pgdir} m m'" by (rule only_in_trans [OF set slot]) auto
  have pdes: "pde m' pgdir k = (if k = i then V2P x + 7 else pde m pgdir k)" if "k < 1024" for k
    using read_write_slot [of pgdir k i] only_in_agree [OF set page_ok_aligned [OF pg]] ne that kernel_addr(1) [OF x(1) ok(2), of 7]
    by (simp add: pde_def m' val read_page)
  have nz: "present (V2P x + 7)" using kernel_addr(6) [OF x(1) ok(2), of 7] by simp
  show h: "has_tab m' pgdir k \<longleftrightarrow> has_tab m pgdir k \<or> k = i" for k using pdes [of k] nz i(1) by (auto simp: has_tab_def)
  show ti: "tab m' pgdir i = x" using pdes [OF i(1)] kernel_addr(2,4) [OF x(1) ok(2), of 7] by (simp add: tab_def)
  have tk: "tab m' pgdir k = tab m pgdir k" if "has_tab m pgdir k" for k
    using pdes [of k] that i(2) by (auto simp: tab_def has_tab_def)
  have agr: "agree_on (tab m pgdir k) PGSIZE m m'" if "has_tab m pgdir k" for k
    using that ok(1) x by (intro only_in_agree [OF only]) (auto simp: pd_ok_def dirs_def page_ok_def)
  have zero: "pte_of m' pgdir v = 0" if "v div 1024 = i" for v
  proof -
    have "agree_on x PGSIZE (mem_set x 0 PGSIZE m) m'" using ne x(1) by (intro only_in_agree [OF slot]) (auto simp: page_ok_def)
    then show ?thesis using that by (simp add: pte_of_def ti read_page read_zeros)
  qed
  have "pte_of m' pgdir v = pte_of m pgdir v" if "has_tab m pgdir (v div 1024)" for v
    using agr [OF that] tk [OF that] by (simp add: pte_of_def read_page)
  then show "pt_entry m' pgdir = pt_entry m pgdir" using zero i(2) by (auto simp: pt_entry_def h fun_eq_iff)
  have hs: "{k. has_tab m' pgdir k} = insert i {k. has_tab m pgdir k}" by (auto simp: h)
  have im: "tab m' pgdir ` {k. has_tab m pgdir k} = tab m pgdir ` {k. has_tab m pgdir k}" using tk by force
  then show "dirs m' pgdir = insert x (dirs m pgdir)" by (auto simp: dirs_def hs ti)
  have "inj_on (tab m' pgdir) {k. has_tab m pgdir k} = inj_on (tab m pgdir) {k. has_tab m pgdir k}"
    using tk by (intro inj_on_cong) simp
  then have "inj_on (tab m' pgdir) (insert i {k. has_tab m pgdir k})"
    using ok(1) i(2) x(2) im ti by (simp add: pd_ok_def dirs_def)
  then have "inj_on (tab m' pgdir) {k. has_tab m' pgdir k}" unfolding hs .
  moreover have "page_ok e (tab m' pgdir k) \<and> tab m' pgdir k \<noteq> pgdir" if "has_tab m' pgdir k" for k
    using that ok(1) x(1) ne tk [of k] ti by (cases "k = i") (auto simp: pd_ok_def h)
  ultimately show "pd_ok e m' pgdir" using pg by (simp add: pd_ok_def)
qed

lemma set_entry:
  assumes ok: "pd_ok e m pgdir" and h: "has_tab m pgdir (v div 1024)" and val: "val < 2 ^ 32"
    and m': "m' = write_u32 (tab m pgdir (v div 1024) + 4 * (v mod 1024)) val m"
  shows "pt_entry m' pgdir = (pt_entry m pgdir)(v := if present val then Some val else None)"
    "dirs m' pgdir = dirs m pgdir" "pd_ok e m' pgdir" "only_in (dirs m pgdir) m m'" "has_tab m' pgdir = has_tab m pgdir"
proof -
  let ?t = "tab m pgdir (v div 1024)"
  have t: "page_ok e ?t" "?t \<noteq> pgdir" "page_ok e pgdir" using ok h by (auto simp: pd_ok_def)
  have only: "only_in {?t} m m'" unfolding m' using t by (intro only_in_slot page_ok_aligned) auto
  then show "only_in (dirs m pgdir) m m'" by (rule only_in_mono) (use h in \<open>auto simp: dirs_def\<close>)
  have agr: "agree_on p PGSIZE m m'" if "p \<in> dirs m pgdir" "p \<noteq> ?t" for p
    using that dirs_page_ok [OF ok] by (intro only_in_agree [OF only] page_ok_aligned) auto
  have p: "pde m' pgdir i = pde m pgdir i" if "i < 1024" for i
    using agr [of pgdir] t that by (simp add: pde_def dirs_def read_page)
  show hh: "has_tab m' pgdir = has_tab m pgdir" using p by (auto simp: has_tab_def fun_eq_iff)
  have tt: "tab m' pgdir i = tab m pgdir i" if "has_tab m pgdir i" for i using that p by (simp add: tab_def has_tab_def)
  have "inj_on (tab m' pgdir) {i. has_tab m pgdir i} = inj_on (tab m pgdir) {i. has_tab m pgdir i}"
    using tt by (intro inj_on_cong) simp
  then show "pd_ok e m' pgdir" using ok tt by (auto simp: pd_ok_def hh)
  have "tab m' pgdir ` {i. has_tab m pgdir i} = tab m pgdir ` {i. has_tab m pgdir i}" using tt by force
  then show "dirs m' pgdir = dirs m pgdir" by (simp add: dirs_def hh)
  have "pte_of m' pgdir w = (if w = v then val else pte_of m pgdir w)" if w: "has_tab m pgdir (w div 1024)" for w
  proof (cases "w div 1024 = v div 1024")
    case True
    then have "w mod 1024 = v mod 1024 \<longleftrightarrow> w = v" by (metis div_mult_mod_eq)
    then show ?thesis using read_write_slot [of ?t "w mod 1024" "v mod 1024" val m] val tt [OF w] True
      by (simp add: pte_of_def m')
  next
    case False
    then have "tab m pgdir (w div 1024) \<noteq> ?t" using ok h w by (auto simp: pd_ok_def inj_on_def)
    then show ?thesis using agr [of "tab m pgdir (w div 1024)"] w False tt [OF w] by (auto simp: pte_of_def dirs_def read_page)
  qed
  then show "pt_entry m' pgdir = (pt_entry m pgdir)(v := if present val then Some val else None)"
    using h by (auto simp: pt_entry_def hh fun_eq_iff split: if_splits)
qed

section \<open>The operations\<close>

definition vm_pre :: "'a kmem_state_scheme \<Rightarrow> nat list \<Rightarrow> nat \<Rightarrow> bool" where
  "vm_pre s fl pgdir \<longleftrightarrow> kmem_inv s fl \<and> pd_ok (km_end s) (km_mem s) pgdir \<and> dirs (km_mem s) pgdir \<inter> set fl = {}"

text \<open>Only the memory and the head of the free list differ.\<close>

definition mem_only :: "'a kmem_state_scheme \<Rightarrow> 'a kmem_state_scheme \<Rightarrow> bool" where
  "mem_only s t \<longleftrightarrow> t = s\<lparr>km_mem := km_mem t, km_freelist := km_freelist t\<rparr>"

lemma mem_only_refl [simp]: "mem_only s s"
  by (simp add: mem_only_def)

lemma mem_only_trans: "mem_only s t \<Longrightarrow> mem_only t u \<Longrightarrow> mem_only s u"
  by (cases s; cases t; cases u) (simp add: mem_only_def)

lemma mem_only_end: "mem_only s t \<Longrightarrow> km_end t = km_end s"
  by (cases s; cases t) (simp add: mem_only_def)

lemma mem_only_update [simp]: "mem_only s (s\<lparr>km_mem := m\<rparr>)" "mem_only s (s\<lparr>km_freelist := f\<rparr>)"
  "mem_only s (s\<lparr>km_mem := m, km_freelist := f\<rparr>)" "mem_only s (s\<lparr>km_freelist := f, km_mem := m\<rparr>)"
  by (simp_all add: mem_only_def)

text \<open>The step from \<open>s\<close> with the free pages \<open>fl\<close> to \<open>t\<close> with \<open>fl'\<close>: free pages have become tables, and nothing else has changed.\<close>

definition vm_to :: "nat \<Rightarrow> 'a kmem_state_scheme \<Rightarrow> nat list \<Rightarrow> 'a kmem_state_scheme \<Rightarrow> nat list \<Rightarrow> bool" where
  "vm_to pgdir s fl t fl' \<longleftrightarrow> vm_pre t fl' pgdir \<and> mem_only s t \<and>
     dirs (km_mem t) pgdir \<union> set fl' = dirs (km_mem s) pgdir \<union> set fl \<and> set fl' \<subseteq> set fl \<and>
     only_in (dirs (km_mem s) pgdir \<union> set fl) (km_mem s) (km_mem t)"

lemma vm_to_refl: "vm_pre s fl pgdir \<Longrightarrow> vm_to pgdir s fl s fl"
  by (simp add: vm_to_def)

lemma vm_to_trans: "vm_to pgdir s fl t fl' \<Longrightarrow> vm_to pgdir t fl' u fl'' \<Longrightarrow> vm_to pgdir s fl u fl''"
  unfolding vm_to_def by (auto intro: only_in_trans mem_only_trans)

lemma vm_to_end: "vm_to pgdir s fl t fl' \<Longrightarrow> km_end t = km_end s"
  by (simp add: vm_to_def mem_only_end)

lemma index_va:
  assumes "va < 2 ^ 32"
  shows "PDX va = va div PGSIZE div 1024" "PTX va = va div PGSIZE mod 1024" "va div PGSIZE div 1024 < 1024"
proof -
  have e: "va div PGSIZE div 1024 = va div 2 ^ 22" by (simp add: div_mult2_eq [symmetric])
  show "va div PGSIZE div 1024 < 1024" unfolding e using assms by (simp add: less_mult_imp_div_less)
  then show "PDX va = va div PGSIZE div 1024" unfolding e by (simp add: PDX_def)
  show "PTX va = va div PGSIZE mod 1024" by (simp add: PTX_def)
qed

text \<open>\<open>walkpgdir\<close> without allocation only looks.\<close>

lemma walk_look:
  assumes "va < 2 ^ 32"
  shows "walkpgdir pgdir va False s = Done (if has_tab (km_mem s) pgdir (va div PGSIZE div 1024)
     then tab (km_mem s) pgdir (va div PGSIZE div 1024) + 4 * (va div PGSIZE mod 1024) else 0) s"
  using index_va [OF assms] by (simp add: walkpgdir_def load_u32_def kernel_defs has_tab_def present_def tab_def pde_def)

lemma tab_nz: "pd_ok e m pgdir \<Longrightarrow> KERNBASE \<le> e \<Longrightarrow> has_tab m pgdir i \<Longrightarrow> 0 < tab m pgdir i"
  by (auto simp: pd_ok_def page_ok_def)

lemma walk_alloc:
  assumes pre: "vm_pre s fl pgdir" and va: "va < 2 ^ 32" and v: "v = va div PGSIZE"
  shows "wp (walkpgdir pgdir va True) (\<lambda>r t. \<exists>fl'. vm_to pgdir s fl t fl' \<and> pt_entry (km_mem t) pgdir = pt_entry (km_mem s) pgdir \<and>
    (if r = 0 then fl' = [] else has_tab (km_mem t) pgdir (v div 1024) \<and> r = tab (km_mem t) pgdir (v div 1024) + 4 * (v mod 1024))) s"
proof (cases "has_tab (km_mem s) pgdir (v div 1024)")
  case True
  then have "tab (km_mem s) pgdir (v div 1024) \<noteq> 0" using pre tab_nz by (auto simp: vm_pre_def kmem_inv_def)
  then show ?thesis using True pre index_va [OF va]
    by (auto simp: walkpgdir_def load_u32_def wp_if has_tab_def present_def tab_def pde_def v intro!: exI [of _ fl] vm_to_refl)
next
  case False
  note ix = index_va [OF va, folded v]
  have inv: "kmem_inv s fl" and top: "KERNBASE \<le> km_end s" using pre by (simp_all add: vm_pre_def kmem_inv_def)
  have np: "read_u32 (pgdir + 4 * PDX va) (km_mem s) AND PTE_P = 0"
    using False ix by (auto simp: has_tab_def present_def pde_def)
  show ?thesis
  proof (cases fl)
    case Nil
    then have "kalloc s = Done 0 s" using kalloc_empty inv by blast
    then show ?thesis using np pre Nil
      by (auto simp: walkpgdir_def load_u32_def wp_iff kernel_defs intro!: exI [of _ "[]"] vm_to_refl)
  next
    case (Cons x xs)
    let ?s1 = "s\<lparr>km_freelist := read_u32 x (km_mem s)\<rparr>"
    let ?m = "write_u32 (pgdir + 4 * (v div 1024)) (V2P x OR PTE_P OR PTE_W OR PTE_U) (mem_set x 0 PGSIZE (km_mem s))"
    let ?t = "?s1\<lparr>km_mem := ?m\<rparr>"
    have ka: "kalloc s = Done x ?s1" "kmem_inv ?s1 xs" using kalloc_Cons [of s x xs] inv Cons by auto
    have x: "page_ok (km_end s) x" "x \<notin> dirs (km_mem s) pgdir" "x \<notin> set xs" "x \<noteq> 0"
      using inv pre Cons by (auto simp: kmem_inv_def vm_pre_def)
    have pd: "pd_ok (km_end s) (km_mem s) pgdir" using pre by (simp add: vm_pre_def)
    note at = add_table [OF pd top _ False x(1,2) refl]
    have run: "walkpgdir pgdir va True s = Done (x + 4 * PTX va) ?t"
      using np ka(1) x(4) ix by (simp add: walkpgdir_def load_u32_def zero_page_def store_u32_def kernel_defs)
    have "pgdir \<notin> set fl" using pre by (auto simp: vm_pre_def dirs_def)
    have "kmem_inv ?t xs"
    proof (rule kmem_inv_cong [OF ka(2)])
      show "\<forall>y \<in> set xs. agree_on y PGSIZE (km_mem ?s1) (km_mem ?t)"
        using at(6) ix x(3) \<open>pgdir \<notin> set fl\<close> inv Cons
        by (auto intro!: only_in_agree [of "{x, pgdir}"] simp: kmem_inv_def page_ok_def)
    qed simp_all
    then have "vm_pre ?t xs pgdir" using at(4,5) ix x(3) pre Cons by (auto simp: vm_pre_def)
    then have "vm_to pgdir s fl ?t xs" using at(4,6) ix Cons
      by (auto simp: vm_to_def dirs_def elim!: only_in_mono)
    then show ?thesis using run at ix x(4) by (auto simp: wp_iff intro!: exI [of _ xs])
  qed
qed

text \<open>Setting an entry in place.\<close>

lemma store_entry:
  assumes pre: "vm_pre s fl pgdir" and h: "has_tab (km_mem s) pgdir (v div 1024)" and val: "val < 2 ^ 32"
  defines "t \<equiv> s\<lparr>km_mem := write_u32 (tab (km_mem s) pgdir (v div 1024) + 4 * (v mod 1024)) val (km_mem s)\<rparr>"
  shows "vm_to pgdir s fl t fl" "pt_entry (km_mem t) pgdir = (pt_entry (km_mem s) pgdir)(v := if present val then Some val else None)"
    "dirs (km_mem t) pgdir = dirs (km_mem s) pgdir"
proof -
  have pd: "pd_ok (km_end s) (km_mem s) pgdir" using pre by (simp add: vm_pre_def)
  note st = set_entry [OF pd h val refl]
  have "kmem_inv t fl" unfolding t_def
  proof (rule kmem_inv_cong)
    show "kmem_inv s fl" using pre by (simp add: vm_pre_def)
    show "\<forall>x \<in> set fl. agree_on x PGSIZE (km_mem s)
      (km_mem (s\<lparr>km_mem := write_u32 (tab (km_mem s) pgdir (v div 1024) + 4 * (v mod 1024)) val (km_mem s)\<rparr>))"
      using st(4) pre by (auto intro!: only_in_agree simp: vm_pre_def kmem_inv_def page_ok_def)
  qed simp_all
  then show "vm_to pgdir s fl t fl" using st(2,3,4) pre by (auto simp: vm_to_def vm_pre_def t_def elim!: only_in_mono)
  show "pt_entry (km_mem t) pgdir = (pt_entry (km_mem s) pgdir)(v := if present val then Some val else None)"
    using st(1) by (simp add: t_def)
  show "dirs (km_mem t) pgdir = dirs (km_mem s) pgdir" using st(2) by (simp add: t_def)
qed

lemma map_one_wp:
  assumes pre: "vm_pre s fl pgdir" and va: "va < 2 ^ 32" and v: "v = va div PGSIZE"
    and free: "pt_entry (km_mem s) pgdir v = None" and val: "pa OR perm OR PTE_P < 2 ^ 32"
  shows "wp (map_one pgdir perm va pa) (\<lambda>ok t. \<exists>fl'. vm_to pgdir s fl t fl' \<and>
    (if ok then pt_entry (km_mem t) pgdir = (pt_entry (km_mem s) pgdir)(v \<mapsto> pa OR perm OR PTE_P)
     else fl' = [] \<and> pt_entry (km_mem t) pgdir = pt_entry (km_mem s) pgdir)) s"
  unfolding map_one_def wp_kbind
proof (rule wp_mono [OF walk_alloc [OF pre va v]], elim exE conjE, goal_cases)
  case (1 r t fl')
  show ?case
  proof (cases "r = 0")
    case True
    then show ?thesis using 1 by auto
  next
    case False
    then have h: "has_tab (km_mem t) pgdir (v div 1024)" and r: "r = tab (km_mem t) pgdir (v div 1024) + 4 * (v mod 1024)"
      using 1(3) by simp_all
    have "pt_entry (km_mem t) pgdir v = None" using free 1(2) by simp
    then have np: "\<not> present (read_u32 r (km_mem t))" using h r by (simp add: pt_entry_def pte_of_def split: if_splits)
    have "vm_pre t fl' pgdir" using 1(1) by (simp add: vm_to_def)
    note st = store_entry [OF this h val]
    have "present (pa OR perm OR PTE_P)" by (simp add: present_iff even_or_iff)
    then show ?thesis using False np st vm_to_trans [OF 1(1) st(1)] 1(2)
      by (auto simp: load_u32_def store_u32_def present_def r)
  qed
qed

definition map_range :: "(nat \<Rightarrow> nat option) \<Rightarrow> nat \<Rightarrow> nat \<Rightarrow> nat \<Rightarrow> nat \<Rightarrow> nat \<Rightarrow> nat option" where
  "map_range f v pa perm k = (\<lambda>w. if v \<le> w \<and> w < v + k then Some ((pa + (w - v) * PGSIZE) OR perm OR PTE_P) else f w)"

lemma map_range_0 [simp]: "map_range f v pa perm 0 = f"
  by (auto simp: map_range_def fun_eq_iff)

lemma map_range_Suc: "map_range f v pa perm (Suc k) = map_range (f(v \<mapsto> pa OR perm OR PTE_P)) (Suc v) (pa + PGSIZE) perm k"
proof
  fix w
  show "map_range f v pa perm (Suc k) w = map_range (f(v \<mapsto> pa OR perm OR PTE_P)) (Suc v) (pa + PGSIZE) perm k w"
  proof (cases "v < w")
    case True
    then obtain d where "w = Suc (v + d)" using less_imp_Suc_add by blast
    then show ?thesis by (simp add: map_range_def algebra_simps)
  qed (auto simp: map_range_def)
qed

lemma or_bound: "x < 2 ^ n \<Longrightarrow> y < 2 ^ n \<Longrightarrow> x OR y < (2 ^ n :: nat)"
  by (metis take_bit_nat_eq_self take_bit_nat_less_exp take_bit_or)

lemma entry_bound: "pa < 2 ^ 32 \<Longrightarrow> perm < PGSIZE \<Longrightarrow> pa OR perm OR PTE_P < 2 ^ 32"
  by (intro or_bound) auto

text \<open>The loop of \<open>mappages\<close> enters the pages one by one; it stops early only when there is no memory left.\<close>

lemma mappages_loop_wp:
  assumes "vm_pre s fl pgdir" "a mod PGSIZE = 0" "a + k * PGSIZE < 2 ^ 32" "pa + k * PGSIZE < 2 ^ 32" "perm < PGSIZE"
    "\<forall>w. a div PGSIZE \<le> w \<and> w \<le> a div PGSIZE + k \<longrightarrow> pt_entry (km_mem s) pgdir w = None"
  shows "wp (mappages_loop pgdir perm k a pa) (\<lambda>r t. \<exists>fl' j. vm_to pgdir s fl t fl' \<and>
    pt_entry (km_mem t) pgdir = map_range (pt_entry (km_mem s) pgdir) (a div PGSIZE) pa perm j \<and>
    (r = 0 \<and> j = Suc k \<or> r = -1 \<and> j \<le> k \<and> fl' = [])) s"
  using assms
proof (induction k arbitrary: s fl a pa)
  case 0
  have "wp (map_one pgdir perm a pa) (\<lambda>ok t. \<exists>fl'. vm_to pgdir s fl t fl' \<and>
    (if ok then pt_entry (km_mem t) pgdir = (pt_entry (km_mem s) pgdir)(a div PGSIZE \<mapsto> pa OR perm OR PTE_P)
     else fl' = [] \<and> pt_entry (km_mem t) pgdir = pt_entry (km_mem s) pgdir)) s"
    by (rule map_one_wp) (use 0 entry_bound in auto)
  then show ?case unfolding mappages_loop.simps wp_kbind
    by (elim wp_mono) (auto simp: map_range_Suc split: if_splits intro: exI [of _ 0] exI [of _ "Suc 0"])
next
  case (Suc k)
  have "wp (map_one pgdir perm a pa) (\<lambda>ok t. \<exists>fl'. vm_to pgdir s fl t fl' \<and>
    (if ok then pt_entry (km_mem t) pgdir = (pt_entry (km_mem s) pgdir)(a div PGSIZE \<mapsto> pa OR perm OR PTE_P)
     else fl' = [] \<and> pt_entry (km_mem t) pgdir = pt_entry (km_mem s) pgdir)) s"
    by (rule map_one_wp) (use Suc.prems entry_bound in auto)
  then show ?case unfolding mappages_loop.simps wp_kbind
  proof (rule wp_mono, elim exE conjE, goal_cases)
    case (1 ok t fl')
    show ?case
    proof (cases ok)
      case False
      then show ?thesis using 1 by (auto intro!: exI [of _ fl'] exI [of _ 0])
    next
      case True
      have d: "(a + PGSIZE) div PGSIZE = Suc (a div PGSIZE)" by simp
      have "wp (mappages_loop pgdir perm k (a + PGSIZE) (pa + PGSIZE)) (\<lambda>r u. \<exists>fl'' j. vm_to pgdir t fl' u fl'' \<and>
        pt_entry (km_mem u) pgdir = map_range (pt_entry (km_mem t) pgdir) ((a + PGSIZE) div PGSIZE) (pa + PGSIZE) perm j \<and>
        (r = 0 \<and> j = Suc k \<or> r = -1 \<and> j \<le> k \<and> fl'' = [])) t"
        using Suc.prems 1 True by (intro Suc.IH) (auto simp: vm_to_def)
      moreover have "(a + PGSIZE) mod 2 ^ 32 = a + PGSIZE" "(pa + PGSIZE) mod 2 ^ 32 = pa + PGSIZE" using Suc.prems by simp_all
      ultimately have "wp (mappages_loop pgdir perm k ((a + PGSIZE) mod 2 ^ 32) ((pa + PGSIZE) mod 2 ^ 32)) (\<lambda>r u. \<exists>fl'' j. vm_to pgdir t fl' u fl'' \<and>
        pt_entry (km_mem u) pgdir = map_range (pt_entry (km_mem s) pgdir) (a div PGSIZE) pa perm (Suc j) \<and>
        (r = 0 \<and> j = Suc k \<or> r = -1 \<and> j \<le> k \<and> fl'' = [])) t"
        using 1(3) True by (simp only: d map_range_Suc if_True)
      then show ?thesis unfolding if_P [OF True]
        by (rule wp_mono) (use vm_to_trans [OF 1(2)] in \<open>fastforce intro: exI [of _ "Suc _"]\<close>)
    qed
  qed
qed

lemma mappages_rounds:
  assumes "va mod PGSIZE = 0" "va + Suc k * PGSIZE \<le> 2 ^ 32"
  shows "mappages pgdir va (Suc k * PGSIZE) pa perm = mappages_loop pgdir perm k va pa"
proof -
  obtain q where q: "va = PGSIZE * q" using assms(1) by (auto simp: mod_eq_0_iff_dvd dvd_def)
  have a: "PGROUNDDOWN va = va" using assms q by (simp add: PGROUNDDOWN_eq)
  have w: "(va + Suc k * PGSIZE + (2 ^ 32 - 1)) mod 2 ^ 32 = va + k * PGSIZE + 4095"
  proof -
    have "va + Suc k * PGSIZE + (2 ^ 32 - 1) = va + k * PGSIZE + 4095 + 2 ^ 32" by simp
    moreover have "va + k * PGSIZE + 4095 < 2 ^ 32" using assms(2) by simp
    ultimately show ?thesis by (simp only: mod_add_self2 mod_less)
  qed
  have e: "(va + k * PGSIZE + 4095) div PGSIZE = q + k" unfolding q by (intro div_nat_eqI) auto
  have b: "va + k * PGSIZE + 4095 < 2 ^ 32" using assms(2) by simp
  have l: "PGROUNDDOWN (va + k * PGSIZE + 4095) = va + k * PGSIZE"
    unfolding PGROUNDDOWN_eq mod_less [OF b] e by (simp add: q)
  have "(va + k * PGSIZE + 2 ^ 32 - va) mod 2 ^ 32 div PGSIZE = k"
  proof -
    have "va + k * PGSIZE + 2 ^ 32 - va = k * PGSIZE + 2 ^ 32" by simp
    moreover have "k * PGSIZE < 2 ^ 32" using assms(2) by simp
    ultimately show ?thesis by simp
  qed
  then show ?thesis by (simp only: mappages_def a w l Let_def)
qed

lemma mappages_wp:
  assumes "vm_pre s fl pgdir" "va mod PGSIZE = 0" "va + Suc k * PGSIZE \<le> 2 ^ 32" "pa + Suc k * PGSIZE \<le> 2 ^ 32" "perm < PGSIZE"
    "\<forall>w. va div PGSIZE \<le> w \<and> w \<le> va div PGSIZE + k \<longrightarrow> pt_entry (km_mem s) pgdir w = None"
  shows "wp (mappages pgdir va (Suc k * PGSIZE) pa perm) (\<lambda>r t. \<exists>fl' j. vm_to pgdir s fl t fl' \<and>
    pt_entry (km_mem t) pgdir = map_range (pt_entry (km_mem s) pgdir) (va div PGSIZE) pa perm j \<and>
    (r = 0 \<and> j = Suc k \<or> r = -1 \<and> j \<le> k \<and> fl' = [])) s"
  unfolding mappages_rounds [OF assms(2,3)]
  by (rule mappages_loop_wp) (use assms in auto)

section \<open>Mapping pages\<close>

text \<open>C10: \<open>mappages\<close> refines the update of an abstract page table.  For page-aligned ranges that are not mapped yet it never panics;
  when it returns 0 the directory maps exactly the pages of the range, to consecutive physical pages with the permissions
  asked for and the present bit, and everything that was mapped before as before; it returns \<^verbatim>\<open>-1\<close> only when no page is free, having mapped a
  prefix of the range.  New tables come from the free list, the pages of tables and the free pages stay disjoint with the
  same union, and no other page of memory changes.\<close>

theorem mappages_refines:
  fixes s :: "'a kmem_state_scheme"
  assumes "kmem_inv s fl" "pd_ok (km_end s) (km_mem s) pgdir" "dirs (km_mem s) pgdir \<inter> set fl = {}"
    and "va mod PGSIZE = 0" "va + Suc k * PGSIZE \<le> 2 ^ 32" "pa + Suc k * PGSIZE \<le> 2 ^ 32" "perm < PGSIZE"
    and "\<forall>w. va div PGSIZE \<le> w \<and> w \<le> va div PGSIZE + k \<longrightarrow> pt_entry (km_mem s) pgdir w = None"
  shows "wp (mappages pgdir va (Suc k * PGSIZE) pa perm) (\<lambda>r t. \<exists>fl' j.
    pt_entry (km_mem t) pgdir = map_range (pt_entry (km_mem s) pgdir) (va div PGSIZE) pa perm j \<and>
    (r = 0 \<and> j = Suc k \<or> r = -1 \<and> j \<le> k \<and> fl' = []) \<and>
    kmem_inv t fl' \<and> pd_ok (km_end t) (km_mem t) pgdir \<and> dirs (km_mem t) pgdir \<inter> set fl' = {} \<and>
    dirs (km_mem t) pgdir \<union> set fl' = dirs (km_mem s) pgdir \<union> set fl \<and>
    only_in (dirs (km_mem s) pgdir \<union> set fl) (km_mem s) (km_mem t)) s"
proof -
  have "vm_pre s fl pgdir" using assms(1-3) by (simp add: vm_pre_def)
  then show ?thesis by (rule wp_mono [OF mappages_wp]) (use assms in \<open>auto simp: vm_to_def vm_pre_def\<close>)
qed

text \<open>Zeroed memory with one free page and an empty page directory.\<close>

definition demo_vm :: kmem_state where
  "demo_vm = \<lparr>km_mem = \<lambda>_. 0, km_freelist = 0x80402000, km_use_lock = True, km_end = 0x80400000\<rparr>"

lemma read_zero_mem: "read_u32 a (\<lambda>_. 0) = 0"
proof -
  have "mem_read a 4 (\<lambda>_. 0) = replicate 4 0" by (intro nth_equalityI) auto
  then show ?thesis by (simp add: read_u32_def)
qed

lemma demo_vm_ok:
  "kmem_inv demo_vm [0x80402000]" "pd_ok (km_end demo_vm) (km_mem demo_vm) 0x80401000"
  "dirs (km_mem demo_vm) 0x80401000 = {0x80401000}" "pt_entry (km_mem demo_vm) 0x80401000 = (\<lambda>_. None)"
proof -
  have ok: "page_ok 0x80400000 0x80402000" "page_ok 0x80400000 0x80401000" by (simp_all add: page_ok_def V2P_def)
  have nt: "\<not> has_tab (\<lambda>_. 0) p i" for p i by (simp add: has_tab_def pde_def read_zero_mem)
  show "kmem_inv demo_vm [0x80402000]" using ok by (simp add: demo_vm_def kmem_inv_def read_zero_mem)
  show "pd_ok (km_end demo_vm) (km_mem demo_vm) 0x80401000" using ok nt by (simp add: demo_vm_def pd_ok_def)
  show "dirs (km_mem demo_vm) 0x80401000 = {0x80401000}" using nt by (simp add: demo_vm_def dirs_def)
  show "pt_entry (km_mem demo_vm) 0x80401000 = (\<lambda>_. None)" using nt by (simp add: demo_vm_def pt_entry_def fun_eq_iff)
qed

theorem mappages_refines_witness:
  "wp (mappages 0x80401000 0x3000 (Suc 1 * PGSIZE) 0x500000 PTE_W) (\<lambda>r t. \<exists>fl' j.
    pt_entry (km_mem t) 0x80401000 = map_range (\<lambda>_. None) 3 0x500000 PTE_W j \<and>
    (r = 0 \<and> j = Suc 1 \<or> r = -1 \<and> j \<le> 1 \<and> fl' = []) \<and> kmem_inv t fl') demo_vm"
proof -
  have "wp (mappages 0x80401000 0x3000 (Suc 1 * PGSIZE) 0x500000 PTE_W) (\<lambda>r t. \<exists>fl' j.
    pt_entry (km_mem t) 0x80401000 = map_range (pt_entry (km_mem demo_vm) 0x80401000) (0x3000 div PGSIZE) 0x500000 PTE_W j \<and>
    (r = 0 \<and> j = Suc 1 \<or> r = -1 \<and> j \<le> 1 \<and> fl' = []) \<and>
    kmem_inv t fl' \<and> pd_ok (km_end t) (km_mem t) 0x80401000 \<and> dirs (km_mem t) 0x80401000 \<inter> set fl' = {} \<and>
    dirs (km_mem t) 0x80401000 \<union> set fl' = dirs (km_mem demo_vm) 0x80401000 \<union> set [0x80402000] \<and>
    only_in (dirs (km_mem demo_vm) 0x80401000 \<union> set [0x80402000]) (km_mem demo_vm) (km_mem t)) demo_vm"
    by (rule mappages_refines) (simp_all add: demo_vm_ok)
  then show ?thesis by (rule wp_mono) (auto simp: demo_vm_ok)
qed

end
