(* ===== verification/VmUser.thy ===== *)
theory VmUser
  imports VmMap
begin

text \<open>
  Address spaces, \<^verbatim>\<open>vm.c\<close>: \<open>space s fl pgdir\<close> says that the directory's tables, the pages of user memory and the free pages are
  disjoint.  Allocating, freeing and copying user memory keep that; pages only move between the address space and the free
  list, so none is lost or shared.
\<close>

section \<open>Address spaces\<close>

abbreviation UPAGES :: nat where "UPAGES \<equiv> 0x80000"     \<comment> \<open>pages below \<^verbatim>\<open>KERNBASE\<close>\<close>

definition frame :: "nat \<Rightarrow> nat" where
  "frame e = P2V (PTE_ADDR e)"

definition frames :: "(nat \<Rightarrow> nat option) \<Rightarrow> nat set" where
  "frames f = {frame x | v x. v < UPAGES \<and> f v = Some x}"

definition frames_ok :: "nat \<Rightarrow> (nat \<Rightarrow> nat option) \<Rightarrow> bool" where
  "frames_ok e f \<longleftrightarrow> (\<forall>v x. v < UPAGES \<and> f v = Some x \<longrightarrow> page_ok e (frame x)) \<and>
     (\<forall>v w x y. v < UPAGES \<and> w < UPAGES \<and> f v = Some x \<and> f w = Some y \<and> frame x = frame y \<longrightarrow> v = w)"

abbreviation entries :: "'a kmem_state_scheme \<Rightarrow> nat \<Rightarrow> nat \<Rightarrow> nat option" where
  "entries s pgdir \<equiv> pt_entry (km_mem s) pgdir"

definition owned :: "'a kmem_state_scheme \<Rightarrow> nat \<Rightarrow> nat set" where
  "owned s pgdir = dirs (km_mem s) pgdir \<union> frames (entries s pgdir)"

definition space :: "'a kmem_state_scheme \<Rightarrow> nat list \<Rightarrow> nat \<Rightarrow> bool" where
  "space s fl pgdir \<longleftrightarrow> vm_pre s fl pgdir \<and> KERNBASE < km_end s \<and> frames_ok (km_end s) (entries s pgdir) \<and>
     frames (entries s pgdir) \<inter> (dirs (km_mem s) pgdir \<union> set fl) = {}"

text \<open>A step that moves pages between the address space and the free list and touches no other page.\<close>

definition space_to :: "nat \<Rightarrow> 'a kmem_state_scheme \<Rightarrow> nat list \<Rightarrow> 'a kmem_state_scheme \<Rightarrow> nat list \<Rightarrow> bool" where
  "space_to pgdir s fl t fl' \<longleftrightarrow> space t fl' pgdir \<and> mem_only s t \<and> owned t pgdir \<union> set fl' = owned s pgdir \<union> set fl \<and>
     only_in (owned s pgdir \<union> set fl) (km_mem s) (km_mem t)"

lemma space_to_refl: "space s fl pgdir \<Longrightarrow> space_to pgdir s fl s fl"
  by (simp add: space_to_def)

lemma space_to_trans: "space_to pgdir s fl t fl' \<Longrightarrow> space_to pgdir t fl' u fl'' \<Longrightarrow> space_to pgdir s fl u fl''"
  unfolding space_to_def by (auto intro: only_in_trans mem_only_trans)

lemma space_pre: "space s fl pgdir \<Longrightarrow> vm_pre s fl pgdir"
  by (simp add: space_def)

lemma space_top: "space s fl pgdir \<Longrightarrow> KERNBASE \<le> km_end s"
  by (simp add: space_def)

lemma in_frames: "p \<in> frames f \<longleftrightarrow> (\<exists>v x. v < UPAGES \<and> f v = Some x \<and> p = frame x)"
  by (auto simp: frames_def)

lemma frames_okD:
  "frames_ok e f \<Longrightarrow> v < UPAGES \<Longrightarrow> f v = Some x \<Longrightarrow> page_ok e (frame x)"
  "frames_ok e f \<Longrightarrow> v < UPAGES \<Longrightarrow> w < UPAGES \<Longrightarrow> f v = Some x \<Longrightarrow> f w = Some y \<Longrightarrow> frame x = frame y \<Longrightarrow> v = w"
  unfolding frames_ok_def by blast+

lemma frames_okI:
  assumes "\<And>v x. v < UPAGES \<Longrightarrow> f v = Some x \<Longrightarrow> page_ok e (frame x)"
    "\<And>v w x y. v < UPAGES \<Longrightarrow> w < UPAGES \<Longrightarrow> f v = Some x \<Longrightarrow> f w = Some y \<Longrightarrow> frame x = frame y \<Longrightarrow> v = w"
  shows "frames_ok e f"
  using assms unfolding frames_ok_def by blast

lemma frames_update_None:
  assumes "frames_ok e f" "v < UPAGES" "f v = Some x"
  shows "frames (f(v := None)) = frames f - {frame x}"
proof (rule set_eqI)
  fix p
  have "p \<in> frames (f(v := None)) \<longleftrightarrow> (\<exists>w y. w < UPAGES \<and> w \<noteq> v \<and> f w = Some y \<and> p = frame y)"
    by (auto simp: in_frames)
  also have "\<dots> \<longleftrightarrow> (\<exists>w y. w < UPAGES \<and> f w = Some y \<and> p = frame y \<and> frame y \<noteq> frame x)"
    using assms(2,3) frames_okD(2) [OF assms(1)] by (metis option.inject)
  finally show "p \<in> frames (f(v := None)) \<longleftrightarrow> p \<in> frames f - {frame x}" by (auto simp: in_frames)
qed

lemma frames_ok_update_None: "frames_ok e f \<Longrightarrow> frames_ok e (f(v := None))"
  by (rule frames_okI) (auto split: if_splits dest: frames_okD)

lemma frames_update:
  assumes "v < UPAGES" "f v = None"
  shows "frames (f(v \<mapsto> x)) = insert (frame x) (frames f)"
proof (rule set_eqI)
  fix p
  have "p \<in> frames (f(v \<mapsto> x)) \<longleftrightarrow> p = frame x \<or> (\<exists>w y. w < UPAGES \<and> w \<noteq> v \<and> f w = Some y \<and> p = frame y)"
    using assms(1) by (auto simp: in_frames)
  also have "\<dots> \<longleftrightarrow> p = frame x \<or> p \<in> frames f" using assms(2) by (auto simp: in_frames)
  finally show "p \<in> frames (f(v \<mapsto> x)) \<longleftrightarrow> p \<in> insert (frame x) (frames f)" by simp
qed

lemma frames_ok_update:
  assumes "frames_ok e f" "page_ok e (frame x)" "frame x \<notin> frames f"
  shows "frames_ok e (f(v \<mapsto> x))"
proof (rule frames_okI)
  fix w y assume "w < UPAGES" "(f(v \<mapsto> x)) w = Some y"
  then show "page_ok e (frame y)" using assms frames_okD(1) [OF assms(1)] by (auto split: if_splits)
next
  fix w u y z assume "w < UPAGES" "u < UPAGES" "(f(v \<mapsto> x)) w = Some y" "(f(v \<mapsto> x)) u = Some z" "frame y = frame z"
  moreover have "frame y \<noteq> frame x" if "w < UPAGES" "f w = Some y" for w y using that assms(3) by (auto simp: in_frames)
  ultimately show "w = u" using frames_okD(2) [OF assms(1)] by (metis fun_upd_apply option.inject)
qed

lemma frame_entry:
  assumes "page_ok e p" "KERNBASE \<le> e" "perm < PGSIZE"
  shows "frame (V2P p OR perm OR PTE_P) = p" "PTE_FLAGS (V2P p OR perm OR PTE_P) = perm OR PTE_P"
proof -
  have b: "perm OR PTE_P < PGSIZE" using assms(3) or_bound [of perm 12 PTE_P] by simp
  note k = kernel_addr [OF assms(1,2) b]
  show "frame (V2P p OR perm OR PTE_P) = p" using k by (simp add: frame_def)
  show "PTE_FLAGS (V2P p OR perm OR PTE_P) = perm OR PTE_P" using k by simp
qed

section \<open>Freeing user memory\<close>

lemma kfree_wp:
  assumes "kmem_inv s fl" "page_ok (km_end s) p" "p \<notin> set fl"
  shows "wp (kfree p) (\<lambda>_ t. kmem_inv t (p # fl) \<and> mem_only s t \<and> only_in {p} (km_mem s) (km_mem t)) s"
proof -
  obtain t where t: "kfree p s = Done () t" "kmem_inv t (p # fl)" "t = s\<lparr>km_mem := km_mem t, km_freelist := p\<rparr>"
    "\<forall>y. \<not> (p \<le> y \<and> y < p + PGSIZE) \<longrightarrow> km_mem t y = km_mem s y"
    using kfree_ok [OF assms] by blast
  have "only_in {p} (km_mem s) (km_mem t)" using t(4) page_id [OF page_ok_aligned [OF assms(2)]] by (auto simp: only_in_def)
  moreover have "mem_only s t" by (subst t(3)) simp
  ultimately show ?thesis using t(1,2) by (simp add: wp_iff)
qed

text \<open>Freeing the page of an entry and clearing the entry.\<close>

lemma free_frame:
  assumes sp: "space s fl pgdir" and v: "v < UPAGES" "entries s pgdir v = Some x"
  shows "wp (kseq (kfree (frame x)) (store_u32 (tab (km_mem s) pgdir (v div 1024) + 4 * (v mod 1024)) 0))
    (\<lambda>_ t. space_to pgdir s fl t (frame x # fl) \<and> dirs (km_mem t) pgdir = dirs (km_mem s) pgdir \<and>
      entries t pgdir = (entries s pgdir)(v := None)) s"
proof -
  let ?p = "frame x"
  have "?p \<in> frames (entries s pgdir)" "page_ok (km_end s) ?p" using sp v by (auto simp: space_def frames_ok_def in_frames)
  then have p: "page_ok (km_end s) ?p" "?p \<notin> dirs (km_mem s) pgdir" "?p \<notin> set fl" "?p \<in> frames (entries s pgdir)"
    using sp unfolding space_def by blast+
  have inv: "kmem_inv s fl" and pd: "pd_ok (km_end s) (km_mem s) pgdir" using sp by (simp_all add: space_def vm_pre_def)
  obtain t where t: "kfree ?p s = Done () t" "kmem_inv t (?p # fl)" "mem_only s t" and o1: "only_in {?p} (km_mem s) (km_mem t)"
    using kfree_wp [OF inv p(1,3)] by (auto elim: wp_unitE)
  have "agree_on q PGSIZE (km_mem s) (km_mem t)" if "q \<in> dirs (km_mem s) pgdir" for q
    using that p(2) dirs_page_ok [OF pd that] by (intro only_in_agree [OF o1] page_ok_aligned) auto
  note c = dirs_cong [OF pd this]
  have e: "km_end t = km_end s" by (rule mem_only_end [OF t(3)])
  have h: "has_tab (km_mem s) pgdir (v div 1024)" using v(2) by (simp add: pt_entry_def split: if_splits)
  have pre: "vm_pre t (?p # fl) pgdir" using t(2) c(5,6) p(2) sp by (auto simp: vm_pre_def space_def e)
  have tb: "tab (km_mem t) pgdir (v div 1024) = tab (km_mem s) pgdir (v div 1024)" using c(3) h by simp
  have ht: "has_tab (km_mem t) pgdir (v div 1024)" using h c(2) by simp
  have z: "(0 :: nat) < 2 ^ 32" by simp
  define u where "u = t\<lparr>km_mem := write_u32 (tab (km_mem t) pgdir (v div 1024) + 4 * (v mod 1024)) 0 (km_mem t)\<rparr>"
  note st = store_entry [OF pre ht z, folded u_def]
  have ent: "entries u pgdir = (entries s pgdir)(v := None)" using st(2) c(4) by simp
  have du: "dirs (km_mem u) pgdir = dirs (km_mem s) pgdir" using st(3) c(5) by simp
  have fr: "frames (entries u pgdir) = frames (entries s pgdir) - {?p}"
    unfolding ent using sp v by (intro frames_update_None) (auto simp: space_def)
  from t(3) have mo: "mem_only s u" unfolding u_def by (rule mem_only_trans) simp
  have vu: "vm_pre u (?p # fl) pgdir" using st(1) by (simp add: vm_to_def)
  have "frames_ok (km_end u) (entries u pgdir)"
    using sp frames_ok_update_None unfolding ent mem_only_end [OF mo] by (auto simp: space_def)
  then have "space u (?p # fl) pgdir" using vu sp p(2) by (auto simp: space_def du fr mem_only_end [OF mo])
  moreover have "owned u pgdir \<union> set (?p # fl) = owned s pgdir \<union> set fl" using p(4) by (auto simp: owned_def du fr)
  moreover have "only_in (owned s pgdir \<union> set fl) (km_mem s) (km_mem u)"
    using st(1) c(5) p(4) by (intro only_in_trans [OF o1, of "dirs (km_mem t) pgdir \<union> set (?p # fl)"]) (auto simp: vm_to_def owned_def)
  ultimately have "space_to pgdir s fl u (?p # fl)" using mo by (simp add: space_to_def)
  then show ?thesis using t(1) tb ent du by (auto simp: wp_iff store_u32_def kernel_defs u_def)
qed

lemma next_table:
  assumes "a < KERNBASE" "a mod PGSIZE = 0"
  defines "b \<equiv> PGADDR (PDX a + 1) 0 0"
  shows "a < b" "b mod PGSIZE = 0" "\<And>v. a div PGSIZE \<le> v \<Longrightarrow> v < b div PGSIZE \<Longrightarrow> v div 1024 = a div PGSIZE div 1024"
proof -
  have i: "PDX a = a div 2 ^ 22" "a div 2 ^ 22 < 512" using assms(1) by (simp_all add: PDX_def less_mult_imp_div_less)
  then have b: "b = (a div 2 ^ 22 + 1) * 2 ^ 22" by (simp add: b_def PGADDR_def)
  show "a < b" unfolding b add_mult_distrib using dividend_less_div_times [of "2 ^ 22" a] by simp
  show "b mod PGSIZE = 0" unfolding b by (simp add: mod_eq_0_iff_dvd)
  have e: "a div 2 ^ 22 = a div PGSIZE div 1024" by (simp add: div_mult2_eq [symmetric])
  fix v assume v: "a div PGSIZE \<le> v" "v < b div PGSIZE"
  have "b div PGSIZE = (a div PGSIZE div 1024 + 1) * 1024" unfolding b e by simp
  then have "v div 1024 \<le> a div PGSIZE div 1024" using v(2) by (simp add: less_mult_imp_div_less flip: less_Suc_eq_le)
  moreover have "a div PGSIZE div 1024 \<le> v div 1024" using v(1) by (rule div_le_mono)
  ultimately show "v div 1024 = a div PGSIZE div 1024" by simp
qed

text \<open>The entries after the pages from \<open>a\<close> up to \<open>oldsz\<close> have been freed.\<close>

definition cleared :: "nat \<Rightarrow> nat \<Rightarrow> (nat \<Rightarrow> nat option) \<Rightarrow> nat \<Rightarrow> nat option" where
  "cleared a oldsz f = (\<lambda>v. if a div PGSIZE \<le> v \<and> v * PGSIZE < oldsz then None else f v)"

lemma cleared_skip:
  assumes "a \<le> b" "a mod PGSIZE = 0" "b mod PGSIZE = 0" "\<And>v. a div PGSIZE \<le> v \<Longrightarrow> v < b div PGSIZE \<Longrightarrow> f v = None"
  shows "cleared b oldsz f = cleared a oldsz f"
  using assms div_le_mono [OF assms(1), of PGSIZE] by (auto simp: cleared_def fun_eq_iff not_le)

lemma cleared_step:
  assumes "a mod PGSIZE = 0" "a < oldsz"
  shows "cleared (a + PGSIZE) oldsz (f(a div PGSIZE := None)) = cleared a oldsz f"
  using assms by (auto simp: cleared_def fun_eq_iff)

lemma frame_not_0: "page_ok e (frame x) \<Longrightarrow> KERNBASE < e \<Longrightarrow> PTE_ADDR x \<noteq> 0"
  by (auto simp: frame_def page_ok_def P2V_def)

lemma walk_look_wp:
  assumes "va < 2 ^ 32"
  shows "wp (walkpgdir pgdir va False) Q s = Q (if has_tab (km_mem s) pgdir (va div PGSIZE div 1024)
     then tab (km_mem s) pgdir (va div PGSIZE div 1024) + 4 * (va div PGSIZE mod 1024) else 0) s"
  using walk_look [OF assms, of pgdir s] by (simp add: wp_iff)

lemma wp_kseq_assoc: "wp (kseq f (kseq g h)) Q s = wp (kseq f g) (\<lambda>_. wp h Q) s"
  by simp

lemma dealloc_loop_wp:
  assumes "space s fl pgdir" "a mod PGSIZE = 0" "oldsz \<le> KERNBASE"
  shows "wp (dealloc_loop pgdir oldsz a) (\<lambda>_ t. \<exists>fl'. space_to pgdir s fl t fl' \<and> dirs (km_mem t) pgdir = dirs (km_mem s) pgdir \<and>
    entries t pgdir = cleared a oldsz (entries s pgdir)) s"
  using assms
proof (induction "oldsz - a" arbitrary: s fl a rule: less_induct)
  case less
  note sp = less.prems(1)
  show ?case
  proof (cases "a < oldsz")
    case False
    then have "cleared a oldsz (entries s pgdir) = entries s pgdir" using less.prems(2) by (auto simp: cleared_def fun_eq_iff)
    then show ?thesis using False space_to_refl [OF sp] by (auto simp: dealloc_loop.simps)
  next
    case True
    let ?v = "a div PGSIZE"
    have a: "a < KERNBASE" "a < 2 ^ 32" using True less.prems(3) by simp_all
    then have v: "?v < UPAGES" by simp
    note walk = walk_look_wp [OF a(2)]
    show ?thesis
    proof (cases "has_tab (km_mem s) pgdir (?v div 1024)")
      case notab: False
      let ?b = "PGADDR (PDX a + 1) 0 0"
      note nx = next_table [OF a(1) less.prems(2)]
      have none: "entries s pgdir w = None" if "?v \<le> w" "w < ?b div PGSIZE" for w
        using nx(3) [OF that] notab by (simp add: pt_entry_def)
      have "wp (dealloc_loop pgdir oldsz ?b) (\<lambda>_ t. \<exists>fl'. space_to pgdir s fl t fl' \<and> dirs (km_mem t) pgdir = dirs (km_mem s) pgdir \<and>
        entries t pgdir = cleared ?b oldsz (entries s pgdir)) s"
        using True nx(1) by (intro less.hyps [OF _ sp nx(2) less.prems(3)]) linarith
      then have "wp (dealloc_loop pgdir oldsz ?b) (\<lambda>_ t. \<exists>fl'. space_to pgdir s fl t fl' \<and> dirs (km_mem t) pgdir = dirs (km_mem s) pgdir \<and>
        entries t pgdir = cleared a oldsz (entries s pgdir)) s"
        using cleared_skip [OF less_imp_le [OF nx(1)] less.prems(2) nx(2) none] by simp
      then show ?thesis using True notab nx(1) by (subst dealloc_loop.simps) (simp add: walk wp_if)
    next
      case tab: True
      let ?e = "read_u32 (tab (km_mem s) pgdir (?v div 1024) + 4 * (?v mod 1024)) (km_mem s)"
      have nz: "tab (km_mem s) pgdir (?v div 1024) \<noteq> 0" using sp tab tab_nz by (auto simp: space_def vm_pre_def)
      show ?thesis
      proof (cases "present ?e")
        case False
        then have "entries s pgdir ?v = None" by (simp add: pt_entry_def pte_of_def)
        then have eq: "cleared (a + PGSIZE) oldsz (entries s pgdir) = cleared a oldsz (entries s pgdir)"
          using cleared_step [OF less.prems(2) True, of "entries s pgdir"] by (simp add: fun_upd_idem)
        have "wp (dealloc_loop pgdir oldsz (a + PGSIZE)) (\<lambda>_ t. \<exists>fl'. space_to pgdir s fl t fl' \<and> dirs (km_mem t) pgdir = dirs (km_mem s) pgdir \<and>
          entries t pgdir = cleared (a + PGSIZE) oldsz (entries s pgdir)) s"
          using True less.prems by (intro less.hyps) auto
        then show ?thesis unfolding eq using True tab nz False
          by (subst dealloc_loop.simps) (simp add: walk wp_if load_u32_def present_def)
      next
        case pr: True
        then have en: "entries s pgdir ?v = Some ?e" using tab by (simp add: pt_entry_def pte_of_def)
        have "page_ok (km_end s) (frame ?e)" "KERNBASE < km_end s" using sp v en unfolding space_def frames_ok_def by blast+
        then have addr: "PTE_ADDR ?e \<noteq> 0" by (rule frame_not_0)
        have body: "wp (kseq (kfree (frame ?e)) (kseq (store_u32 (tab (km_mem s) pgdir (?v div 1024) + 4 * (?v mod 1024)) 0)
            (dealloc_loop pgdir oldsz (a + PGSIZE)))) (\<lambda>_ t. \<exists>fl'. space_to pgdir s fl t fl' \<and>
            dirs (km_mem t) pgdir = dirs (km_mem s) pgdir \<and> entries t pgdir = cleared a oldsz (entries s pgdir)) s"
          unfolding wp_kseq_assoc
        proof (rule wp_mono [OF free_frame [OF sp v en]], elim conjE, goal_cases)
          case (1 r t)
          have "wp (dealloc_loop pgdir oldsz (a + PGSIZE)) (\<lambda>_ u. \<exists>fl'. space_to pgdir t (frame ?e # fl) u fl' \<and> dirs (km_mem u) pgdir = dirs (km_mem t) pgdir \<and>
            entries u pgdir = cleared (a + PGSIZE) oldsz (entries t pgdir)) t"
            using True less.prems 1 by (intro less.hyps) (auto simp: space_to_def)
          then show ?case using 1(2) space_to_trans [OF 1(1)] unfolding 1(3) cleared_step [OF less.prems(2) True] by (elim wp_mono) auto
        qed
        then show ?thesis using True tab nz pr addr
          by (subst dealloc_loop.simps) (simp add: walk wp_if load_u32_def present_def frame_def)
      qed
    qed
  qed
qed

lemma roundup_aligned: "PGROUNDUP a mod PGSIZE = 0"
  by (simp add: PGROUNDUP_eq)

lemma deallocuvm_wp:
  assumes "space s fl pgdir" "oldsz \<le> KERNBASE" "newsz < oldsz"
  shows "wp (deallocuvm pgdir oldsz newsz) (\<lambda>r t. r = newsz \<and> (\<exists>fl'. space_to pgdir s fl t fl' \<and> dirs (km_mem t) pgdir = dirs (km_mem s) pgdir \<and>
    entries t pgdir = cleared (PGROUNDUP newsz) oldsz (entries s pgdir))) s"
  using assms(3) dealloc_loop_wp [OF assms(1) roundup_aligned assms(2)] by (simp add: deallocuvm_def)

text \<open>Freeing the tables of a directory.\<close>

lemma free_tables_wp:
  assumes pre: "vm_pre s fl pgdir"
  shows "wp (kfor [0..<NPDENTRIES] (\<lambda>i. kbind (load_u32 (pgdir + 4 * i)) (\<lambda>e. kwhen (e AND PTE_P \<noteq> 0) (kfree (P2V (PTE_ADDR e))))))
    (\<lambda>_ t. \<exists>fl'. kmem_inv t fl' \<and> mem_only s t \<and> only_in (dirs (km_mem s) pgdir - {pgdir}) (km_mem s) (km_mem t) \<and>
      set fl' = set fl \<union> (dirs (km_mem s) pgdir - {pgdir})) s"
proof -
  let ?m = "km_mem s"
  let ?D = "dirs ?m pgdir - {pgdir}"
  have pd: "pd_ok (km_end s) ?m pgdir" using pre by (simp add: vm_pre_def)
  have D: "?D = tab ?m pgdir ` {i. has_tab ?m pgdir i}" using pd by (auto simp: dirs_def pd_ok_def)
  define I where "I ys t \<longleftrightarrow> distinct ys \<and> set ys \<subseteq> {..<1024} \<and> mem_only s t \<and> only_in ?D ?m (km_mem t) \<and>
    (\<exists>fl'. kmem_inv t fl' \<and> set fl' \<union> tab ?m pgdir ` {i \<in> set ys. has_tab ?m pgdir i} = set fl \<union> ?D \<and>
       set fl' \<inter> tab ?m pgdir ` {i \<in> set ys. has_tab ?m pgdir i} = {})" for ys and t :: "'a kmem_state_scheme"
  have "I [0..<1024] s"
  proof -
    have "{i \<in> set [0..<1024]. has_tab ?m pgdir i} = {i. has_tab ?m pgdir i}" by (auto simp: has_tab_def)
    then show ?thesis using pre D unfolding I_def by (auto simp: vm_pre_def dirs_def intro!: exI [of _ fl])
  qed
  moreover have "wp (kbind (load_u32 (pgdir + 4 * i)) (\<lambda>e. kwhen (e AND PTE_P \<noteq> 0) (kfree (P2V (PTE_ADDR e))))) (\<lambda>_. I ys) t"
    if It: "I (i # ys) t" for i ys t
  proof -
    from It obtain fl' where t: "kmem_inv t fl'" "set fl' \<union> tab ?m pgdir ` {k \<in> set (i # ys). has_tab ?m pgdir k} = set fl \<union> ?D"
      "set fl' \<inter> tab ?m pgdir ` {k \<in> set (i # ys). has_tab ?m pgdir k} = {}" "mem_only s t" "only_in ?D ?m (km_mem t)"
      "i < 1024" "i \<notin> set ys" "distinct ys" "set ys \<subseteq> {..<1024}"
      unfolding I_def by auto
    have "agree_on pgdir PGSIZE ?m (km_mem t)" using pd by (intro only_in_agree [OF t(5)]) (auto simp: pd_ok_def page_ok_def)
    then have e: "read_u32 (pgdir + 4 * i) (km_mem t) = pde ?m pgdir i" using t(6) by (simp add: read_page pde_def)
    show ?thesis
    proof (cases "has_tab ?m pgdir i")
      case False
      then have "{k \<in> set (i # ys). has_tab ?m pgdir k} = {k \<in> set ys. has_tab ?m pgdir k}" by auto
      then have "I ys t" using t unfolding I_def by auto
      moreover have "\<not> present (pde ?m pgdir i)" using False t(6) by (simp add: has_tab_def)
      ultimately show ?thesis by (simp add: load_u32_def e present_def)
    next
      case True
      let ?p = "tab ?m pgdir i"
      have set: "{k \<in> set (i # ys). has_tab ?m pgdir k} = insert i {k \<in> set ys. has_tab ?m pgdir k}" using True by auto
      have p: "page_ok (km_end t) ?p" "?p \<notin> set fl'" "?p \<in> ?D"
        using pd True t(3) D unfolding set mem_only_end [OF t(4)] by (auto simp: pd_ok_def)
      have new: "?p \<notin> tab ?m pgdir ` {k \<in> set ys. has_tab ?m pgdir k}" using pd True t(7) by (auto simp: pd_ok_def inj_on_def)
      have "present (pde ?m pgdir i)" "?p = P2V (PTE_ADDR (pde ?m pgdir i))" using True by (simp_all add: has_tab_def tab_def)
      moreover have "wp (kfree ?p) (\<lambda>_. I ys) t"
      proof (rule wp_mono [OF kfree_wp [OF t(1) p(1,2)]], elim conjE, goal_cases)
        case (1 r u)
        have "mem_only s u" "only_in ?D ?m (km_mem u)" using mem_only_trans [OF t(4) 1(2)] only_in_trans [OF t(5) 1(3)] p(3) by auto
        moreover have "set (?p # fl') \<union> tab ?m pgdir ` {k \<in> set ys. has_tab ?m pgdir k} = set fl \<union> ?D"
          using t(2) unfolding set by auto
        moreover have "set (?p # fl') \<inter> tab ?m pgdir ` {k \<in> set ys. has_tab ?m pgdir k} = {}"
          using t(3) new unfolding set by auto
        ultimately show ?case using 1(1) t(8,9) unfolding I_def by blast
      qed
      ultimately show ?thesis by (simp add: load_u32_def e present_def)
    qed
  qed
  ultimately have "wp (kfor [0..<1024] (\<lambda>i. kbind (load_u32 (pgdir + 4 * i)) (\<lambda>e. kwhen (e AND PTE_P \<noteq> 0) (kfree (P2V (PTE_ADDR e)))))) (\<lambda>_. I []) s"
    by (rule wp_kfor)
  then show ?thesis by (rule wp_mono) (auto simp: I_def)
qed

lemma space_owned_disjoint: "space s fl pgdir \<Longrightarrow> owned s pgdir \<inter> set fl = {}"
  by (auto simp: space_def owned_def vm_pre_def)

text \<open>\<open>freevm\<close> gives back every page of the address space.\<close>

lemma freevm_wp:
  assumes sp: "space s fl pgdir"
  shows "wp (freevm pgdir) (\<lambda>_ t. \<exists>fl'. kmem_inv t fl' \<and> mem_only s t \<and> set fl' = owned s pgdir \<union> set fl \<and>
    only_in (owned s pgdir \<union> set fl) (km_mem s) (km_mem t)) s"
proof -
  have pg: "page_ok (km_end s) pgdir" "pgdir \<noteq> 0" using sp by (auto simp: space_def vm_pre_def pd_ok_def page_ok_def)
  have z: "(0 :: nat) < KERNBASE" by simp
  show ?thesis unfolding freevm_def if_not_P [OF pg(2)] wp_kseq
  proof (rule wp_mono [OF deallocuvm_wp [OF sp order_refl z]], elim exE conjE, goal_cases)
    case (1 r t fl1)
    have "entries t pgdir v = None" if "v < UPAGES" for v using 1(4) that by (simp add: cleared_def PGROUNDUP_eq)
    then have "frames (entries t pgdir) = {}" by (auto simp: in_frames)
    then have own: "dirs (km_mem t) pgdir \<union> set fl1 = owned s pgdir \<union> set fl" "pgdir \<in> owned s pgdir"
      using 1(2) by (auto simp: space_to_def owned_def dirs_def)
    have pre: "vm_pre t fl1 pgdir" using 1(2) by (simp add: space_to_def space_def)
    show ?case
    proof (rule wp_mono [OF free_tables_wp [OF pre]], elim exE conjE, goal_cases)
      case (1 r u fl2)
      have nin: "pgdir \<notin> set fl2" using 1(4) pre by (auto simp: vm_pre_def dirs_def)
      have st: "mem_only s t" "only_in (owned s pgdir \<union> set fl) (km_mem s) (km_mem t)"
        using \<open>space_to pgdir s fl t fl1\<close> by (simp_all add: space_to_def)
      have su: "mem_only s u" by (rule mem_only_trans [OF st(1) 1(2)])
      have ou: "only_in (owned s pgdir \<union> set fl) (km_mem s) (km_mem u)"
        by (rule only_in_trans [OF st(2) 1(3)]) (use own in auto)
      have eq: "set (pgdir # fl2) = owned s pgdir \<union> set fl" using 1(4) own by (auto simp: dirs_def)
      have "page_ok (km_end u) pgdir" using pg(1) mem_only_end [OF su] by simp
      from kfree_wp [OF 1(1) this nin] show ?case
      proof (rule wp_mono, elim conjE, goal_cases)
        case (1 r w)
        have "mem_only s w" by (rule mem_only_trans [OF su 1(3)])
        moreover have "only_in (owned s pgdir \<union> set fl) (km_mem s) (km_mem w)"
          by (rule only_in_trans [OF ou 1(4)]) (use own(2) in auto)
        ultimately show ?case using 1(2) eq by blast
      qed
    qed
  qed
qed

end
