(* ===== verification/VmSpace.thy ===== *)
theory VmSpace
  imports VmUser
begin

text \<open>
  Building address spaces, \<^verbatim>\<open>vm.c\<close>: the kernel's part by \<open>setupkvm\<close>, user memory by \<open>allocuvm\<close>, and the copy for \<open>fork\<close> by \<open>copyuvm\<close>.  The
  main results are that a copy is equal but separate, and that a failure gives back every page.
\<close>

section \<open>The kernel's part of an address space\<close>

text \<open>A region of \<open>kmap\<close> as a range of pages: the first page, the physical address, the number of pages, the permissions.\<close>

type_synonym region = "nat \<times> nat \<times> nat \<times> nat"

definition region_of :: "nat \<times> nat \<times> nat \<times> nat \<Rightarrow> region \<Rightarrow> bool" where
  "region_of k r \<longleftrightarrow> (case (k, r) of ((virt, pstart, pend, perm), (v, pa, n, q)) \<Rightarrow>
     virt = v * PGSIZE \<and> pstart = pa \<and> (pend + 2 ^ 32 - pstart) mod 2 ^ 32 = n * PGSIZE \<and> perm = q \<and> 0 < n \<and>
     v * PGSIZE + n * PGSIZE \<le> 2 ^ 32 \<and> pa + n * PGSIZE \<le> 2 ^ 32 \<and> q < PGSIZE \<and> UPAGES \<le> v)"

primrec regions_free :: "(nat \<Rightarrow> nat option) \<Rightarrow> region list \<Rightarrow> bool" where
  "regions_free f [] \<longleftrightarrow> True"
| "regions_free f (r # rs) \<longleftrightarrow> (case r of (v, pa, n, q) \<Rightarrow>
     (\<forall>w. v \<le> w \<and> w < v + n \<longrightarrow> f w = None) \<and> regions_free (map_range f v pa q n) rs)"

definition map_regions :: "region list \<Rightarrow> (nat \<Rightarrow> nat option) \<Rightarrow> nat \<Rightarrow> nat option" where
  "map_regions = fold (\<lambda>(v, pa, n, q) f. map_range f v pa q n)"

lemma map_range_below: "UPAGES \<le> v \<Longrightarrow> w < UPAGES \<Longrightarrow> map_range f v pa q n w = f w"
  by (simp add: map_range_def)

lemma setupkvm_loop_wp:
  assumes "vm_pre s fl pgdir" "list_all2 region_of ks rs" "regions_free (entries s pgdir) rs"
  shows "wp (setupkvm_loop pgdir ks) (\<lambda>ok t. \<exists>fl'. vm_to pgdir s fl t fl' \<and>
    (ok \<longrightarrow> entries t pgdir = map_regions rs (entries s pgdir)) \<and> (\<forall>v < UPAGES. entries t pgdir v = entries s pgdir v) \<and>
    (\<not> ok \<longrightarrow> fl' = [])) s"
  using assms
proof (induction ks arbitrary: s fl rs)
  case Nil
  then show ?case using vm_to_refl [OF Nil(1)] by (auto simp: map_regions_def intro: exI [of _ fl])
next
  case (Cons k ks)
  obtain v pa n q rs' where rs: "rs = (v, pa, n, q) # rs'" "region_of k (v, pa, n, q)" "list_all2 region_of ks rs'"
    using Cons.prems(2) by (cases rs) auto
  obtain pend where k: "k = (v * PGSIZE, pa, pend, q)" "(pend + 2 ^ 32 - pa) mod 2 ^ 32 = n * PGSIZE"
    and n: "0 < n" "v * PGSIZE + n * PGSIZE \<le> 2 ^ 32" "pa + n * PGSIZE \<le> 2 ^ 32" "q < PGSIZE" "UPAGES \<le> v"
    using rs(2) by (cases k) (auto simp: region_of_def)
  obtain m where m: "n = Suc m" using n(1) gr0_implies_Suc by blast
  have free: "\<forall>w. v \<le> w \<and> w < v + n \<longrightarrow> entries s pgdir w = None" "regions_free (map_range (entries s pgdir) v pa q n) rs'"
    using Cons.prems(3) rs(1) by simp_all
  have "wp (mappages pgdir (v * PGSIZE) (Suc m * PGSIZE) pa q) (\<lambda>r t. \<exists>fl' j. vm_to pgdir s fl t fl' \<and>
    entries t pgdir = map_range (entries s pgdir) (v * PGSIZE div PGSIZE) pa q j \<and>
    (r = 0 \<and> j = Suc m \<or> r = -1 \<and> j \<le> m \<and> fl' = [])) s"
    by (rule mappages_wp [OF Cons.prems(1)]) (use n free(1) m in auto)
  then have "wp (mappages pgdir (v * PGSIZE) (n * PGSIZE) pa q) (\<lambda>r t. \<exists>fl' j. vm_to pgdir s fl t fl' \<and>
    entries t pgdir = map_range (entries s pgdir) v pa q j \<and> (r = 0 \<and> j = n \<or> r = -1 \<and> fl' = [])) s"
    unfolding m by (rule wp_mono) auto
  then show ?case unfolding k(1) setupkvm_loop.simps prod.case wp_kbind k(2)
  proof (rule wp_mono, elim exE conjE, goal_cases)
    case (1 r t fl1 j)
    have same: "entries t pgdir w = entries s pgdir w" if "w < UPAGES" for w using 1(3) that n(5) by (simp add: map_range_below)
    from 1(4) show ?case
    proof (elim disjE conjE)
      assume r: "r = 0" "j = n"
      have "wp (setupkvm_loop pgdir ks) (\<lambda>ok u. \<exists>fl'. vm_to pgdir t fl1 u fl' \<and>
        (ok \<longrightarrow> entries u pgdir = map_regions rs' (entries t pgdir)) \<and> (\<forall>v < UPAGES. entries u pgdir v = entries t pgdir v) \<and>
        (\<not> ok \<longrightarrow> fl' = [])) t"
        using 1(2,3) r free(2) by (intro Cons.IH [OF _ rs(3)]) (simp_all add: vm_to_def)
      then show ?case using r(1) vm_to_trans [OF 1(2)] same 1(3) r(2)
        by (simp add: rs(1)) (erule wp_mono, fastforce simp: map_regions_def)
    qed (use 1(2) same in auto)
  qed
qed

text \<open>The kernel's mappings: the first megabyte with the devices, the kernel's text, which is read-only, its data with the
  memory up to \<^verbatim>\<open>PHYSTOP\<close>, and the devices at the top.\<close>

definition kernel_regions :: "nat \<Rightarrow> region list" where
  "kernel_regions data_sym = (let d = (data_sym - KERNBASE) div PGSIZE in
     [(0x80000, 0, 256, PTE_W), (0x80100, EXTMEM, d - 256, 0), (0x80000 + d, d * PGSIZE, 57344 - d, PTE_W), (0xFE000, DEVSPACE, 8192, PTE_W)])"

definition data_ok :: "nat \<Rightarrow> bool" where
  "data_ok data_sym \<longleftrightarrow> data_sym mod PGSIZE = 0 \<and> KERNBASE + EXTMEM < data_sym \<and> data_sym < KERNBASE + PHYSTOP"

definition kernel_entries :: "nat \<Rightarrow> nat \<Rightarrow> nat option" where
  "kernel_entries data_sym = map_regions (kernel_regions data_sym) (\<lambda>_. None)"

lemma data_pages:
  assumes "data_ok data_sym"
  obtains d where "data_sym = KERNBASE + d * PGSIZE" "256 < d" "d < 57344" "(data_sym - KERNBASE) div PGSIZE = d" "V2P data_sym = d * PGSIZE"
proof -
  obtain q where q: "data_sym = PGSIZE * q" using assms by (auto simp: data_ok_def mod_eq_0_iff_dvd dvd_def)
  then have "0x80000 \<le> q" using assms by (simp add: data_ok_def)
  then obtain d where "q = 0x80000 + d" using le_Suc_ex by blast
  then have d: "data_sym = KERNBASE + d * PGSIZE" using q by simp
  moreover have "256 < d" "d < 57344" using assms d by (simp_all add: data_ok_def)
  moreover have "(data_sym - KERNBASE) div PGSIZE = d" by (simp add: d)
  moreover have "V2P data_sym = d * PGSIZE" using assms by (subst V2P_kernel) (auto simp: data_ok_def d)
  ultimately show ?thesis by (rule that)
qed

lemma kmap_regions:
  assumes "data_ok data_sym"
  shows "list_all2 region_of (kmap data_sym) (kernel_regions data_sym)" "regions_free (\<lambda>_. None) (kernel_regions data_sym)"
proof -
  obtain d where d: "data_sym = KERNBASE + d * PGSIZE" "256 < d" "d < 57344" "(data_sym - KERNBASE) div PGSIZE = d" "V2P data_sym = d * PGSIZE"
    by (rule data_pages [OF assms])
  have v: "V2P 0x80100000 = EXTMEM" by (simp add: V2P_def)
  have le: "d - 256 \<le> 524032" "d * PGSIZE + (57344 - d) * PGSIZE = PHYSTOP" using d(3) by simp_all
  have r1: "region_of (KERNBASE, 0, EXTMEM, PTE_W) (0x80000, 0, 256, PTE_W)" by (simp add: region_of_def)
  have "(d * PGSIZE + 2 ^ 32 - EXTMEM) mod 2 ^ 32 = (d - 256) * PGSIZE"
  proof -
    have "d * PGSIZE + 2 ^ 32 - EXTMEM = (d - 256) * PGSIZE + 2 ^ 32" "(d - 256) * PGSIZE < 2 ^ 32" using d(2,3) by simp_all
    then show ?thesis by (simp only: mod_add_self2 mod_less)
  qed
  then have r2: "region_of (KERNBASE + EXTMEM, V2P (KERNBASE + EXTMEM), V2P data_sym, 0) (0x80100, EXTMEM, d - 256, 0)"
    using d le(1) by (simp add: region_of_def v)
  have "(PHYSTOP + 2 ^ 32 - d * PGSIZE) mod 2 ^ 32 = (57344 - d) * PGSIZE"
  proof -
    have "PHYSTOP + 2 ^ 32 - d * PGSIZE = (57344 - d) * PGSIZE + 2 ^ 32" "(57344 - d) * PGSIZE < 2 ^ 32" using d(2,3) by simp_all
    then show ?thesis by (simp only: mod_add_self2 mod_less)
  qed
  then have r3: "region_of (data_sym, V2P data_sym, PHYSTOP, PTE_W) (0x80000 + d, d * PGSIZE, 57344 - d, PTE_W)"
    using d le(2) by (simp add: region_of_def)
  have r4: "region_of (DEVSPACE, DEVSPACE, 0, PTE_W) (0xFE000, DEVSPACE, 8192, PTE_W)" by (simp add: region_of_def)
  show "list_all2 region_of (kmap data_sym) (kernel_regions data_sym)"
    unfolding kmap_def kernel_regions_def Let_def d(4) using r1 r2 r3 r4 by simp
  show "regions_free (\<lambda>_. None) (kernel_regions data_sym)"
    unfolding kernel_regions_def Let_def d(4) using d(2,3) by (auto simp: map_range_def)
qed

lemma kernel_entries_below: "v < UPAGES \<Longrightarrow> kernel_entries data_sym v = None"
  by (simp add: kernel_entries_def map_regions_def kernel_regions_def Let_def map_range_below)

lemma kalloc_wp:
  assumes "kmem_inv s fl"
  shows "wp kalloc (\<lambda>p t. \<exists>fl'. kmem_inv t fl' \<and> mem_only s t \<and> km_mem t = km_mem s \<and>
    (if p = 0 then fl = [] \<and> fl' = [] else fl = p # fl' \<and> page_ok (km_end s) p \<and> p \<notin> set fl')) s"
proof (cases fl)
  case Nil
  then show ?thesis using kalloc_empty [of s] assms by (auto simp: wp_iff)
next
  case (Cons x xs)
  then show ?thesis using kalloc_Cons [of s x xs] assms by (auto simp: wp_iff kmem_inv_def page_ok_def)
qed

text \<open>A zeroed page is an empty directory.\<close>

lemma empty_dir:
  assumes "kmem_inv s fl" "page_ok (km_end s) p" "p \<notin> set fl"
  defines "t \<equiv> s\<lparr>km_mem := mem_set p 0 PGSIZE (km_mem s)\<rparr>"
  shows "vm_pre t fl p" "entries t p = (\<lambda>_. None)" "dirs (km_mem t) p = {p}" "only_in {p} (km_mem s) (km_mem t)"
proof -
  have no: "\<not> has_tab (km_mem t) p i" for i by (simp add: has_tab_def pde_def t_def read_zeros)
  then show "entries t p = (\<lambda>_. None)" "dirs (km_mem t) p = {p}" by (simp_all add: pt_entry_def dirs_def fun_eq_iff)
  show only: "only_in {p} (km_mem s) (km_mem t)" unfolding t_def using only_in_set [OF page_ok_aligned [OF assms(2)]] by simp
  have "kmem_inv t fl"
  proof (rule kmem_inv_cong [OF assms(1)])
    show "\<forall>x \<in> set fl. agree_on x PGSIZE (km_mem s) (km_mem t)"
      using assms(1,3) by (auto intro!: only_in_agree [OF only] simp: kmem_inv_def page_ok_def)
  qed (simp_all add: t_def)
  then show "vm_pre t fl p" using no assms(2,3) \<open>dirs (km_mem t) p = {p}\<close> by (simp add: vm_pre_def pd_ok_def t_def)
qed

lemma vm_to_space:
  assumes "vm_to pgdir s fl t fl'" "KERNBASE < km_end s" "\<forall>v < UPAGES. entries t pgdir v = None"
  shows "space t fl' pgdir" "owned t pgdir = dirs (km_mem t) pgdir"
proof -
  have "frames (entries t pgdir) = {}" "frames_ok (km_end t) (entries t pgdir)" using assms(3) by (auto simp: in_frames intro: frames_okI)
  then show "space t fl' pgdir" "owned t pgdir = dirs (km_mem t) pgdir"
    using assms(1,2) vm_to_end [OF assms(1)] by (simp_all add: space_def vm_to_def owned_def)
qed

lemma card_dirs: "finite (dirs m pgdir) \<and> card (dirs m pgdir) \<le> 1025"
proof -
  have sub: "dirs m pgdir \<subseteq> insert pgdir (tab m pgdir ` {..<1024})" by (auto simp: dirs_def has_tab_def)
  have "card (insert pgdir (tab m pgdir ` {..<1024})) \<le> Suc (card (tab m pgdir ` {..<1024}))" by (rule card_insert_le_m1) simp_all
  also have "\<dots> \<le> Suc 1024" using card_image_le [of "{..<1024 :: nat}" "tab m pgdir"] by simp
  finally show ?thesis using card_mono [OF _ sub] finite_subset [OF sub] by simp
qed

text \<open>\<open>setupkvm\<close> makes an address space with exactly the kernel's mappings, or returns 0 with all pages free again, which it does only
  when there are not enough of them.\<close>

lemma setupkvm_wp:
  assumes inv: "kmem_inv s fl" and top: "KERNBASE < km_end s" and data: "data_ok data_sym"
  shows "wp (setupkvm data_sym) (\<lambda>d t. \<exists>fl'. kmem_inv t fl' \<and> mem_only s t \<and> only_in (set fl) (km_mem s) (km_mem t) \<and>
    (if d = 0 then set fl' = set fl \<and> length fl \<le> 1025
     else space t fl' d \<and> entries t d = kernel_entries data_sym \<and> owned t d \<union> set fl' = set fl)) s"
  unfolding setupkvm_def wp_kbind
proof (rule wp_mono [OF kalloc_wp [OF inv]], elim exE conjE, goal_cases)
  case (1 p t fl1)
  show ?case
  proof (cases "p = 0")
    case True
    then show ?thesis using 1 by auto
  next
    case False
    then have fl: "fl = p # fl1" and p: "page_ok (km_end t) p" "p \<notin> set fl1" using 1 mem_only_end [OF 1(2)] by auto
    let ?u = "t\<lparr>km_mem := mem_set p 0 PGSIZE (km_mem t)\<rparr>"
    note ed = empty_dir [OF 1(1) p]
    note sel = ed(2,3) [simplified]
    have "regions_free (entries ?u p) (kernel_regions data_sym)" unfolding ed(2) by (rule kmap_regions(2) [OF data])
    note loop = setupkvm_loop_wp [OF ed(1) kmap_regions(1) [OF data] this]
    have mu: "mem_only s ?u" using mem_only_trans [OF 1(2)] by simp
    then have topu: "KERNBASE < km_end ?u" using top mem_only_end by metis
    have "\<not> P2V PHYSTOP > DEVSPACE" by (simp add: P2V_def)
    moreover have "wp (setupkvm_loop p (kmap data_sym)) (\<lambda>ok. wp (if ok then kreturn p else kseq (freevm p) (kreturn 0)) (\<lambda>d w.
      \<exists>fl'. kmem_inv w fl' \<and> mem_only s w \<and> only_in (set fl) (km_mem s) (km_mem w) \<and> (if d = 0 then set fl' = set fl \<and> length fl \<le> 1025
        else space w fl' d \<and> entries w d = kernel_entries data_sym \<and> owned w d \<union> set fl' = set fl))) ?u"
    proof (rule wp_mono [OF loop], elim exE conjE, goal_cases)
      case (1 ok w fl2)
      have none: "\<forall>v < UPAGES. entries w p v = None" using 1(3) sel by simp
      note sp = vm_to_space [OF 1(1) topu none]
      have mw: "mem_only s w" using mem_only_trans [OF mu] 1(1) by (simp add: vm_to_def)
      have "only_in (insert p (set fl1)) (km_mem t) (km_mem w)"
        using 1(1) by (intro only_in_trans [OF ed(4)]) (auto simp: vm_to_def sel)
      then have ow: "only_in (set fl) (km_mem s) (km_mem w)" using fl \<open>km_mem t = km_mem s\<close> by simp
      have own: "owned w p \<union> set fl2 = set fl" using 1(1) sp(2) fl by (simp add: vm_to_def sel)
      have iw: "kmem_inv w fl2" using 1(1) by (simp add: vm_to_def vm_pre_def)
      show ?case
      proof (cases ok)
        case True
        then show ?thesis using 1(2) sp(1) mw ow own iw False by (auto simp: kernel_entries_def sel)
      next
        case notok: False
        have "set fl = dirs (km_mem w) p" using own 1(4) notok sp(2) by simp
        moreover have "distinct fl" using inv by (simp add: kmem_inv_def)
        ultimately have len: "length fl \<le> 1025" using card_dirs [of "km_mem w" p] by (simp flip: distinct_card)
        from freevm_wp [OF sp(1)] show ?thesis unfolding if_not_P [OF notok] wp_kseq wp_kreturn own
          by (rule wp_mono) (use mem_only_trans [OF mw] only_in_trans [OF ow] len in auto)
      qed
    qed
    ultimately show ?thesis using False by (simp add: zero_page_def)
  qed
qed

end
