(* ===== verification/VmCopy.thy ===== *)
theory VmCopy
  imports VmSpace
begin

text \<open>
  User memory, \<^verbatim>\<open>vm.c\<close>: growing it by \<open>allocuvm\<close> and copying it for \<open>fork\<close> by \<open>copyuvm\<close>.  New pages come from the free list; when memory
  runs out the pages go back to it.  A copy has the same contents and permissions in pages of its own.
\<close>

section \<open>Entering one page\<close>

lemma map_frame_wp:
  assumes sp: "space s fl pgdir" and p: "page_ok (km_end s) p" "p \<notin> set fl" "p \<notin> owned s pgdir"
    and v: "v < UPAGES" "entries s pgdir v = None" and perm: "perm < PGSIZE"
  shows "wp (mappages pgdir (v * PGSIZE) PGSIZE (V2P p) perm) (\<lambda>r t. \<exists>fl'. space t fl' pgdir \<and> mem_only s t \<and>
    only_in (dirs (km_mem s) pgdir \<union> set fl) (km_mem s) (km_mem t) \<and> dirs (km_mem t) pgdir \<union> set fl' = dirs (km_mem s) pgdir \<union> set fl \<and>
    set fl' \<subseteq> set fl \<and>
    (if r < 0 then entries t pgdir = entries s pgdir \<and> fl' = []
     else entries t pgdir = (entries s pgdir)(v \<mapsto> V2P p OR perm OR PTE_P))) s"
proof -
  have top: "KERNBASE \<le> km_end s" by (rule space_top [OF sp])
  have "V2P p < PHYSTOP" using p(1) by (simp add: page_ok_def)
  then have "wp (mappages pgdir (v * PGSIZE) (Suc 0 * PGSIZE) (V2P p) perm) (\<lambda>r t. \<exists>fl' j. vm_to pgdir s fl t fl' \<and>
    entries t pgdir = map_range (entries s pgdir) (v * PGSIZE div PGSIZE) (V2P p) perm j \<and>
    (r = 0 \<and> j = Suc 0 \<or> r = -1 \<and> j \<le> 0 \<and> fl' = [])) s"
    using v perm by (intro mappages_wp [OF space_pre [OF sp]]) auto
  then show ?thesis unfolding mult_1 One_nat_def [symmetric]
  proof (rule wp_mono, elim exE conjE, goal_cases)
    case (1 r t fl' j)
    have mo: "mem_only s t" and dj: "dirs (km_mem t) pgdir \<union> set fl' = dirs (km_mem s) pgdir \<union> set fl" and pre: "vm_pre t fl' pgdir"
      using 1(2) by (simp_all add: vm_to_def)
    have e: "entries t pgdir = (if r < 0 then entries s pgdir else (entries s pgdir)(v \<mapsto> V2P p OR perm OR PTE_P))"
      using 1(3,4) by (auto simp: map_range_Suc)
    have fr: "frame (V2P p OR perm OR PTE_P) = p" using frame_entry [OF p(1) top perm] by simp
    have ok: "frames_ok (km_end s) (entries s pgdir)" "p \<notin> frames (entries s pgdir)" "p \<notin> dirs (km_mem s) pgdir"
      "frames (entries s pgdir) \<inter> (dirs (km_mem s) pgdir \<union> set fl) = {}" "KERNBASE < km_end s"
      using sp p(3) by (auto simp: space_def owned_def)
    have "frames_ok (km_end t) (entries t pgdir)"
      using ok frames_ok_update [OF ok(1), of "V2P p OR perm OR PTE_P" v] p(1) fr unfolding e mem_only_end [OF mo] by simp
    moreover have "frames (entries t pgdir) \<subseteq> insert p (frames (entries s pgdir))"
      using frames_update [of v "entries s pgdir" "V2P p OR perm OR PTE_P"] v fr unfolding e by auto
    ultimately have "space t fl' pgdir" using ok p(2) pre dj unfolding space_def mem_only_end [OF mo] by auto
    then show ?case using 1(2,4) e mo dj by (intro exI [of _ fl']) (auto simp: vm_to_def)
  qed
qed

text \<open>Filling a page that nobody owns.\<close>

lemma space_write_free:
  assumes sp: "space s fl pgdir" and p: "p \<notin> set fl" "p \<notin> dirs (km_mem s) pgdir" and only: "only_in {p} (km_mem s) m"
  defines "t \<equiv> s\<lparr>km_mem := m\<rparr>"
  shows "space t fl pgdir" "entries t pgdir = entries s pgdir" "dirs (km_mem t) pgdir = dirs (km_mem s) pgdir"
proof -
  have pd: "pd_ok (km_end s) (km_mem s) pgdir" and inv: "kmem_inv s fl" using sp by (simp_all add: space_def vm_pre_def)
  have agree: "agree_on q PGSIZE (km_mem s) m" if "q \<in> dirs (km_mem s) pgdir" for q
    using that p(2) dirs_page_ok [OF pd that] by (intro only_in_agree [OF only] page_ok_aligned) auto
  note c = dirs_cong [OF pd agree]
  then show "entries t pgdir = entries s pgdir" "dirs (km_mem t) pgdir = dirs (km_mem s) pgdir" by (simp_all add: t_def)
  have "kmem_inv t fl"
  proof (rule kmem_inv_cong [OF inv])
    show "\<forall>x \<in> set fl. agree_on x PGSIZE (km_mem s) (km_mem t)"
      using inv p(1) by (auto simp: t_def kmem_inv_def page_ok_def intro!: only_in_agree [OF only])
  qed (simp_all add: t_def)
  then show "space t fl pgdir" using sp c(4,5,6) by (simp add: space_def vm_pre_def t_def)
qed

lemma space_tail: "space s (p # fl) pgdir \<Longrightarrow> kmem_inv t fl \<Longrightarrow> km_mem t = km_mem s \<Longrightarrow> mem_only s t \<Longrightarrow> space t fl pgdir"
  by (auto simp: space_def vm_pre_def mem_only_end)

text \<open>What holds after a free page \<open>p\<close> has been taken, filled with \<open>g\<close>, and \<open>mappages\<close> has returned \<open>r\<close>.\<close>

definition page_added ::
  "nat \<Rightarrow> (memory \<Rightarrow> memory) \<Rightarrow> nat \<Rightarrow> nat \<Rightarrow> nat \<Rightarrow> int \<Rightarrow> 'a kmem_state_scheme \<Rightarrow> nat list \<Rightarrow> 'a kmem_state_scheme \<Rightarrow> nat list \<Rightarrow> bool" where
  "page_added d g v perm p r s fl t fl' \<longleftrightarrow> space t fl' d \<and> mem_only s t \<and> page_ok (km_end t) p \<and> p \<in> set fl \<and> p \<noteq> 0 \<and>
     p \<notin> set fl' \<and> p \<notin> dirs (km_mem t) d \<and> insert p (dirs (km_mem t) d \<union> set fl') = dirs (km_mem s) d \<union> set fl \<and> set fl' \<subseteq> set fl \<and>
     only_in (dirs (km_mem s) d \<union> set fl) (km_mem s) (km_mem t) \<and> mem_read p PGSIZE (km_mem t) = mem_read p PGSIZE (g (km_mem s)) \<and>
     (if r < 0 then entries t d = entries s d \<and> p \<notin> frames (entries t d) \<and> fl' = []
      else entries t d = (entries s d)(v \<mapsto> V2P p OR perm OR PTE_P))"

lemma new_page_wp:
  assumes sp: "space s fl d" and v: "v < UPAGES" "entries s d v = None" and perm: "perm < PGSIZE"
    and g: "\<And>p m. page_ok (km_end s) p \<Longrightarrow> only_in {p} m (g p m)"
    and none: "fl = [] \<Longrightarrow> wp F Q s"
    and more: "\<And>p r t fl'. page_added d (g p) v perm p r s fl t fl' \<Longrightarrow> wp (K p r) Q t"
  shows "wp (kbind kalloc (\<lambda>p. if p = 0 then F else kseq (kmodify (\<lambda>s. s\<lparr>km_mem := g p (km_mem s)\<rparr>))
    (kbind (mappages d (v * PGSIZE) PGSIZE (V2P p) perm) (K p)))) Q s"
proof (cases fl)
  case Nil
  then have "kalloc s = Done 0 s" using sp kalloc_empty by (auto simp: space_def vm_pre_def)
  then show ?thesis using none [OF Nil] by (simp add: wp_iff)
next
  case (Cons p fl1)
  have inv: "kmem_inv s (p # fl1)" using sp Cons by (simp add: space_def vm_pre_def)
  then obtain s1 where s1: "kalloc s = Done p s1" "kmem_inv s1 fl1" "km_mem s1 = km_mem s" "mem_only s s1"
    using kalloc_Cons by fastforce
  have p: "page_ok (km_end s) p" "p \<notin> set fl1" "p \<noteq> 0" using inv by (auto simp: kmem_inv_def page_ok_def)
  have dis: "p \<notin> dirs (km_mem s) d" "p \<notin> frames (entries s d)" using sp Cons by (auto simp: space_def vm_pre_def)
  have sp1: "space s1 fl1 d" using space_tail [OF _ s1(2,3,4)] sp Cons by simp
  let ?s2 = "s1\<lparr>km_mem := g p (km_mem s1)\<rparr>"
  have only: "only_in {p} (km_mem s1) (g p (km_mem s1))" by (rule g [OF p(1)])
  note w = space_write_free [OF sp1 p(2) _ only, simplified s1(3), OF dis(1)]
  have e: "km_end ?s2 = km_end s" using mem_only_end [OF s1(4)] by simp
  have "wp (mappages d (v * PGSIZE) PGSIZE (V2P p) perm) (\<lambda>r t. \<exists>fl'. space t fl' d \<and> mem_only ?s2 t \<and>
    only_in (dirs (km_mem ?s2) d \<union> set fl1) (km_mem ?s2) (km_mem t) \<and> dirs (km_mem t) d \<union> set fl' = dirs (km_mem ?s2) d \<union> set fl1 \<and>
    set fl' \<subseteq> set fl1 \<and>
    (if r < 0 then entries t d = entries ?s2 d \<and> fl' = []
     else entries t d = (entries ?s2 d)(v \<mapsto> V2P p OR perm OR PTE_P))) ?s2"
    using p dis v perm w s1(3) by (intro map_frame_wp) (simp_all add: owned_def e [simplified])
  then have "wp (mappages d (v * PGSIZE) PGSIZE (V2P p) perm) (\<lambda>r. wp (K p r) Q) ?s2"
  proof (rule wp_mono, elim exE conjE, goal_cases)
    case (1 r t fl')
    have ds: "dirs (km_mem ?s2) d = dirs (km_mem s) d" "entries ?s2 d = entries s d" using w(2,3) s1(3) by simp_all
    have mo: "mem_only s t" by (rule mem_only_trans [OF mem_only_trans [OF s1(4) mem_only_update(1)] 1(3)])
    have pn: "p \<notin> dirs (km_mem t) d \<union> set fl'" using 1(5) dis(1) p(2) ds(1) by simp
    have "agree_on p PGSIZE (km_mem ?s2) (km_mem t)"
      using p(1,2) dis(1) ds(1) by (intro only_in_agree [OF 1(4)] page_ok_aligned) auto
    then have "mem_read p PGSIZE (km_mem t) = mem_read p PGSIZE (g p (km_mem s))" using mem_read_cong s1(3) by fastforce
    moreover have "only_in (dirs (km_mem s) d \<union> set fl) (km_mem s) (km_mem t)"
      using only ds(1) s1(3) Cons by (intro only_in_trans [OF _ 1(4)]) auto
    ultimately have "page_added d (g p) v perm p r s fl t fl'"
      using 1 ds mo pn p dis Cons unfolding page_added_def mem_only_end [OF mo] by auto
    then show ?case by (rule more)
  qed
  then show ?thesis unfolding wp_kbind by (intro wpI [of kalloc, OF s1(1)]) (use p(3) in simp)
qed

section \<open>Copying user memory\<close>

text \<open>An address space whose pages are outside \<open>A\<close>, as seen by operations that only touch \<open>A\<close>.\<close>

definition apart :: "nat \<Rightarrow> nat set \<Rightarrow> memory \<Rightarrow> nat \<Rightarrow> bool" where
  "apart e A m pgdir \<longleftrightarrow> pd_ok e m pgdir \<and> frames_ok e (pt_entry m pgdir) \<and> dirs m pgdir \<inter> A = {} \<and> frames (pt_entry m pgdir) \<inter> A = {}"

lemma apart_keep:
  assumes "apart e A m pgdir" "only_in A m m'"
  shows "pt_entry m' pgdir = pt_entry m pgdir" "dirs m' pgdir = dirs m pgdir" "apart e A m' pgdir"
    "p \<in> frames (pt_entry m pgdir) \<Longrightarrow> mem_read p PGSIZE m' = mem_read p PGSIZE m"
proof -
  have pd: "pd_ok e m pgdir" using assms(1) by (simp add: apart_def)
  have "agree_on q PGSIZE m m'" if "q \<in> dirs m pgdir" for q
    using that assms(1) dirs_page_ok [OF pd that] by (intro only_in_agree [OF assms(2)] page_ok_aligned) (auto simp: apart_def)
  note c = dirs_cong [OF pd this]
  show "pt_entry m' pgdir = pt_entry m pgdir" "dirs m' pgdir = dirs m pgdir" using c(4,5) by simp_all
  then show "apart e A m' pgdir" using assms(1) c(6) by (simp add: apart_def)
  assume p: "p \<in> frames (pt_entry m pgdir)"
  then have "p \<notin> A" using assms(1) by (auto simp: apart_def)
  moreover have "page_ok e p" using p assms(1) by (auto simp: apart_def in_frames dest: frames_okD)
  ultimately show "mem_read p PGSIZE m' = mem_read p PGSIZE m"
    using mem_read_cong [OF only_in_agree [OF assms(2)]] page_ok_aligned by metis
qed

lemma apart_mono: "apart e A m pgdir \<Longrightarrow> B \<subseteq> A \<Longrightarrow> apart e B m pgdir"
  by (auto simp: apart_def)

text \<open>The entry \<open>y\<close> in the memory \<open>m'\<close> is a copy, in a page of \<open>P\<close>, of the entry \<open>x\<close> in the memory \<open>m\<close>.\<close>

definition copy_of :: "nat set \<Rightarrow> memory \<Rightarrow> nat \<Rightarrow> memory \<Rightarrow> nat \<Rightarrow> bool" where
  "copy_of P m x m' y \<longleftrightarrow> frame y \<in> P \<and> PTE_FLAGS y = PTE_FLAGS x \<and> mem_read (frame y) PGSIZE m' = mem_read (frame x) PGSIZE m"

lemma odd_or_1: "odd n \<Longrightarrow> n OR 1 = (n :: nat)"
  by (rule bit_eqI) (auto simp: bit_simps bit_0)

lemma present_flags: "present x \<Longrightarrow> odd (PTE_FLAGS x)"
proof -
  assume "present x"
  then have "x mod 2 = 1" by (simp add: present_iff odd_iff_mod_2_eq_one)
  moreover have "x mod PGSIZE mod 2 = x mod 2" by (rule mod_mod_cancel) simp
  ultimately show ?thesis by (simp add: PTE_FLAGS_def odd_iff_mod_2_eq_one)
qed

lemma pt_entry_present: "pt_entry m pgdir v = Some x \<Longrightarrow> present x \<and> has_tab m pgdir (v div 1024) \<and>
    x = read_u32 (tab m pgdir (v div 1024) + 4 * (v mod 1024)) m"
  by (simp add: pt_entry_def pte_of_def split: if_splits)

abbreviation copy_range :: "nat \<Rightarrow> nat \<Rightarrow> nat \<Rightarrow> bool" where
  "copy_range i sz v \<equiv> i div PGSIZE \<le> v \<and> v * PGSIZE < sz"

lemma copy_page_added:
  assumes add: "page_added d (\<lambda>m. mem_write p (mem_read (frame x) PGSIZE m) m) v (PTE_FLAGS x) p r s fl t fl'"
    and r: "\<not> r < 0" and x: "present x" and top: "KERNBASE \<le> km_end s" and v: "v < UPAGES" "entries s d v = None"
  defines "y \<equiv> V2P p OR PTE_FLAGS x OR PTE_P"
  shows "copy_of (set fl) (km_mem s) x (km_mem t) y" "frame y = p" "entries t d = (entries s d)(v \<mapsto> y)"
    "owned t d \<union> set fl' = owned s d \<union> set fl"
proof -
  have p: "page_ok (km_end t) p" "p \<in> set fl" and mo: "mem_only s t" using add by (simp_all add: page_added_def)
  have "PTE_FLAGS x < PGSIZE" by (simp add: PTE_FLAGS_def)
  note f = frame_entry [OF p(1)[unfolded mem_only_end [OF mo]] top this, folded y_def]
  show "frame y = p" by (rule f(1))
  have "mem_read p PGSIZE (km_mem t) = mem_read (frame x) PGSIZE (km_mem s)" using add by (simp add: page_added_def)
  then show "copy_of (set fl) (km_mem s) x (km_mem t) y"
    using f p(2) odd_or_1 [OF present_flags [OF x]] by (simp add: copy_of_def)
  show e: "entries t d = (entries s d)(v \<mapsto> y)" using add r by (simp add: page_added_def y_def)
  have "frames (entries t d) = insert p (frames (entries s d))" unfolding e using frames_update [of v "entries s d" y] v f(1) by simp
  then show "owned t d \<union> set fl' = owned s d \<union> set fl" using add by (auto simp: owned_def page_added_def)
qed

text \<open>Giving back a page that no entry uses.\<close>

lemma space_kfree:
  assumes sp: "space s fl d" and p: "page_ok (km_end s) p" "p \<notin> set fl" "p \<notin> dirs (km_mem s) d" "p \<notin> frames (entries s d)"
  shows "wp (kfree p) (\<lambda>_ t. space t (p # fl) d \<and> mem_only s t \<and> only_in {p} (km_mem s) (km_mem t) \<and>
    entries t d = entries s d \<and> owned t d = owned s d) s"
proof -
  have inv: "kmem_inv s fl" using sp by (simp add: space_def vm_pre_def)
  from kfree_wp [OF inv p(1,2)] show ?thesis
  proof (rule wp_mono, elim conjE, goal_cases)
    case (1 r t)
    note w = space_write_free [OF sp p(2,3) 1(4), simplified]
    have "space t (p # fl) d" using w p(3,4) 1(2) sp unfolding space_def vm_pre_def mem_only_end [OF 1(3)] by auto
    then show ?case using 1 w by (simp add: owned_def)
  qed
qed

text \<open>The result of the loop of \<open>copyuvm\<close> from the address \<open>i\<close> on.\<close>

definition copy_post ::
  "nat \<Rightarrow> nat \<Rightarrow> nat \<Rightarrow> nat \<Rightarrow> 'a kmem_state_scheme \<Rightarrow> nat list \<Rightarrow> bool \<Rightarrow> 'a kmem_state_scheme \<Rightarrow> bool" where
  "copy_post pgdir d sz i s fl ok t \<longleftrightarrow> (\<exists>fl'. space t fl' d \<and> mem_only s t \<and>
     only_in (dirs (km_mem s) d \<union> set fl) (km_mem s) (km_mem t) \<and> owned t d \<union> set fl' = owned s d \<union> set fl \<and>
     (\<forall>v. \<not> copy_range i sz v \<longrightarrow> entries t d v = entries s d v) \<and> (\<not> ok \<longrightarrow> length fl' \<le> 1) \<and>
     (ok \<longrightarrow> (\<forall>v. copy_range i sz v \<longrightarrow> (\<exists>x y. entries s pgdir v = Some x \<and> entries t d v = Some y \<and>
        copy_of (set fl) (km_mem s) x (km_mem t) y))))"

lemma copy_post_stop: "space s [] d \<Longrightarrow> fl = [] \<Longrightarrow> copy_post pgdir d sz i s fl False s"
  by (auto simp: copy_post_def)

lemma copy_fail:
  assumes "page_added d g v perm p r s fl t fl'" "r < 0"
  shows "wp (kseq (kfree p) (kreturn False)) (copy_post pgdir d sz i s fl) t"
proof -
  have t: "space t fl' d" "mem_only s t" "page_ok (km_end t) p" "p \<in> set fl" "p \<notin> set fl'" "p \<notin> dirs (km_mem t) d"
    "insert p (dirs (km_mem t) d \<union> set fl') = dirs (km_mem s) d \<union> set fl" "entries t d = entries s d" "p \<notin> frames (entries t d)"
    "only_in (dirs (km_mem s) d \<union> set fl) (km_mem s) (km_mem t)" "fl' = []"
    using assms unfolding page_added_def if_P [OF assms(2)] by blast+
  show ?thesis unfolding wp_kseq wp_kreturn
  proof (rule wp_mono [OF space_kfree [OF t(1,3,5,6,9)]], elim conjE, goal_cases)
    case (1 r u)
    have "mem_only s u" by (rule mem_only_trans [OF t(2) 1(2)])
    moreover have "only_in (dirs (km_mem s) d \<union> set fl) (km_mem s) (km_mem u)"
      by (rule only_in_trans [OF t(10) 1(3)]) (use t(4) in auto)
    moreover have "owned u d \<union> set (p # fl') = owned s d \<union> set fl" using t(7,8) 1(5) by (auto simp: owned_def)
    ultimately show ?case using 1(1,4) t(8,11) unfolding copy_post_def by (intro exI [of _ "p # fl'"]) simp
  qed
qed

lemma next_page: "(i + PGSIZE) div PGSIZE = Suc (i div PGSIZE)"
  by simp

lemma copy_range_next: "\<not> copy_range (i + PGSIZE) sz (i div PGSIZE)"
  unfolding next_page by simp

lemma copy_range_step:
  assumes "i mod PGSIZE = 0" "i < sz"
  shows "copy_range i sz v \<longleftrightarrow> v = i div PGSIZE \<or> copy_range (i + PGSIZE) sz v"
  using assms by auto

lemma copy_step:
  assumes add: "page_added d (\<lambda>m. mem_write p (mem_read (frame x) PGSIZE m) m) v (PTE_FLAGS x) p r s fl t fl'"
    and r: "\<not> r < 0" and x: "entries s pgdir v = Some x" and v: "v < UPAGES" "entries s d v = None" "v = i div PGSIZE"
    and i: "i mod PGSIZE = 0" "i < sz" and top: "KERNBASE \<le> km_end s"
    and ap: "apart (km_end s) (dirs (km_mem s) d \<union> set fl) (km_mem s) pgdir" and sz: "sz \<le> KERNBASE"
    and post: "copy_post pgdir d sz (i + PGSIZE) t fl' ok u"
  shows "copy_post pgdir d sz i s fl ok u"
proof -
  have pr: "present x" using pt_entry_present [OF x] by blast
  define y where "y = V2P p OR PTE_FLAGS x OR PTE_P"
  note c = copy_page_added [OF add r pr top v(1,2), folded y_def]
  have t: "mem_only s t" "set fl' \<subseteq> set fl" "dirs (km_mem t) d \<union> set fl' \<subseteq> dirs (km_mem s) d \<union> set fl"
    "only_in (dirs (km_mem s) d \<union> set fl) (km_mem s) (km_mem t)" "p \<notin> dirs (km_mem t) d \<union> set fl'" "page_ok (km_end t) p"
    using add by (auto simp: page_added_def)
  obtain fl'' where u: "space u fl'' d" "mem_only t u" "only_in (dirs (km_mem t) d \<union> set fl') (km_mem t) (km_mem u)"
    "owned u d \<union> set fl'' = owned t d \<union> set fl'" "\<And>v. \<not> copy_range (i + PGSIZE) sz v \<Longrightarrow> entries u d v = entries t d v" "\<not> ok \<longrightarrow> length fl'' \<le> 1"
    "\<And>v. ok \<Longrightarrow> copy_range (i + PGSIZE) sz v \<Longrightarrow> \<exists>x y. entries t pgdir v = Some x \<and> entries u d v = Some y \<and>
       copy_of (set fl') (km_mem t) x (km_mem u) y"
    using post unfolding copy_post_def by blast
  note keep = apart_keep [OF ap t(4)]
  have nr: "\<not> copy_range (i + PGSIZE) sz v" unfolding v(3) by (rule copy_range_next)
  have "mem_read p PGSIZE (km_mem u) = mem_read p PGSIZE (km_mem t)"
    using mem_read_cong [OF only_in_agree [OF u(3) page_ok_aligned [OF t(6)] t(5)]] by simp
  then have cy: "copy_of (set fl) (km_mem s) x (km_mem u) y" using c(1,2) by (simp add: copy_of_def)
  have copies: "\<exists>x y. entries s pgdir w = Some x \<and> entries u d w = Some y \<and> copy_of (set fl) (km_mem s) x (km_mem u) y"
    if ok "copy_range i sz w" for w
  proof (cases "w = v")
    case True
    then show ?thesis using x u(5) [OF nr] c(3) cy by auto
  next
    case False
    then have "copy_range (i + PGSIZE) sz w" using that(2) copy_range_step [OF i] v(3) by simp
    from u(7) [OF that(1) this] obtain x' y' where w: "entries s pgdir w = Some x'" "entries u d w = Some y'"
      "copy_of (set fl') (km_mem t) x' (km_mem u) y'" using keep(1) by auto
    have "w < UPAGES" using that(2) sz by linarith
    then have "frame x' \<in> frames (entries s pgdir)" using w(1) by (auto simp: in_frames)
    then have "copy_of (set fl) (km_mem s) x' (km_mem u) y'" using w(3) keep(4) t(2) by (auto simp: copy_of_def)
    then show ?thesis using w by blast
  qed
  have "mem_only s u" by (rule mem_only_trans [OF t(1) u(2)])
  moreover have "only_in (dirs (km_mem s) d \<union> set fl) (km_mem s) (km_mem u)" by (rule only_in_trans [OF t(4) u(3) subset_refl t(3)])
  moreover have "owned u d \<union> set fl'' = owned s d \<union> set fl" using u(4) c(4) by simp
  moreover have "entries u d w = entries s d w" if "\<not> copy_range i sz w" for w
  proof -
    have "\<not> copy_range (i + PGSIZE) sz w" "w \<noteq> v" using that copy_range_step [OF i, of w] v(3) by blast+
    then show ?thesis using u(5) c(3) by simp
  qed
  ultimately show ?thesis using u(1,6) copies unfolding copy_post_def by blast
qed

lemma copyuvm_loop_wp:
  assumes "space s fl d" "i mod PGSIZE = 0" "sz \<le> KERNBASE"
    and "apart (km_end s) (dirs (km_mem s) d \<union> set fl) (km_mem s) pgdir"
    and "\<forall>v. copy_range i sz v \<longrightarrow> entries s d v = None \<and> entries s pgdir v \<noteq> None"
  shows "wp (copyuvm_loop pgdir d sz i) (copy_post pgdir d sz i s fl) s"
  using assms
proof (induction "sz - i" arbitrary: s fl i rule: less_induct)
  case less
  show ?case
  proof (cases "i < sz")
    case False
    have "\<not> copy_range i sz v" for v
    proof
      assume c: "copy_range i sz v"
      then have "i div PGSIZE * PGSIZE \<le> v * PGSIZE" by (intro mult_le_mono1) simp
      then show False using c False less.prems(2) by auto
    qed
    then show ?thesis using False less.prems(1) by (subst copyuvm_loop.simps) (auto simp: copy_post_def)
  next
    case True
    let ?v = "i div PGSIZE"
    have iv: "?v * PGSIZE = i" "i < 2 ^ 32" "?v < UPAGES" using True less.prems(2,3) by auto
    then have "copy_range i sz ?v" using True by simp
    then obtain x where x: "entries s pgdir ?v = Some x" and none: "entries s d ?v = None" using less.prems(5) by blast
    note pr = pt_entry_present [OF x]
    have top: "KERNBASE \<le> km_end s" by (rule space_top [OF less.prems(1)])
    have "pd_ok (km_end s) (km_mem s) pgdir" using less.prems(4) by (simp add: apart_def)
    then have nz: "tab (km_mem s) pgdir (?v div 1024) \<noteq> 0" using tab_nz top pr by blast
    have body: "wp (kbind kalloc (\<lambda>mem. if mem = 0 then kreturn False else
        kseq (kmodify (\<lambda>s. s\<lparr>km_mem := mem_write mem (mem_read (frame x) PGSIZE (km_mem s)) (km_mem s)\<rparr>))
          (kbind (mappages d (?v * PGSIZE) PGSIZE (V2P mem) (PTE_FLAGS x)) (\<lambda>r.
            if r < 0 then kseq (kfree mem) (kreturn False) else copyuvm_loop pgdir d sz (i + PGSIZE)))))
      (copy_post pgdir d sz i s fl) s"
    proof (rule new_page_wp [OF less.prems(1) iv(3) none])
      show "PTE_FLAGS x < PGSIZE" by (simp add: PTE_FLAGS_def)
      show "only_in {p} m (mem_write p (mem_read (frame x) PGSIZE m) m)" if "page_ok (km_end s) p" for p m
        using only_in_mem_write [of p 0 "mem_read (frame x) PGSIZE m"] page_ok_aligned [OF that] by simp
    next
      assume "fl = []"
      then show "wp (kreturn False) (copy_post pgdir d sz i s fl) s" using copy_post_stop [of s d fl] less.prems(1) by simp
    next
      fix p r fl' and t :: "'a kmem_state_scheme"
      assume add: "page_added d (\<lambda>m. mem_write p (mem_read (frame x) PGSIZE m) m) ?v (PTE_FLAGS x) p r s fl t fl'"
      show "wp (if r < 0 then kseq (kfree p) (kreturn False) else copyuvm_loop pgdir d sz (i + PGSIZE)) (copy_post pgdir d sz i s fl) t"
      proof (cases "r < 0")
        case True
        then show ?thesis using copy_fail [OF add True] by simp
      next
        case r: False
        have t: "space t fl' d" "mem_only s t" "only_in (dirs (km_mem s) d \<union> set fl) (km_mem s) (km_mem t)"
          "dirs (km_mem t) d \<union> set fl' \<subseteq> dirs (km_mem s) d \<union> set fl" using add by (auto simp: page_added_def)
        note keep = apart_keep [OF less.prems(4) t(3)]
        have ent: "entries t d w = entries s d w" if "w \<noteq> ?v" for w using add r that by (simp add: page_added_def)
        have "entries t d w = None \<and> entries t pgdir w \<noteq> None" if w: "copy_range (i + PGSIZE) sz w" for w
        proof -
          have "copy_range i sz w" using w copy_range_step [OF less.prems(2) True, of w] by blast
          moreover have "w \<noteq> ?v" using w copy_range_next by metis
          ultimately show ?thesis using less.prems(5) ent keep(1) by simp
        qed
        then have "wp (copyuvm_loop pgdir d sz (i + PGSIZE)) (copy_post pgdir d sz (i + PGSIZE) t fl') t"
          using True less.prems(2,3) t(1) apart_mono [OF keep(3) t(4)] unfolding mem_only_end [OF t(2), symmetric]
          by (intro less.hyps) auto
        then show ?thesis unfolding if_not_P [OF r]
          by (rule wp_mono) (rule copy_step [OF add r x iv(3) none refl less.prems(2) True top less.prems(4,3)])
      qed
    qed
    have h: "has_tab (km_mem s) pgdir (?v div 1024)"
      and xe: "read_u32 (tab (km_mem s) pgdir (?v div 1024) + 4 * (?v mod 1024)) (km_mem s) = x" and np: "x AND PTE_P \<noteq> 0"
      using pr by (auto simp only: present_def)
    show ?thesis using True nz np body [unfolded iv(1)]
      by (subst copyuvm_loop.simps) (simp add: walk_look_wp [OF iv(2)] wp_if load_u32_def frame_def h xe cong: if_cong)
  qed
qed

lemma card_owned:
  assumes "\<And>v. v < UPAGES \<Longrightarrow> entries s d v \<noteq> None \<Longrightarrow> v * PGSIZE < sz"
  shows "finite (owned s d)" "card (owned s d) \<le> 1025 + (sz + 4095) div PGSIZE"
proof -
  let ?n = "(sz + 4095) div PGSIZE"
  have "frames (entries s d) \<subseteq> (\<lambda>v. frame (the (entries s d v))) ` {..<?n}"
  proof
    fix p assume "p \<in> frames (entries s d)"
    then obtain v x where v: "v < UPAGES" "entries s d v = Some x" "p = frame x" by (auto simp: in_frames)
    then have "v * PGSIZE < sz" using assms by simp
    then have "Suc v * PGSIZE \<le> sz + 4095" by simp
    then have "Suc v \<le> ?n" by (simp only: less_eq_div_iff_mult_less_eq)
    then have "v < ?n" by simp
    then show "p \<in> (\<lambda>v. frame (the (entries s d v))) ` {..<?n}" using v by force
  qed
  then have f: "finite (frames (entries s d))" "card (frames (entries s d)) \<le> ?n"
    using finite_subset surj_card_le [of "{..<?n}" "frames (entries s d)"] by auto
  show "finite (owned s d)" using card_dirs f(1) by (simp add: owned_def)
  show "card (owned s d) \<le> 1025 + ?n" unfolding owned_def
    using card_Un_le [of "dirs (km_mem s) d" "frames (entries s d)"] card_dirs [of "km_mem s" d] f(2) by linarith
qed

lemma space_apart: "space s fl pgdir \<Longrightarrow> apart (km_end s) (set fl) (km_mem s) pgdir"
  by (auto simp: space_def apart_def vm_pre_def)

lemma apart_owned: "apart e A (km_mem s) pgdir \<Longrightarrow> owned s pgdir \<inter> A = {}"
  by (auto simp: apart_def owned_def)

text \<open>C33: A child's memory is an equal but separate copy of its parent's.  \<open>copyuvm\<close>, which \<open>fork\<close> calls, never panics on a well-formed
  address space whose pages below \<open>sz\<close> are present.  It leaves the parent's page tables and pages untouched.  A directory it returns has the
  kernel's mappings and, for exactly the pages below \<open>sz\<close>, the parent's contents and permissions in pages that were free, so no page
  belongs to both.  It returns 0 only when at most 1026 pages more than there are to copy were free, and then every page it took is free
  again.\<close>

theorem copyuvm_isolates:
  fixes s :: "'a kmem_state_scheme"
  assumes sp: "space s fl pgdir" and data: "data_ok data_sym" and sz: "sz \<le> KERNBASE"
    and there: "\<forall>v. v * PGSIZE < sz \<longrightarrow> entries s pgdir v \<noteq> None"
  shows "wp (copyuvm data_sym pgdir sz) (\<lambda>d t. \<exists>fl'. kmem_inv t fl' \<and> only_in (set fl) (km_mem s) (km_mem t) \<and>
    entries t pgdir = entries s pgdir \<and> owned t pgdir = owned s pgdir \<and>
    (if d = 0 then set fl' = set fl \<and> length fl \<le> 1026 + (sz + 4095) div PGSIZE
     else space t fl' d \<and> owned t d \<union> set fl' = set fl \<and> owned t d \<inter> owned t pgdir = {} \<and>
       (\<forall>v. if v * PGSIZE < sz
          then \<exists>x y. entries s pgdir v = Some x \<and> entries t d v = Some y \<and> copy_of (set fl) (km_mem s) x (km_mem t) y
          else entries t d v = kernel_entries data_sym v))) s"
proof -
  have inv: "kmem_inv s fl" and top: "KERNBASE < km_end s" using sp by (simp_all add: space_def vm_pre_def)
  note ap = space_apart [OF sp]
  have par: "entries t pgdir = entries s pgdir" "owned t pgdir = owned s pgdir" "owned t pgdir \<inter> set fl = {}"
    if "only_in (set fl) (km_mem s) (km_mem t)" for t :: "'a kmem_state_scheme"
    using apart_keep(1,2) [OF ap that] apart_owned [OF apart_keep(3) [OF ap that]] by (simp_all add: owned_def)
  show ?thesis unfolding copyuvm_def wp_kbind
  proof (rule wp_mono [OF setupkvm_wp [OF inv top data]], elim exE conjE, goal_cases)
    case (1 d t fl1)
    show ?case
    proof (cases "d = 0")
      case True
      then show ?thesis using 1 par [OF 1(3)] by auto
    next
      case False
      then have t: "space t fl1 d" "entries t d = kernel_entries data_sym" "owned t d \<union> set fl1 = set fl" using 1(4) by auto
      have own: "dirs (km_mem t) d \<union> set fl1 \<subseteq> set fl" using t(3) by (auto simp: owned_def)
      have apt: "apart (km_end t) (dirs (km_mem t) d \<union> set fl1) (km_mem t) pgdir"
        using apart_mono [OF apart_keep(3) [OF ap 1(3)] own] by (simp add: mem_only_end [OF 1(2)])
      have v: "v < UPAGES" if "v * PGSIZE < sz" for v using that sz by linarith
      have free: "\<forall>v. copy_range 0 sz v \<longrightarrow> entries t d v = None \<and> entries t pgdir v \<noteq> None"
        using there par(1) [OF 1(3)] t(2) kernel_entries_below v by simp
      have z: "(0 :: nat) mod PGSIZE = 0" by simp
      show ?thesis unfolding if_not_P [OF False] wp_kbind
      proof (rule wp_mono [OF copyuvm_loop_wp [OF t(1) z sz apt free]], goal_cases)
        case (1 ok u)
        then obtain fl2 where u: "space u fl2 d" "mem_only t u" "only_in (dirs (km_mem t) d \<union> set fl1) (km_mem t) (km_mem u)"
          "owned u d \<union> set fl2 = owned t d \<union> set fl1" "\<forall>v. \<not> v * PGSIZE < sz \<longrightarrow> entries u d v = entries t d v"
          "\<not> ok \<longrightarrow> length fl2 \<le> 1" "ok \<longrightarrow> (\<forall>v. v * PGSIZE < sz \<longrightarrow> (\<exists>x y. entries t pgdir v = Some x \<and> entries u d v = Some y \<and>
             copy_of (set fl1) (km_mem t) x (km_mem u) y))" by (auto simp: copy_post_def)
        have ou: "only_in (set fl) (km_mem s) (km_mem u)" by (rule only_in_trans [OF \<open>only_in (set fl) _ (km_mem t)\<close> u(3) subset_refl own])
        show ?case
        proof (cases ok)
          case True
          have "\<exists>x y. entries s pgdir w = Some x \<and> entries u d w = Some y \<and> copy_of (set fl) (km_mem s) x (km_mem u) y"
            if w: "w * PGSIZE < sz" for w
          proof -
            obtain x y where xy: "entries s pgdir w = Some x" "entries u d w = Some y" "copy_of (set fl1) (km_mem t) x (km_mem u) y"
              using u(7) True w par(1) [OF \<open>only_in (set fl) _ (km_mem t)\<close>] by auto
            have "frame x \<in> frames (entries s pgdir)" using xy(1) v [OF w] by (auto simp: in_frames)
            then have "copy_of (set fl) (km_mem s) x (km_mem u) y"
              using xy(3) apart_keep(4) [OF ap \<open>only_in (set fl) _ (km_mem t)\<close>] own by (auto simp: copy_of_def)
            then show ?thesis using xy by blast
          qed
          moreover have "kmem_inv u fl2" using u(1) by (simp add: space_def vm_pre_def)
          moreover have "owned u d \<inter> owned u pgdir = {}" using par(3) [OF ou] u(4) t(3) by auto
          ultimately show ?thesis using True False u(1,4,5) t ou par(1,2) [OF ou] by auto
        next
          case notok: False
          have "w * PGSIZE < sz" if "w < UPAGES" "entries u d w \<noteq> None" for w
            using u(5) t(2) that kernel_entries_below by (cases "w * PGSIZE < sz") simp_all
          note c = card_owned [of u d sz, OF this]
          have "card (set fl) \<le> card (owned u d) + card (set fl2)" using card_Un_le [of "owned u d" "set fl2"] u(4) t(3) by simp
          moreover have "card (set fl2) \<le> 1" using u(6) notok card_length [of fl2] by linarith
          moreover have "card (set fl) = length fl" using inv by (simp add: kmem_inv_def distinct_card)
          ultimately have len: "length fl \<le> 1026 + (sz + 4095) div PGSIZE" using c(2) by linarith
          have set: "owned u d \<union> set fl2 = set fl" using u(4) t(3) by simp
          show ?thesis unfolding if_not_P [OF notok] wp_kseq wp_kreturn
          proof (rule wp_mono [OF freevm_wp [OF u(1)]], elim exE conjE, goal_cases)
            case (1 r w fl3)
            have ow: "only_in (set fl) (km_mem s) (km_mem w)" using only_in_trans [OF ou] 1(4) set by auto
            then show ?case using 1(1,3) set len par [OF ow] by auto
          qed
        qed
      qed
    qed
  qed
qed

text \<open>A process of one page, with one free page left.\<close>

definition demo_space :: kmem_state where
  "demo_space = \<lparr>km_mem = write_u32 (0x80402000 + 4 * 0) 0x403007
       (write_u32 (0x80401000 + 4 * 0) (V2P 0x80402000 OR PTE_P OR PTE_W OR PTE_U) (mem_set 0x80402000 0 PGSIZE (\<lambda>_. 0))),
     km_freelist = 0x80404000, km_use_lock = True, km_end = 0x80400000\<rparr>"

lemma demo_space_ok: "space demo_space [0x80404000] 0x80401000" "entries demo_space 0x80401000 = [0 \<mapsto> 0x403007]"
proof -
  let ?e = "0x80400000" and ?d = "0x80401000" and ?x = "0x80402000"
  let ?m1 = "write_u32 (?d + 4 * 0) (V2P ?x OR PTE_P OR PTE_W OR PTE_U) (mem_set ?x 0 PGSIZE (\<lambda>_. 0))"
  have ok: "page_ok ?e ?d" "page_ok ?e ?x" "page_ok ?e 0x80403000" "page_ok ?e 0x80404000" by (simp_all add: page_ok_def V2P_def)
  have nt: "\<not> has_tab (\<lambda>_. 0) ?d i" for i by (simp add: has_tab_def pde_def read_zero_mem)
  then have pd0: "pd_ok ?e (\<lambda>_. 0) ?d" and d0: "dirs (\<lambda>_. 0) ?d = {?d}" and e0: "pt_entry (\<lambda>_. 0) ?d = (\<lambda>_. None)"
    using ok by (simp_all add: pd_ok_def dirs_def pt_entry_def fun_eq_iff)
  have "KERNBASE \<le> ?e" "?x \<notin> dirs (\<lambda>_. 0) ?d" "(0 :: nat) < 1024" by (simp_all add: d0)
  note at = add_table [OF pd0 this(1,3) nt ok(2) this(2) refl]
  have "has_tab ?m1 ?d (0 div 1024)" "(0x403007 :: nat) < 2 ^ 32" using at(1) [of 0] by simp_all
  note st = set_entry [OF at(5) this refl, unfolded div_0 mod_0 at(2)]
  have mem: "km_mem demo_space = write_u32 (?x + 4 * 0) 0x403007 ?m1" "km_end demo_space = ?e" by (simp_all add: demo_space_def)
  show ent: "entries demo_space ?d = [0 \<mapsto> 0x403007]" unfolding mem st(1) at(3) e0 by (simp add: present_iff)
  have dirs: "dirs (km_mem demo_space) ?d = {?x, ?d}" unfolding mem st(2) at(4) d0 ..
  have fr: "frame 0x403007 = 0x80403000" by (simp add: frame_def PTE_ADDR_def P2V_def)
  have "only_in {?x, ?d} (\<lambda>_. 0) (km_mem demo_space)" unfolding mem
    by (rule only_in_trans [OF at(6) st(4)]) (simp_all only: at(4) d0 subset_refl)
  then have "agree_on 0x80404000 PGSIZE (\<lambda>_. 0) (km_mem demo_space)" by (rule only_in_agree) simp_all
  then have "read_u32 0x80404000 (km_mem demo_space) = 0" using read_page [of "0x80404000" "\<lambda>_. 0" _ 0] read_zero_mem by simp
  then have "kmem_inv demo_space [0x80404000]" using ok by (simp add: kmem_inv_def demo_space_def)
  moreover have "pd_ok ?e (km_mem demo_space) ?d" unfolding mem by (rule st(3))
  moreover have "frames (entries demo_space ?d) = {0x80403000}" unfolding ent by (rule set_eqI) (auto simp: in_frames fr split: if_splits)
  moreover have "frames_ok ?e (entries demo_space ?d)" unfolding ent by (rule frames_okI) (auto simp: fr ok split: if_splits)
  ultimately show "space demo_space [0x80404000] ?d" by (simp add: space_def vm_pre_def dirs mem(2))
qed

theorem copyuvm_isolates_witness:
  "wp (copyuvm 0x80108000 0x80401000 PGSIZE) (\<lambda>d t. \<exists>fl'. kmem_inv t fl' \<and> entries t 0x80401000 = [0 \<mapsto> 0x403007] \<and>
     (d = 0 \<longrightarrow> set fl' = {0x80404000})) demo_space"
proof -
  have "data_ok 0x80108000" by (simp add: data_ok_def)
  moreover have "\<forall>v. v * PGSIZE < PGSIZE \<longrightarrow> entries demo_space 0x80401000 v \<noteq> None" by (simp add: demo_space_ok)
  ultimately show ?thesis
    by (intro wp_mono [OF copyuvm_isolates [OF demo_space_ok(1), of "0x80108000" PGSIZE]]) (auto simp: demo_space_ok(2))
qed

end
