(* ===== verification/VmAlloc.thy ===== *)
theory VmAlloc
  imports VmCopy
begin

text \<open>
  Growing user memory, \<^verbatim>\<open>allocuvm\<close> in \<^verbatim>\<open>vm.c\<close>: the new pages are zeroed and readable and writable by the user, and when memory runs out the
  address space maps what it mapped before.
\<close>

text \<open>The entry for a new page.\<close>

definition new_entry :: "nat \<Rightarrow> nat" where
  "new_entry p = V2P p OR (PTE_W OR PTE_U) OR PTE_P"

definition zero_page_at :: "memory \<Rightarrow> nat \<Rightarrow> bool" where
  "zero_page_at m p \<longleftrightarrow> mem_read p PGSIZE m = replicate PGSIZE 0"

text \<open>The result of the loop of \<open>allocuvm\<close> from the address \<open>a\<close> on; \<open>mem\<close> is the page it could not enter.\<close>

definition alloc_post ::
  "nat \<Rightarrow> nat \<Rightarrow> nat \<Rightarrow> 'a kmem_state_scheme \<Rightarrow> nat list \<Rightarrow> (string \<times> nat) option \<Rightarrow> 'a kmem_state_scheme \<Rightarrow> bool" where
  "alloc_post pgdir newsz a s fl r t \<longleftrightarrow> (\<exists>fl'. space t fl' pgdir \<and> mem_only s t \<and>
     only_in (dirs (km_mem s) pgdir \<union> set fl) (km_mem s) (km_mem t) \<and>
     (\<forall>v. \<not> copy_range a newsz v \<longrightarrow> entries t pgdir v = entries s pgdir v) \<and>
     (case r of
        None \<Rightarrow> owned t pgdir \<union> set fl' = owned s pgdir \<union> set fl \<and>
          (\<forall>v. copy_range a newsz v \<longrightarrow> (\<exists>p \<in> set fl. entries t pgdir v = Some (new_entry p) \<and> frame (new_entry p) = p \<and> zero_page_at (km_mem t) p))
      | Some (msg, mem) \<Rightarrow> fl' = [] \<and> (if mem = 0 then owned t pgdir = owned s pgdir \<union> set fl
          else page_ok (km_end t) mem \<and> mem \<notin> owned t pgdir \<and> insert mem (owned t pgdir) = owned s pgdir \<union> set fl)))"

lemma alloc_fail:
  assumes "page_added d g v perm p r s fl t fl'" "r < 0"
  shows "alloc_post d newsz a s fl (Some (msg, p)) t"
proof -
  have t: "space t fl' d" "mem_only s t" "page_ok (km_end t) p" "p \<noteq> 0" "p \<notin> dirs (km_mem t) d"
    "insert p (dirs (km_mem t) d \<union> set fl') = dirs (km_mem s) d \<union> set fl" "entries t d = entries s d" "p \<notin> frames (entries t d)"
    "only_in (dirs (km_mem s) d \<union> set fl) (km_mem s) (km_mem t)" "fl' = []"
    using assms unfolding page_added_def if_P [OF assms(2)] by blast+
  have "insert p (owned t d) = owned s d \<union> set fl" using t(6,7,10) by (auto simp: owned_def)
  moreover have "p \<notin> owned t d" using t(5,8) by (simp add: owned_def)
  ultimately show ?thesis using t unfolding alloc_post_def by (intro exI [of _ fl']) simp
qed

lemma zero_mem_set: "mem_read p n (mem_set p 0 n m) = replicate n 0"
  by (intro nth_equalityI) (auto simp: mem_set_def)

lemma alloc_step:
  assumes add: "page_added d (mem_set p 0 PGSIZE) v (PTE_W OR PTE_U) p r s fl t fl'" and r: "\<not> r < 0"
    and v: "v < UPAGES" "entries s d v = None" "v = a div PGSIZE" and a: "a mod PGSIZE = 0" "a < newsz" and top: "KERNBASE \<le> km_end s"
    and post: "alloc_post d newsz (a + PGSIZE) t fl' res u"
  shows "alloc_post d newsz a s fl res u"
proof -
  have t: "mem_only s t" "set fl' \<subseteq> set fl" "dirs (km_mem t) d \<union> set fl' \<subseteq> dirs (km_mem s) d \<union> set fl"
    "only_in (dirs (km_mem s) d \<union> set fl) (km_mem s) (km_mem t)" "p \<notin> dirs (km_mem t) d \<union> set fl'" "page_ok (km_end t) p" "p \<in> set fl"
    "mem_read p PGSIZE (km_mem t) = replicate PGSIZE 0" "insert p (dirs (km_mem t) d \<union> set fl') = dirs (km_mem s) d \<union> set fl"
    using add by (auto simp: page_added_def zero_mem_set)
  have e: "entries t d = (entries s d)(v \<mapsto> new_entry p)" using add r by (simp add: page_added_def new_entry_def)
  have fr: "frame (new_entry p) = p"
    using frame_entry(1) [of "km_end s" p "PTE_W OR PTE_U"] t(6) top by (simp add: new_entry_def mem_only_end [OF t(1)])
  have "frames (entries t d) = insert p (frames (entries s d))" unfolding e using frames_update [of v "entries s d"] v fr by simp
  then have own: "owned t d \<union> set fl' = owned s d \<union> set fl" using t(9) by (auto simp: owned_def)
  obtain fl'' where u: "space u fl'' d" "mem_only t u" "only_in (dirs (km_mem t) d \<union> set fl') (km_mem t) (km_mem u)"
    "\<And>v. \<not> copy_range (a + PGSIZE) newsz v \<Longrightarrow> entries u d v = entries t d v"
    and res: "case res of
        None \<Rightarrow> owned u d \<union> set fl'' = owned t d \<union> set fl' \<and>
          (\<forall>v. copy_range (a + PGSIZE) newsz v \<longrightarrow> (\<exists>p \<in> set fl'. entries u d v = Some (new_entry p) \<and> frame (new_entry p) = p \<and> zero_page_at (km_mem u) p))
      | Some (msg, mem) \<Rightarrow> fl'' = [] \<and> (if mem = 0 then owned u d = owned t d \<union> set fl'
          else page_ok (km_end u) mem \<and> mem \<notin> owned u d \<and> insert mem (owned u d) = owned t d \<union> set fl')"
    using post unfolding alloc_post_def by blast
  have "mem_read p PGSIZE (km_mem u) = mem_read p PGSIZE (km_mem t)"
    using mem_read_cong [OF only_in_agree [OF u(3) page_ok_aligned [OF t(6)] t(5)]] by simp
  then have z: "zero_page_at (km_mem u) p" using t(8) by (simp add: zero_page_at_def)
  have nr: "\<not> copy_range (a + PGSIZE) newsz v" unfolding v(3) by (rule copy_range_next)
  then have ev: "entries u d v = Some (new_entry p)" using u(4) e by simp
  have "mem_only s u" by (rule mem_only_trans [OF t(1) u(2)])
  moreover have "only_in (dirs (km_mem s) d \<union> set fl) (km_mem s) (km_mem u)" by (rule only_in_trans [OF t(4) u(3) subset_refl t(3)])
  moreover have "entries u d w = entries s d w" if "\<not> copy_range a newsz w" for w
  proof -
    have "\<not> copy_range (a + PGSIZE) newsz w" "w \<noteq> v" using that copy_range_step [OF a, of w] v(3) by blast+
    then show ?thesis using u(4) e by simp
  qed
  moreover have "case res of
        None \<Rightarrow> owned u d \<union> set fl'' = owned s d \<union> set fl \<and>
          (\<forall>v. copy_range a newsz v \<longrightarrow> (\<exists>p \<in> set fl. entries u d v = Some (new_entry p) \<and> frame (new_entry p) = p \<and> zero_page_at (km_mem u) p))
      | Some (msg, mem) \<Rightarrow> fl'' = [] \<and> (if mem = 0 then owned u d = owned s d \<union> set fl
          else page_ok (km_end u) mem \<and> mem \<notin> owned u d \<and> insert mem (owned u d) = owned s d \<union> set fl)"
  proof (cases res)
    case None
    have "\<exists>p \<in> set fl. entries u d w = Some (new_entry p) \<and> frame (new_entry p) = p \<and> zero_page_at (km_mem u) p"
      if w: "copy_range a newsz w" for w
    proof (cases "w = v")
      case True
      then show ?thesis using ev fr z t(7) by blast
    next
      case False
      then have "copy_range (a + PGSIZE) newsz w" using w copy_range_step [OF a] v(3) by blast
      then have "\<exists>p \<in> set fl'. entries u d w = Some (new_entry p) \<and> frame (new_entry p) = p \<and> zero_page_at (km_mem u) p"
        using res None by simp
      then show ?thesis using t(2) by blast
    qed
    then show ?thesis using res None own by simp
  next
    case (Some mm)
    then show ?thesis using res own by (cases mm) simp
  qed
  ultimately show ?thesis using u(1) unfolding alloc_post_def by blast
qed

lemma alloc_loop_wp:
  assumes "space s fl pgdir" "a mod PGSIZE = 0" "newsz \<le> KERNBASE" "\<forall>v. copy_range a newsz v \<longrightarrow> entries s pgdir v = None"
  shows "wp (alloc_loop pgdir newsz a) (alloc_post pgdir newsz a s fl) s"
  using assms
proof (induction "newsz - a" arbitrary: s fl a rule: less_induct)
  case less
  note top = space_top [OF less.prems(1)]
  show ?case
  proof (cases "a < newsz")
    case False
    have "\<not> copy_range a newsz v" for v
    proof
      assume c: "copy_range a newsz v"
      then have "a div PGSIZE * PGSIZE \<le> v * PGSIZE" by (intro mult_le_mono1) simp
      then show False using c False less.prems(2) by auto
    qed
    then show ?thesis using False less.prems(1) by (subst alloc_loop.simps) (auto simp: alloc_post_def)
  next
    case True
    let ?v = "a div PGSIZE"
    have av: "?v * PGSIZE = a" "?v < UPAGES" using True less.prems(2,3) by auto
    then have none: "entries s pgdir ?v = None" using True less.prems(4) by simp
    have body: "wp (kbind kalloc (\<lambda>mem. if mem = 0 then kreturn (Some (''allocuvm out of memory'' @ [CHR 0x0A], 0)) else
        kseq (kmodify (\<lambda>s. s\<lparr>km_mem := mem_set mem 0 PGSIZE (km_mem s)\<rparr>))
          (kbind (mappages pgdir (?v * PGSIZE) PGSIZE (V2P mem) (PTE_W OR PTE_U)) (\<lambda>r.
            if r < 0 then kreturn (Some (''allocuvm out of memory (2)'' @ [CHR 0x0A], mem)) else alloc_loop pgdir newsz (a + PGSIZE)))))
      (alloc_post pgdir newsz a s fl) s"
    proof (rule new_page_wp [OF less.prems(1) av(2) none])
      show "PTE_W OR PTE_U < PGSIZE" by simp
      show "only_in {p} m (mem_set p 0 PGSIZE m)" if "page_ok (km_end s) p" for p m using only_in_set [OF page_ok_aligned [OF that]] .
    next
      assume "fl = []"
      then show "wp (kreturn (Some (''allocuvm out of memory'' @ [CHR 0x0A], 0))) (alloc_post pgdir newsz a s fl) s"
        using less.prems(1) by (simp add: alloc_post_def)
    next
      fix p r fl' and t :: "'a kmem_state_scheme"
      assume add: "page_added pgdir (mem_set p 0 PGSIZE) ?v (PTE_W OR PTE_U) p r s fl t fl'"
      show "wp (if r < 0 then kreturn (Some (''allocuvm out of memory (2)'' @ [CHR 0x0A], p)) else alloc_loop pgdir newsz (a + PGSIZE))
        (alloc_post pgdir newsz a s fl) t"
      proof (cases "r < 0")
        case True
        then show ?thesis using alloc_fail [OF add True] by simp
      next
        case r: False
        have t: "space t fl' pgdir" "mem_only s t" using add by (simp_all add: page_added_def)
        have "entries t pgdir w = None" if w: "copy_range (a + PGSIZE) newsz w" for w
        proof -
          have "copy_range a newsz w" using w copy_range_step [OF less.prems(2) True, of w] by blast
          moreover have "w \<noteq> ?v" using w copy_range_next by metis
          ultimately show ?thesis using less.prems(4) add r by (simp add: page_added_def)
        qed
        then have "wp (alloc_loop pgdir newsz (a + PGSIZE)) (alloc_post pgdir newsz (a + PGSIZE) t fl') t"
          using True less.prems(2,3) t(1) by (intro less.hyps) auto
        then show ?thesis unfolding if_not_P [OF r]
          by (rule wp_mono) (rule alloc_step [OF add r av(2) none refl less.prems(2) True top])
      qed
    qed
    show ?thesis unfolding alloc_loop.simps [of pgdir newsz a] if_P [OF True] zero_page_def using body [unfolded av(1)] .
  qed
qed

lemma roundup:
  assumes "sz \<le> KERNBASE"
  shows "PGROUNDUP sz div PGSIZE \<le> v \<longleftrightarrow> sz \<le> v * PGSIZE" "sz \<le> PGROUNDUP sz"
proof -
  have e: "PGROUNDUP sz = (sz + 4095) div 4096 * 4096" using assms by (simp add: PGROUNDUP_eq)
  have "(sz + 4095) div 4096 \<le> v \<longleftrightarrow> \<not> Suc v \<le> (sz + 4095) div 4096" by auto
  also have "\<dots> \<longleftrightarrow> \<not> Suc v * 4096 \<le> sz + 4095" by (simp only: less_eq_div_iff_mult_less_eq)
  also have "\<dots> \<longleftrightarrow> sz \<le> v * PGSIZE" by auto
  finally show "PGROUNDUP sz div PGSIZE \<le> v \<longleftrightarrow> sz \<le> v * PGSIZE" by (simp add: e)
  show "sz \<le> PGROUNDUP sz" unfolding e using dividend_less_div_times [of 4096 "sz + 4095"] by simp
qed

text \<open>The message printed on failure leaves the memory alone.\<close>

definition only_prints :: "(string \<Rightarrow> ('a kmem_state_scheme, unit) kernel) \<Rightarrow> bool" where
  "only_prints cprint \<longleftrightarrow> (\<forall>msg s. \<exists>t. cprint msg s = Done () t \<and> km_mem t = km_mem s \<and> km_freelist t = km_freelist s \<and> km_end t = km_end s)"

lemma space_same:
  assumes "km_mem t = km_mem s" "km_freelist t = km_freelist s" "km_end t = km_end s"
  shows "space t fl pgdir = space s fl pgdir" "owned t pgdir = owned s pgdir"
  using assms by (simp_all add: space_def vm_pre_def kmem_inv_def owned_def)

text \<open>Freeing everything from \<open>oldsz\<close> on after a failure restores the entries.\<close>

lemma alloc_undo:
  assumes post: "alloc_post pgdir newsz (PGROUNDUP oldsz) s fl (Some (msg, mem)) t"
    and none: "\<forall>v. copy_range (PGROUNDUP oldsz) newsz v \<longrightarrow> entries s pgdir v = None" and sz: "oldsz \<le> newsz" "newsz \<le> KERNBASE"
    and u: "km_mem u = km_mem t" "km_freelist u = km_freelist t" "km_end u = km_end t"
  shows "wp (kseq (deallocuvm pgdir newsz oldsz) (kseq (kwhen (mem \<noteq> 0) (kfree mem)) (kreturn 0)))
    (\<lambda>r w. \<exists>fl'. r = (0 :: nat) \<and> space w fl' pgdir \<and> entries w pgdir = entries s pgdir \<and> owned w pgdir \<union> set fl' = owned s pgdir \<union> set fl \<and>
      only_in (owned s pgdir \<union> set fl) (km_mem s) (km_mem w)) u"
proof -
  have t: "space t [] pgdir" "mem_only s t" "only_in (dirs (km_mem s) pgdir \<union> set fl) (km_mem s) (km_mem t)"
    "\<forall>v. \<not> copy_range (PGROUNDUP oldsz) newsz v \<longrightarrow> entries t pgdir v = entries s pgdir v"
    and own: "if mem = 0 then owned t pgdir = owned s pgdir \<union> set fl
          else page_ok (km_end t) mem \<and> mem \<notin> owned t pgdir \<and> insert mem (owned t pgdir) = owned s pgdir \<union> set fl"
    using post by (auto simp: alloc_post_def)
  have su: "space u [] pgdir" "owned u pgdir = owned t pgdir" "entries u pgdir = entries t pgdir" "km_mem s = km_mem s"
    using space_same [OF u] t(1) u(1) by simp_all
  have sub: "owned t pgdir \<subseteq> owned s pgdir \<union> set fl" using own by (auto split: if_splits)
  have o1: "only_in (owned s pgdir \<union> set fl) (km_mem s) (km_mem u)"
    unfolding u(1) by (rule only_in_mono [OF t(3)]) (auto simp: owned_def)
  have undo: "cleared (PGROUNDUP oldsz) newsz (entries t pgdir) = entries s pgdir"
    using t(4) none by (auto simp: cleared_def fun_eq_iff)
  have dw: "wp (deallocuvm pgdir newsz oldsz) (\<lambda>_ w. \<exists>fl'. space_to pgdir u [] w fl' \<and> entries w pgdir = entries s pgdir) u"
  proof (cases "oldsz < newsz")
    case True
    then show ?thesis using deallocuvm_wp [OF su(1) sz(2) True] by (elim wp_mono) (auto simp: su(3) undo)
  next
    case False
    have "\<not> copy_range (PGROUNDUP oldsz) newsz v" for v using roundup(1) [of oldsz v] sz False by auto
    then have "entries t pgdir = entries s pgdir" using t(4) by auto
    then show ?thesis using False space_to_refl [OF su(1)] su(3) by (auto simp: deallocuvm_def)
  qed
  show ?thesis unfolding wp_kseq
  proof (rule wp_mono [OF dw], elim exE conjE, goal_cases)
    case (1 r w fl')
    have w: "space w fl' pgdir" "mem_only u w" "owned w pgdir \<union> set fl' = owned t pgdir" "only_in (owned t pgdir) (km_mem u) (km_mem w)"
      using 1(1) by (simp_all add: space_to_def su(2))
    have o2: "only_in (owned s pgdir \<union> set fl) (km_mem s) (km_mem w)" by (rule only_in_trans [OF o1 w(4) subset_refl sub])
    show ?case
    proof (cases "mem = 0")
      case True
      then show ?thesis using w own 1(2) o2 by auto
    next
      case False
      then have m: "page_ok (km_end w) mem" "mem \<notin> set fl'" "mem \<notin> dirs (km_mem w) pgdir" "mem \<notin> frames (entries w pgdir)"
        and eq: "insert mem (owned w pgdir \<union> set fl') = owned s pgdir \<union> set fl"
        using own w(3) mem_only_end [OF w(2)] u(3) by (auto simp: owned_def)
      show ?thesis unfolding wp_kwhen wp_kreturn
      proof (simp only: False not_False_eq_True if_True, rule wp_mono [OF space_kfree [OF w(1) m]], elim conjE, goal_cases)
        case (1 r x)
        have "only_in (owned s pgdir \<union> set fl) (km_mem s) (km_mem x)" by (rule only_in_trans [OF o2 1(3)]) (use eq in auto)
        then show ?case using 1 eq \<open>entries w pgdir = entries s pgdir\<close> by (intro exI [of _ "mem # fl'"]) auto
      qed
    qed
  qed
qed

lemma alloc_short:
  assumes post: "alloc_post pgdir newsz a s fl (Some (msg, mem)) t" and inv: "kmem_inv s fl" and sp: "space s fl pgdir"
  shows "length fl \<le> 1026 + (newsz + 4095) div PGSIZE"
proof -
  let ?n = "(newsz + 4095) div PGSIZE"
  obtain own: "if mem = 0 then owned t pgdir = owned s pgdir \<union> set fl
          else page_ok (km_end t) mem \<and> mem \<notin> owned t pgdir \<and> insert mem (owned t pgdir) = owned s pgdir \<union> set fl"
    and ent: "\<forall>v. \<not> copy_range a newsz v \<longrightarrow> entries t pgdir v = entries s pgdir v"
    using post by (auto simp: alloc_post_def)
  let ?new = "(\<lambda>v. frame (the (entries t pgdir v))) ` {..<?n}"
  have "set fl \<subseteq> insert mem (dirs (km_mem t) pgdir \<union> ?new)"
  proof
    fix p assume p: "p \<in> set fl"
    then have no: "p \<notin> frames (entries s pgdir)" using sp by (auto simp: space_def)
    have "p \<in> insert mem (owned t pgdir)" using own p by (auto split: if_splits)
    then consider "p = mem" | "p \<in> dirs (km_mem t) pgdir" | "p \<in> frames (entries t pgdir)" by (auto simp: owned_def)
    then show "p \<in> insert mem (dirs (km_mem t) pgdir \<union> ?new)"
    proof cases
      case 3
      then obtain v x where v: "v < UPAGES" "entries t pgdir v = Some x" "p = frame x" by (auto simp: in_frames)
      have "copy_range a newsz v"
      proof (rule ccontr)
        assume "\<not> copy_range a newsz v"
        then have "entries s pgdir v = Some x" using ent v(2) by simp
        then show False using no v by (auto simp: in_frames)
      qed
      then have "Suc v * PGSIZE \<le> newsz + 4095" by simp
      then have "Suc v \<le> ?n" by (simp only: less_eq_div_iff_mult_less_eq)
      then have "p \<in> ?new" using v by (intro image_eqI [of _ _ v]) auto
      then show ?thesis by simp
    qed simp_all
  qed
  then have "card (set fl) \<le> card (insert mem (dirs (km_mem t) pgdir \<union> ?new))" using card_dirs by (intro card_mono) auto
  also have "\<dots> \<le> Suc (card (dirs (km_mem t) pgdir \<union> ?new))" by (rule card_insert_le_m1) simp_all
  also have "\<dots> \<le> Suc (1025 + ?n)" using card_Un_le [of "dirs (km_mem t) pgdir" ?new] card_dirs [of "km_mem t" pgdir]
      card_image_le [of "{..<?n}" "\<lambda>v. frame (the (entries t pgdir v))"] by simp
  finally show ?thesis using inv by (simp add: kmem_inv_def distinct_card)
qed

text \<open>C34: Growing a process.  \<open>allocuvm\<close> on a well-formed address space that has nothing mapped between the old and the new size never
  panics.  If it returns the new size, exactly the pages from the old size rounded up to the new size have been added, each a zeroed page
  that was free, present and writable for the user, and all other mappings are as before.  If it returns 0 for want of
  memory, the mappings are those before the call; in both cases no page is lost, shared with the free list, or touched
  outside the address space.\<close>

theorem allocuvm_grows:
  fixes s :: "'a kmem_state_scheme"
  assumes sp: "space s fl pgdir" and sz: "oldsz \<le> newsz" "newsz < KERNBASE" and pr: "only_prints cprint"
    and none: "\<forall>v. oldsz \<le> v * PGSIZE \<and> v * PGSIZE < newsz \<longrightarrow> entries s pgdir v = None"
  shows "wp (allocuvm cprint pgdir oldsz newsz) (\<lambda>r t. \<exists>fl'. space t fl' pgdir \<and> owned t pgdir \<union> set fl' = owned s pgdir \<union> set fl \<and>
    only_in (owned s pgdir \<union> set fl) (km_mem s) (km_mem t) \<and>
    (r = newsz \<and> (\<forall>v. if oldsz \<le> v * PGSIZE \<and> v * PGSIZE < newsz
        then \<exists>p \<in> set fl. entries t pgdir v = Some (new_entry p) \<and> frame (new_entry p) = p \<and> zero_page_at (km_mem t) p
        else entries t pgdir v = entries s pgdir v) \<or>
     r = 0 \<and> entries t pgdir = entries s pgdir \<and> length fl \<le> 1026 + (newsz + 4095) div PGSIZE)) s"
proof -
  have range: "copy_range (PGROUNDUP oldsz) newsz v \<longleftrightarrow> oldsz \<le> v * PGSIZE \<and> v * PGSIZE < newsz" for v
    using roundup(1) [of oldsz v] sz by simp
  have none': "\<forall>v. copy_range (PGROUNDUP oldsz) newsz v \<longrightarrow> entries s pgdir v = None" unfolding range by (rule none)
  have "newsz \<le> KERNBASE" using sz(2) by simp
  note loop = alloc_loop_wp [OF sp roundup_aligned this none']
  have c: "\<not> newsz \<ge> KERNBASE" "\<not> newsz < oldsz" using sz by simp_all
  show ?thesis unfolding allocuvm_def if_not_P [OF c(1)] if_not_P [OF c(2)] wp_kbind
  proof (rule wp_mono [OF loop], goal_cases)
    case (1 r t)
    show ?case
    proof (cases r)
      case None
      with 1 obtain fl' where t: "space t fl' pgdir" "only_in (dirs (km_mem s) pgdir \<union> set fl) (km_mem s) (km_mem t)"
        "\<forall>v. \<not> copy_range (PGROUNDUP oldsz) newsz v \<longrightarrow> entries t pgdir v = entries s pgdir v"
        "owned t pgdir \<union> set fl' = owned s pgdir \<union> set fl"
        "\<forall>v. copy_range (PGROUNDUP oldsz) newsz v \<longrightarrow> (\<exists>p \<in> set fl. entries t pgdir v = Some (new_entry p) \<and> frame (new_entry p) = p \<and> zero_page_at (km_mem t) p)"
        by (auto simp: alloc_post_def)
      have "only_in (owned s pgdir \<union> set fl) (km_mem s) (km_mem t)" by (rule only_in_mono [OF t(2)]) (auto simp: owned_def)
      moreover have "\<forall>v. if oldsz \<le> v * PGSIZE \<and> v * PGSIZE < newsz
        then \<exists>p \<in> set fl. entries t pgdir v = Some (new_entry p) \<and> frame (new_entry p) = p \<and> zero_page_at (km_mem t) p
        else entries t pgdir v = entries s pgdir v" using t(3,5) unfolding range by presburger
      ultimately show ?thesis unfolding None option.case wp_kreturn using t(1,4) by blast
    next
      case (Some mm)
      then obtain msg mem where r: "r = Some (msg, mem)" by (cases mm) auto
      note post = 1 [unfolded r]
      obtain u where u: "cprint msg t = Done () u" "km_mem u = km_mem t" "km_freelist u = km_freelist t" "km_end u = km_end t"
        using pr by (auto simp: only_prints_def)
      have "kmem_inv s fl" using sp by (simp add: space_def vm_pre_def)
      note len = alloc_short [OF post this sp]
      note undo = alloc_undo [OF post none' sz(1) \<open>newsz \<le> KERNBASE\<close> u(2-4)]
      have "wp (kseq (cprint msg) (kseq (deallocuvm pgdir newsz oldsz) (kseq (kwhen (mem \<noteq> 0) (kfree mem)) (kreturn 0))))
        (\<lambda>r w. \<exists>fl'. r = (0 :: nat) \<and> space w fl' pgdir \<and> entries w pgdir = entries s pgdir \<and> owned w pgdir \<union> set fl' = owned s pgdir \<union> set fl \<and>
          only_in (owned s pgdir \<union> set fl) (km_mem s) (km_mem w)) t"
        unfolding wp_kseq [of "cprint msg"] by (rule wpI [of "cprint msg" t "()" u]) (rule u(1), rule undo)
      then show ?thesis unfolding r option.case prod.case by (rule wp_mono) (use len in blast)
    qed
  qed
qed

theorem allocuvm_grows_witness:
  "wp (allocuvm (\<lambda>_. kreturn ()) 0x80401000 PGSIZE 0x3000) (\<lambda>r t. (r = 0x3000 \<or> r = 0) \<and> entries t 0x80401000 0 = Some 0x403007) demo_space"
proof -
  have "only_prints (\<lambda>_. kreturn ())" by (simp add: only_prints_def kreturn_def)
  moreover have "\<forall>v. PGSIZE \<le> v * PGSIZE \<and> v * PGSIZE < 0x3000 \<longrightarrow> entries demo_space 0x80401000 v = None" by (simp add: demo_space_ok)
  ultimately show ?thesis
    by (intro wp_mono [OF allocuvm_grows [OF demo_space_ok(1), of PGSIZE "0x3000" "\<lambda>_. kreturn ()"]])
      (auto simp: demo_space_ok(2) dest: spec [of _ 0])
qed

end
