(* ===== verification/Fs.thy ===== *)
theory Fs
  imports Console
begin

text \<open>
  The upper half of \<^verbatim>\<open>fs.c\<close>: reading and writing the contents of inodes, directories, path names and
  \<open>chmod\<close>.  Data is passed by value: a read returns the bytes it copies to the caller's buffer.  A null
  inode pointer is \<open>None\<close>.  Names are the bytes of a string without terminator.
\<close>

section \<open>Contents of files\<close>

abbreviation NDEV :: int where "NDEV \<equiv> 10"

function readi_loop :: "nat \<Rightarrow> nat \<Rightarrow> nat \<Rightarrow> ('a cons_state_scheme, byte list) kernel" where
  "readi_loop i off n =
     (if n = 0 then kreturn []
      else
        let m = min n (BSIZE - off mod BSIZE) in
        kbind (kget (\<lambda>s. i_dev (icache s i))) (\<lambda>dev.
        kbind (bmap i (off div BSIZE)) (\<lambda>b.
        kbind (bread dev b) (\<lambda>bp.
        kbind (buf_data bp) (\<lambda>d.
        kseq (brelse bp)
        (kbind (readi_loop i (off + m) (n - m)) (\<lambda>rest.
         kreturn (bslice (off mod BSIZE) m d @ rest))))))))"
  by pat_completeness auto
termination
  by (relation "measure (\<lambda>(i, off, n). n)") auto

declare readi_loop.simps [simp del]

text \<open>The result and the bytes read.  A console read that has to wait has the outcome \<open>Sleep\<close>.\<close>

definition readi :: "nat \<Rightarrow> nat \<Rightarrow> nat \<Rightarrow> ('a cons_state_scheme, int \<times> byte list) kernel" where
  "readi i off n = kbind (kget id) (\<lambda>s. let d = i_din (icache s i) in
     if d_type d = T_DEV then
       if d_major d < 0 \<or> d_major d \<ge> NDEV \<or> \<not> devsw s (d_major d) then kreturn (-1, [])
       else kbind (consoleread i n) (\<lambda>r. case r of Inl _ \<Rightarrow> ksleep Chan_input | Inr x \<Rightarrow> kreturn x)
     else if off > d_size d \<or> (off + n) mod 2 ^ 32 < off then kreturn (-1, [])
     else
       let n = (if off + n > d_size d then d_size d - off else n) in
       kbind (readi_loop i off n) (\<lambda>bs. kreturn (int n, bs)))"

function writei_loop :: "nat \<Rightarrow> nat \<Rightarrow> byte list \<Rightarrow> ('a cons_state_scheme, unit) kernel" where
  "writei_loop i off bs =
     (if bs = [] then kreturn ()
      else
        let m = min (length bs) (BSIZE - off mod BSIZE) in
        kbind (kget (\<lambda>s. i_dev (icache s i))) (\<lambda>dev.
        kbind (bmap i (off div BSIZE)) (\<lambda>b.
        kbind (bread dev b) (\<lambda>bp.
        kbind (buf_data bp) (\<lambda>d.
        kseq (set_buf_data bp (bsplice (off mod BSIZE) (take m bs) d))
        (kseq (log_write bp)
        (kseq (brelse bp)
              (writei_loop i (off + m) (drop m bs)))))))))"
  by pat_completeness auto
termination
  by (relation "measure (\<lambda>(i, off, bs). length bs)") auto

declare writei_loop.simps [simp del]

definition writei :: "nat \<Rightarrow> nat \<Rightarrow> byte list \<Rightarrow> ('a cons_state_scheme, int) kernel" where
  "writei i off bs = kbind (kget id) (\<lambda>s. let d = i_din (icache s i); n = length bs in
     if d_type d = T_DEV then
       if d_major d < 0 \<or> d_major d \<ge> NDEV \<or> \<not> devsw s (d_major d) then kreturn (-1)
       else consolewrite i bs
     else if off > d_size d \<or> (off + n) mod 2 ^ 32 < off then kreturn (-1)
     else if off + n > MAXFILE * BSIZE then kreturn (-1)
     else
       kseq (writei_loop i off bs)
       (kbind (kget (\<lambda>s. d_size (i_din (icache s i)))) (\<lambda>sz.
         kseq (kwhen (n > 0 \<and> off + n > sz)
           (kseq (kmodify (upd_inode i (upd_din (\<lambda>d. d\<lparr>d_size := off + n\<rparr>)))) (iupdate i)))
         (kreturn (int n)))))"

section \<open>Directories\<close>

text \<open>Whether \<^verbatim>\<open>namecmp\<close> returns 0: the names agree in their first \<open>DIRSIZ\<close> characters.\<close>

definition dirname :: "byte list \<Rightarrow> byte list" where
  "dirname s = take DIRSIZ (takeWhile (\<lambda>c. c \<noteq> 0) s)"

definition namecmp :: "byte list \<Rightarrow> byte list \<Rightarrow> bool" where
  "namecmp s t \<longleftrightarrow> dirname s = dirname t"

text \<open>The scan of a directory from an offset, for the first entry that satisfies a test.\<close>

definition read_dirent :: "string \<Rightarrow> nat \<Rightarrow> nat \<Rightarrow> ('a cons_state_scheme, dirent) kernel" where
  "read_dirent msg dp off = kbind (readi dp off sizeof_dirent) (\<lambda>(r, bs).
     if r \<noteq> int sizeof_dirent then kpanic msg else kreturn (decode_dirent bs))"

function dir_scan ::
  "string \<Rightarrow> nat \<Rightarrow> (dirent \<Rightarrow> bool) \<Rightarrow> nat \<Rightarrow> nat \<Rightarrow> ('a cons_state_scheme, nat \<times> dirent option) kernel" where
  "dir_scan msg dp P sz off =
     (if off < sz then
        kbind (read_dirent msg dp off) (\<lambda>de.
          if P de then kreturn (off, Some de) else dir_scan msg dp P sz (off + sizeof_dirent))
      else kreturn (off, None))"
  by pat_completeness auto
termination
  by (relation "measure (\<lambda>(msg, dp, P, sz, off). sz - off)") auto

declare dir_scan.simps [simp del]

text \<open>The inode found and the offset of its entry.\<close>

definition dirlookup :: "nat \<Rightarrow> byte list \<Rightarrow> ('a cons_state_scheme, (nat \<times> nat) option) kernel" where
  "dirlookup dp name = kbind (kget (\<lambda>s. icache s dp)) (\<lambda>ip.
     if d_type (i_din ip) \<noteq> T_DIR then kpanic ''dirlookup not DIR''
     else kbind (dir_scan ''dirlookup read'' dp (\<lambda>de. de_inum de \<noteq> 0 \<and> namecmp name (de_name de))
                   (d_size (i_din ip)) 0) (\<lambda>(off, r).
       case r of
         None \<Rightarrow> kreturn None
       | Some de \<Rightarrow> kbind (iget (i_dev ip) (de_inum de)) (\<lambda>i. kreturn (Some (i, off)))))"

text \<open>\<^verbatim>\<open>strncpy(de.name, name, DIRSIZ)\<close>.\<close>

definition dirent_name :: "byte list \<Rightarrow> byte list" where
  "dirent_name name = take DIRSIZ (takeWhile (\<lambda>c. c \<noteq> 0) name @ replicate DIRSIZ 0)"

definition dirlink :: "nat \<Rightarrow> byte list \<Rightarrow> nat \<Rightarrow> ('a cons_state_scheme, int) kernel" where
  "dirlink dp name inum = kbind (dirlookup dp name) (\<lambda>r.
     case r of
       Some (ip, _) \<Rightarrow> kseq (iput ip) (kreturn (-1))
     | None \<Rightarrow>
         kbind (kget (\<lambda>s. d_size (i_din (icache s dp)))) (\<lambda>sz.
         kbind (dir_scan ''dirlink read'' dp (\<lambda>de. de_inum de = 0) sz 0) (\<lambda>(off, _).
         kbind (writei dp off (encode_dirent \<lparr>de_inum = inum mod 2 ^ 16, de_name = dirent_name name\<rparr>)) (\<lambda>n.
           if n \<noteq> int sizeof_dirent then kpanic ''dirlink'' else kreturn 0))))"

section \<open>Paths\<close>

text \<open>The next path element, cut off at \<open>DIRSIZ\<close>, and the path after it and the slashes that follow.\<close>

definition skipelem :: "byte list \<Rightarrow> (byte list \<times> byte list) option" where
  "skipelem path =
     (let path = dropWhile (\<lambda>c. c = 47) path in
      if path = [] then None
      else
        let s = takeWhile (\<lambda>c. c \<noteq> 47) path; path = dropWhile (\<lambda>c. c \<noteq> 47) path in
        Some (take DIRSIZ s, dropWhile (\<lambda>c. c = 47) path))"

lemma skipelem_shorter: "skipelem path = Some (name, rest) \<Longrightarrow> length rest < length path"
proof -
  assume a: "skipelem path = Some (name, rest)"
  let ?p = "dropWhile (\<lambda>c. c = 47) path"
  have ne: "?p \<noteq> []" and r: "rest = dropWhile (\<lambda>c. c = 47) (dropWhile (\<lambda>c. c \<noteq> 47) ?p)"
    using a by (auto simp: skipelem_def Let_def split: if_splits)
  have "hd ?p \<noteq> 47" using ne hd_dropWhile [of "\<lambda>c. c = 47" path] by auto
  then have "length (dropWhile (\<lambda>c. c \<noteq> 47) ?p) < length ?p"
    using ne by (cases ?p) (auto simp: le_imp_less_Suc length_dropWhile_le)
  moreover have "length rest \<le> length (dropWhile (\<lambda>c. c \<noteq> 47) ?p)" by (simp add: r length_dropWhile_le)
  moreover have "length ?p \<le> length path" by (rule length_dropWhile_le)
  ultimately show ?thesis by simp
qed

function namex_loop :: "nat \<Rightarrow> bool \<Rightarrow> byte list \<Rightarrow> byte list \<Rightarrow> ('a cons_state_scheme, (nat \<times> byte list) option) kernel"
where
  "namex_loop ip parent name path =
     (case skipelem path of
        None \<Rightarrow> if parent then kseq (iput ip) (kreturn None) else kreturn (Some (ip, name))
      | Some (name, path) \<Rightarrow>
          kseq (ilock ip)
          (kbind (kget (\<lambda>s. d_type (i_din (icache s ip)))) (\<lambda>ty.
           if ty \<noteq> T_DIR then kseq (iunlockput ip) (kreturn None)
           else if parent \<and> path = [] then kseq (iunlock ip) (kreturn (Some (ip, name)))
           else kbind (dirlookup ip name) (\<lambda>next.
             kseq (iunlockput ip)
             (case next of None \<Rightarrow> kreturn None | Some (i, _) \<Rightarrow> namex_loop i parent name path)))))"
  by pat_completeness auto
termination
  by (relation "measure (\<lambda>(ip, parent, name, path). length path)") (auto simp: skipelem_shorter)

declare namex_loop.simps [simp del]

text \<open>The inode, or its parent directory, and the last path element; the bytes of a path stop at its
  terminator.\<close>

definition namex :: "byte list \<Rightarrow> bool \<Rightarrow> ('a cons_state_scheme, (nat \<times> byte list) option) kernel" where
  "namex path parent =
     kbind (if path \<noteq> [] \<and> hd path = 47 then iget ROOTDEV ROOTINO
            else kbind (kget (\<lambda>s. p_cwd (myproc s))) (\<lambda>cwd.
              case cwd of None \<Rightarrow> kpanic ''null cwd'' | Some i \<Rightarrow> idup i))
       (\<lambda>ip. namex_loop ip parent [] path)"

definition namei :: "byte list \<Rightarrow> ('a cons_state_scheme, nat option) kernel" where
  "namei path = kbind (namex path False) (\<lambda>r. kreturn (map_option fst r))"

definition nameiparent :: "byte list \<Rightarrow> ('a cons_state_scheme, (nat \<times> byte list) option) kernel" where
  "nameiparent path = namex path True"

section \<open>chmod\<close>

definition chmod :: "nat \<Rightarrow> int \<Rightarrow> ('a cons_state_scheme, int) kernel" where
  "chmod i mode =
     (if mode > 511 then kreturn (-1)
      else kseq begin_op (kseq (ilock i)
        (kseq (kmodify (upd_inode i (upd_din (\<lambda>d. d\<lparr>d_mode := nat (mode mod 2 ^ 32)\<rparr>))))
        (kseq (iunlock i) (kseq (iupdate i) (kseq end_op (kreturn 0)))))))"

section \<open>Path elements\<close>

text \<open>The elements \<open>skipelem\<close> delivers one after the other.\<close>

function path_elems :: "byte list \<Rightarrow> byte list list" where
  "path_elems path = (case skipelem path of None \<Rightarrow> [] | Some (name, rest) \<Rightarrow> name # path_elems rest)"
  by pat_completeness auto
termination
  by (relation "measure length") (auto simp: skipelem_shorter)

declare path_elems.simps [simp del]

text \<open>The reference: cut the path at the slashes and drop the empty pieces.\<close>

fun pieces :: "byte list \<Rightarrow> byte list list" where
  "pieces [] = [[]]"
| "pieces (c # cs) = (if c = 47 then [] # pieces cs else (c # hd (pieces cs)) # tl (pieces cs))"

definition elements :: "byte list \<Rightarrow> byte list list" where
  "elements path = filter (\<lambda>p. p \<noteq> []) (pieces path)"

lemma pieces_neq [simp]: "pieces cs \<noteq> []"
  by (cases cs) auto

lemma pieces_slash: "47 \<notin> set s \<Longrightarrow> pieces (s @ 47 # r) = s # pieces r" "47 \<notin> set s \<Longrightarrow> pieces s = [s]"
  by (induction s) auto

lemma elements_slashes: "elements (dropWhile (\<lambda>c. c = 47) path) = elements path"
  by (induction path) (auto simp: elements_def)

lemma elements_elem:
  assumes "s \<noteq> []" "47 \<notin> set s" "r = [] \<or> hd r = 47"
  shows "elements (s @ r) = s # elements r"
  using assms pieces_slash [OF assms(2)] by (cases r) (auto simp: elements_def)

text \<open>C14: \<open>skipelem\<close> takes a path apart at its slashes: calling it until it returns the null pointer gives the
  non-empty pieces between slashes, in order, each cut off at 14 bytes.\<close>

theorem skipelem_elements: "path_elems path = map (take DIRSIZ) (elements path)"
proof (induction path rule: path_elems.induct)
  case (1 path)
  let ?p = "dropWhile (\<lambda>c. c = 47) path"
  let ?s = "takeWhile (\<lambda>c. c \<noteq> 47) ?p" and ?r = "dropWhile (\<lambda>c. c \<noteq> 47) ?p"
  show ?case
  proof (cases "?p = []")
    case True
    have "elements path = elements ?p" by (rule elements_slashes [symmetric])
    also have "\<dots> = []" unfolding True by (simp add: elements_def)
    finally show ?thesis using True by (simp add: path_elems.simps [of path] skipelem_def)
  next
    case False
    have "hd ?p \<noteq> 47" using False hd_dropWhile [of "\<lambda>c. c = 47" path] by auto
    then have s: "?s \<noteq> []" using False by (cases ?p) auto
    have n: "47 \<notin> set ?s" using set_takeWhileD [of 47 "\<lambda>c. c \<noteq> 47" ?p] by auto
    have r: "?r = [] \<or> hd ?r = 47" using hd_dropWhile [of "\<lambda>c. c \<noteq> 47" ?p] by auto
    have "elements path = ?s # elements ?r"
      using elements_elem [OF s n r] elements_slashes [of path] by simp
    moreover have sk: "skipelem path = Some (take DIRSIZ ?s, dropWhile (\<lambda>c. c = 47) ?r)"
      unfolding skipelem_def Let_def using False by (simp only: if_False)
    moreover have "path_elems (dropWhile (\<lambda>c. c = 47) ?r) = map (take DIRSIZ) (elements (dropWhile (\<lambda>c. c = 47) ?r))"
      using 1 [OF sk refl] by simp
    ultimately show ?thesis by (simp add: path_elems.simps [of path] elements_slashes)
  qed
qed

end
