(* ===== verification/Pipe.thy ===== *)
theory Pipe
  imports Fs
begin

text \<open>
  Pipes (\<^verbatim>\<open>pipe.c\<close>) and the state of the file layer.  A pipe is a ring of 512 bytes with two free-running
  indices; it lives in a page of the allocator and is addressed by that page.  \<open>pipewrite\<close> and \<open>piperead\<close>
  are modelled from one point where the pipe's lock is taken to the next point where it is given up: the
  result \<open>Inl\<close> means that the process has gone to sleep inside the call, and holds what the call needs to
  continue.  The second half puts a writer and a reader together with the sleep and wakeup of the process
  table and shows that bytes come out in order, that no wakeup is lost and that the transfer ends.
\<close>

section \<open>State\<close>

abbreviation PIPESIZE :: nat where "PIPESIZE \<equiv> 512"
abbreviation NFILE :: nat where "NFILE \<equiv> 100"

record pipe =
  pp_data :: "nat \<Rightarrow> byte"
  pp_nread :: index
  pp_nwrite :: index
  pp_readopen :: bool
  pp_writeopen :: bool

datatype fdtype = FD_NONE | FD_PIPE | FD_INODE

record file_t =
  f_type :: fdtype
  f_ref :: int
  f_readable :: bool
  f_writable :: bool
  f_pipe :: nat           \<comment> \<open>address of the pipe\<close>
  f_ip :: nat             \<comment> \<open>index into the inode cache\<close>
  f_off :: nat

record file_state = cons_state +
  ftable :: "nat \<Rightarrow> file_t"
  pipes :: "nat \<Rightarrow> pipe"   \<comment> \<open>what the page at an address holds as a \<^verbatim>\<open>struct pipe\<close>\<close>

definition upd_pipe :: "nat \<Rightarrow> (pipe \<Rightarrow> pipe) \<Rightarrow> 'a file_state_scheme \<Rightarrow> 'a file_state_scheme" where
  "upd_pipe a f s = s\<lparr>pipes := (pipes s)(a := f (pipes s a))\<rparr>"

section \<open>Operations\<close>

definition pipeclose :: "nat \<Rightarrow> bool \<Rightarrow> ('a file_state_scheme, unit) kernel" where
  "pipeclose a writable =
     kseq (if writable
           then kseq (kmodify (upd_pipe a (\<lambda>p. p\<lparr>pp_writeopen := False\<rparr>))) (wakeup (Chan_nread a))
           else kseq (kmodify (upd_pipe a (\<lambda>p. p\<lparr>pp_readopen := False\<rparr>))) (wakeup (Chan_nwrite a)))
     (kbind (kget (\<lambda>s. pipes s a)) (\<lambda>p.
        kwhen (\<not> pp_readopen p \<and> \<not> pp_writeopen p) (kfree a)))"

text \<open>The first half of \<^verbatim>\<open>sleep\<close>, up to the call of the scheduler.\<close>

definition fall_asleep :: "chan \<Rightarrow> ('a proc_state_scheme, unit) kernel" where
  "fall_asleep c = kmodify (\<lambda>s. upd_proc (curproc s) (\<lambda>p. p\<lparr>p_chan := Some c, p_state := SLEEPING\<rparr>) s)"

text \<open>The loop of \<open>pipewrite\<close>: \<open>Inl\<close> the bytes left when the pipe is full and the process sleeps, \<open>Inr\<close> whether
  all bytes are written.\<close>

primrec pipewrite_loop :: "nat \<Rightarrow> byte list \<Rightarrow> ('a file_state_scheme, byte list + bool) kernel" where
  "pipewrite_loop a [] = kreturn (Inr True)"
| "pipewrite_loop a (c # cs) = kbind (kget id) (\<lambda>s. let p = pipes s a in
     if pp_nwrite p = pp_nread p + of_nat PIPESIZE then
       if \<not> pp_readopen p \<or> p_killed (myproc s) then kreturn (Inr False)
       else kseq (wakeup (Chan_nread a)) (kseq (fall_asleep (Chan_nwrite a)) (kreturn (Inl (c # cs))))
     else
       kseq (kmodify (upd_pipe a (\<lambda>p. p\<lparr>pp_data := (pp_data p)(unat (pp_nwrite p) mod PIPESIZE := c),
                                          pp_nwrite := pp_nwrite p + 1\<rparr>)))
            (pipewrite_loop a cs))"

definition pipewrite_resume :: "nat \<Rightarrow> nat \<Rightarrow> byte list \<Rightarrow> ('a file_state_scheme, byte list + int) kernel" where
  "pipewrite_resume a n bs = kbind (pipewrite_loop a bs) (\<lambda>r.
     case r of
       Inl rest \<Rightarrow> kreturn (Inl rest)
     | Inr False \<Rightarrow> kreturn (Inr (-1))
     | Inr True \<Rightarrow> kseq (wakeup (Chan_nread a)) (kreturn (Inr (int n))))"

definition pipewrite :: "nat \<Rightarrow> byte list \<Rightarrow> ('a file_state_scheme, byte list + int) kernel" where
  "pipewrite a bs = pipewrite_resume a (length bs) bs"

primrec piperead_loop :: "nat \<Rightarrow> nat \<Rightarrow> ('a file_state_scheme, byte list) kernel" where
  "piperead_loop a 0 = kreturn []"
| "piperead_loop a (Suc n) = kbind (kget (\<lambda>s. pipes s a)) (\<lambda>p.
     if pp_nread p = pp_nwrite p then kreturn []
     else
       kseq (kmodify (upd_pipe a (\<lambda>p. p\<lparr>pp_nread := pp_nread p + 1\<rparr>)))
       (kbind (piperead_loop a n) (\<lambda>bs. kreturn (pp_data p (unat (pp_nread p) mod PIPESIZE) # bs))))"

text \<open>A woken reader runs the call from the start again, which is what the loop around \<^verbatim>\<open>sleep\<close> does.\<close>

definition piperead :: "nat \<Rightarrow> nat \<Rightarrow> ('a file_state_scheme, unit + int \<times> byte list) kernel" where
  "piperead a n = kbind (kget id) (\<lambda>s. let p = pipes s a in
     if pp_nread p = pp_nwrite p \<and> pp_writeopen p then
       if p_killed (myproc s) then kreturn (Inr (-1, []))
       else kseq (fall_asleep (Chan_nread a)) (kreturn (Inl ()))
     else
       kbind (piperead_loop a n) (\<lambda>bs.
         kseq (wakeup (Chan_nwrite a)) (kreturn (Inr (int (length bs), bs)))))"

section \<open>The queue a pipe implements\<close>

interpretation pipe_ring: ring PIPESIZE
  by unfold_locales simp_all

definition pipe_len :: "pipe \<Rightarrow> nat" where
  "pipe_len p = unat (pp_nwrite p - pp_nread p)"

definition pipe_queue :: "pipe \<Rightarrow> byte list" where
  "pipe_queue p = ring_seg PIPESIZE (pp_data p) (pp_nread p) (pipe_len p)"

definition pipe_ok :: "pipe \<Rightarrow> bool" where
  "pipe_ok p \<longleftrightarrow> pipe_len p \<le> PIPESIZE"

lemma length_pipe_queue [simp]: "length (pipe_queue p) = pipe_len p"
  by (simp add: pipe_queue_def)

lemma pipe_len_0: "pipe_len p = 0 \<longleftrightarrow> pipe_queue p = []"
  by (metis length_0_conv length_pipe_queue)

lemma pipe_empty: "pp_nread p = pp_nwrite p \<longleftrightarrow> pipe_queue p = []"
  using unat_index_0 [of "pp_nwrite p" "pp_nread p"] length_pipe_queue [of p]
  by (auto simp: pipe_len_def simp flip: length_0_conv simp del: length_pipe_queue)

lemma pipe_full: "pp_nwrite p = pp_nread p + of_nat PIPESIZE \<longleftrightarrow> pipe_len p = PIPESIZE"
proof
  assume "pp_nwrite p = pp_nread p + of_nat PIPESIZE"
  then show "pipe_len p = PIPESIZE" by (simp add: pipe_len_def)
next
  assume "pipe_len p = PIPESIZE"
  then have "of_nat (unat (pp_nwrite p - pp_nread p)) = (of_nat PIPESIZE :: index)" by (simp add: pipe_len_def)
  then show "pp_nwrite p = pp_nread p + of_nat PIPESIZE" by (simp add: algebra_simps)
qed

definition push :: "byte \<Rightarrow> pipe \<Rightarrow> pipe" where
  "push c p = p\<lparr>pp_data := (pp_data p)(unat (pp_nwrite p) mod PIPESIZE := c), pp_nwrite := pp_nwrite p + 1\<rparr>"

definition pop :: "pipe \<Rightarrow> pipe" where
  "pop p = p\<lparr>pp_nread := pp_nread p + 1\<rparr>"

lemma push_pop_open [simp]:
  "pp_readopen (push c p) = pp_readopen p" "pp_writeopen (push c p) = pp_writeopen p"
  "pp_readopen (pop p) = pp_readopen p" "pp_writeopen (pop p) = pp_writeopen p"
  by (simp_all add: push_def pop_def)

lemma push_queue:
  assumes "pipe_ok p" "pipe_len p \<noteq> PIPESIZE"
  shows "pipe_queue (push c p) = pipe_queue p @ [c]" "pipe_ok (push c p)" "pipe_len (push c p) = pipe_len p + 1"
proof -
  have k: "pipe_len p < PIPESIZE" using assms by (simp add: pipe_ok_def)
  then show l: "pipe_len (push c p) = pipe_len p + 1"
    using unat_index_Suc [of "pp_nwrite p" "pp_nread p"] by (simp add: pipe_len_def push_def)
  then show "pipe_ok (push c p)" using k by (simp add: pipe_ok_def)
  show "pipe_queue (push c p) = pipe_queue p @ [c]"
    using pipe_ring.seg_push [OF k, of "pp_data p" "pp_nread p" c] l index_of_dist [of "pp_nwrite p" "pp_nread p"]
    by (simp add: pipe_queue_def) (simp add: push_def pipe_len_def)
qed

lemma pop_queue:
  assumes "pipe_queue p \<noteq> []"
  shows "pipe_queue p = pp_data p (unat (pp_nread p) mod PIPESIZE) # pipe_queue (pop p)" "pipe_len p = Suc (pipe_len (pop p))"
proof -
  have ne: "pp_nwrite p \<noteq> pp_nread p" using assms pipe_empty [of p] by auto
  then have "pipe_len p \<noteq> 0" using unat_index_0 [of "pp_nwrite p" "pp_nread p"] by (simp add: pipe_len_def)
  moreover have "pipe_len (pop p) = pipe_len p - 1"
    using unat_index_next [OF ne] by (simp add: pipe_len_def pop_def)
  ultimately show l: "pipe_len p = Suc (pipe_len (pop p))" by simp
  then show "pipe_queue p = pp_data p (unat (pp_nread p) mod PIPESIZE) # pipe_queue (pop p)"
    by (simp add: pipe_queue_def ring_seg_Cons) (simp add: pop_def)
qed

text \<open>\<open>fold push cs\<close> and \<open>n\<close> times \<open>pop\<close> are what the loops do to the pipe.\<close>

lemma fold_push:
  assumes "pipe_ok p" "length cs \<le> PIPESIZE - pipe_len p"
  shows "pipe_queue (fold push cs p) = pipe_queue p @ cs" "pipe_ok (fold push cs p)"
    "pp_readopen (fold push cs p) = pp_readopen p" "pp_writeopen (fold push cs p) = pp_writeopen p"
    "pipe_len (fold push cs p) = pipe_len p + length cs"
proof -
  have "pipe_queue (fold push cs p) = pipe_queue p @ cs \<and> pipe_ok (fold push cs p) \<and>
    pp_readopen (fold push cs p) = pp_readopen p \<and> pp_writeopen (fold push cs p) = pp_writeopen p"
    using assms
  proof (induction cs arbitrary: p)
    case (Cons c cs)
    then have "pipe_len p \<noteq> PIPESIZE" by auto
    note q = push_queue [OF Cons.prems(1) this, of c]
    have "length cs \<le> PIPESIZE - pipe_len (push c p)" using Cons.prems(2) q(3) by simp
    then show ?case using Cons.IH [OF q(2)] q by simp
  qed simp
  then show "pipe_queue (fold push cs p) = pipe_queue p @ cs" "pipe_ok (fold push cs p)"
    "pp_readopen (fold push cs p) = pp_readopen p" "pp_writeopen (fold push cs p) = pp_writeopen p" by simp_all
  then show "pipe_len (fold push cs p) = pipe_len p + length cs"
    using length_pipe_queue [of "fold push cs p"] by (simp del: length_pipe_queue) simp
qed

lemma pops:
  "n \<le> pipe_len p \<Longrightarrow> pipe_queue p = take n (pipe_queue p) @ pipe_queue ((pop ^^ n) p) \<and>
   pp_readopen ((pop ^^ n) p) = pp_readopen p \<and> pp_writeopen ((pop ^^ n) p) = pp_writeopen p"
proof (induction n)
  case (Suc n)
  let ?p = "(pop ^^ n) p"
  have e: "pipe_queue p = take n (pipe_queue p) @ pipe_queue ?p" using Suc by simp
  have "length (pipe_queue ?p) = pipe_len p - n"
    using arg_cong [OF e, of length] Suc.prems by (simp del: length_pipe_queue) simp
  then have "length (pipe_queue ?p) \<noteq> 0" using Suc.prems by simp
  then have "pipe_queue ?p \<noteq> []" by (metis list.size(3))
  note q = pop_queue(1) [OF this]
  let ?c = "pp_data ?p (unat (pp_nread ?p) mod PIPESIZE)"
  have "pipe_queue p = (take n (pipe_queue p) @ [?c]) @ pipe_queue (pop ?p)" using e q by simp
  moreover have "take (Suc n) (pipe_queue p) = take n (pipe_queue p) @ [?c]"
  proof -
    have "pipe_queue p ! n = ?c" using Suc.prems by (subst e, subst q) (simp add: nth_append)
    then show ?thesis using Suc.prems by (simp add: take_Suc_conv_app_nth)
  qed
  ultimately show ?case using Suc by simp
qed simp

lemma upd_pipe_simps [simp]:
  "pipes (upd_pipe a f s) = (pipes s)(a := f (pipes s a))" "ptable (upd_pipe a f s) = ptable s"
  "curproc (upd_pipe a f s) = curproc s" "myproc (upd_pipe a f s) = myproc s"
  "upd_pipe a f (upd_pipe a g s) = upd_pipe a (f \<circ> g) s"
  by (simp_all add: upd_pipe_def myproc_def)

lemma upd_pipe_id: "upd_pipe a (\<lambda>p. p) s = s"
  by (simp add: upd_pipe_def)

definition asleep :: "chan \<Rightarrow> 'a proc_state_scheme \<Rightarrow> 'a proc_state_scheme" where
  "asleep c s = upd_proc (curproc s) (\<lambda>p. p\<lparr>p_chan := Some c, p_state := SLEEPING\<rparr>) s"

lemma run_simps:
  "kreturn x s = Done x s" "kget g s = Done (g s) s" "kmodify h s = Done () (h s)" "wakeup c s' = Done () (wake_all c s')"
  "kseq f k s = (case f s of Done _ t \<Rightarrow> k t | Panic m \<Rightarrow> Panic m | Sleep c t \<Rightarrow> Sleep c t)"
  "kbind f' k' s = (case f' s of Done y t \<Rightarrow> k' y t | Panic m \<Rightarrow> Panic m | Sleep c t \<Rightarrow> Sleep c t)"
  by (simp_all add: kreturn_def kget_def kmodify_def wakeup_Done kseq_def kbind_def)

text \<open>One stretch of \<open>pipewrite\<close> writes as much as fits.\<close>

lemma pipewrite_loop_run:
  fixes s :: "'a file_state_scheme" and cs :: "byte list"
  assumes "pipe_ok (pipes s a)"
  defines "k \<equiv> min (length cs) (PIPESIZE - pipe_len (pipes s a))"
  defines "t \<equiv> upd_pipe a (fold push (take k cs)) s"
  shows "pipewrite_loop a cs s =
    (if k = length cs then Done (Inr True) t
     else if \<not> pp_readopen (pipes s a) \<or> p_killed (myproc s) then Done (Inr False) t
     else Done (Inl (drop k cs)) (asleep (Chan_nwrite a) (wake_all (Chan_nread a) t)))"
  using assms(1) unfolding k_def t_def
proof (induction cs arbitrary: s)
  case Nil
  then show ?case by (simp add: run_simps upd_pipe_def id_def)
next
  case (Cons c cs)
  show ?case
  proof (cases "pipe_len (pipes s a) = PIPESIZE")
    case True
    then show ?thesis
      using pipe_full [of "pipes s a"]
      by (simp add: run_simps Let_def fall_asleep_def asleep_def upd_pipe_id id_def)
  next
    case False
    note q = push_queue [OF Cons.prems False, of c]
    let ?u = "upd_pipe a (push c) s"
    have "pipe_ok (pipes ?u a)" using q by simp
    note IH = Cons.IH [OF this]
    have len: "pipe_len (pipes s a) < PIPESIZE" using Cons.prems False by (simp add: pipe_ok_def)
    then have m: "min (length (c # cs)) (PIPESIZE - pipe_len (pipes s a)) =
        Suc (min (length cs) (PIPESIZE - pipe_len (push c (pipes s a))))" using q(3) by simp
    have "pipewrite_loop a (c # cs) s = pipewrite_loop a cs ?u"
      using False pipe_full [of "pipes s a"] by (simp add: run_simps Let_def push_def [abs_def])
    then show ?thesis unfolding m IH by (simp add: comp_def)
  qed
qed

lemma piperead_loop_run:
  fixes s :: "'a file_state_scheme" and n :: nat
  assumes "pipe_ok (pipes s a)"
  defines "k \<equiv> min n (pipe_len (pipes s a))"
  shows "piperead_loop a n s = Done (take n (pipe_queue (pipes s a))) (upd_pipe a (pop ^^ k) s)"
  using assms(1) unfolding k_def
proof (induction n arbitrary: s)
  case 0
  then show ?case by (simp add: run_simps upd_pipe_def id_def)
next
  case (Suc n)
  show ?case
  proof (cases "pipe_queue (pipes s a) = []")
    case True
    then have "pipe_len (pipes s a) = 0" using length_pipe_queue [of "pipes s a"] by simp
    then show ?thesis using True pipe_empty [of "pipes s a"] by (simp add: run_simps upd_pipe_id id_def)
  next
    case False
    note q = pop_queue [OF False]
    let ?u = "upd_pipe a pop s"
    have "pipe_ok (pipes ?u a)" using Suc.prems q(2) by (simp add: pipe_ok_def)
    note IH = Suc.IH [OF this]
    have "piperead_loop a (Suc n) s = (case piperead_loop a n ?u of
        Done bs t \<Rightarrow> Done (pp_data (pipes s a) (unat (pp_nread (pipes s a)) mod PIPESIZE) # bs) t
      | Panic m \<Rightarrow> Panic m | Sleep c t \<Rightarrow> Sleep c t)"
      using False pipe_empty [of "pipes s a"] by (simp add: run_simps pop_def [abs_def] split: outcome.splits)
    then show ?thesis
      unfolding IH using q(2) by (subst q(1)) (simp add: funpow_swap1 comp_def)
  qed
qed

section \<open>A writer and a reader\<close>

text \<open>A process writes \<open>N\<close> bytes with one call; another one reads again and again, \<open>n\<close> bytes at a time.  \<open>todo\<close> is
  what the writing call still has to write, \<open>None\<close> once it has returned; \<open>got\<close> is what the reader has received.
  A turn of a process goes from the scheduler's choice of it to the next sleep or return.\<close>

record 'a pipe_sys =
  ps :: "'a file_state_scheme"
  todo :: "byte list option"
  got :: "byte list"

definition dispatch :: "nat \<Rightarrow> ('a proc_state_scheme, unit) kernel" where
  "dispatch i = kseq (kmodify (\<lambda>s. upd_proc i (\<lambda>p. p\<lparr>p_state := RUNNING\<rparr>) (s\<lparr>curproc := i\<rparr>))) sleep_resume"

definition write_turn :: "nat \<Rightarrow> nat \<Rightarrow> nat \<Rightarrow> 'a pipe_sys \<Rightarrow> 'a pipe_sys option" where
  "write_turn a w N c =
     (case todo c of
        None \<Rightarrow> None
      | Some rest \<Rightarrow>
          if p_state (ptable (ps c) w) \<noteq> RUNNABLE then None
          else case kseq (dispatch w) (pipewrite_resume a N rest) (ps c) of
            Done (Inl rest') t \<Rightarrow> Some (c\<lparr>ps := t, todo := Some rest'\<rparr>)
          | Done (Inr r) t \<Rightarrow> Some (c\<lparr>ps := t, todo := None\<rparr>)
          | _ \<Rightarrow> None)"

definition read_turn :: "nat \<Rightarrow> nat \<Rightarrow> nat \<Rightarrow> 'a pipe_sys \<Rightarrow> 'a pipe_sys option" where
  "read_turn a r n c =
     (if p_state (ptable (ps c) r) \<noteq> RUNNABLE then None
      else case kseq (dispatch r) (piperead a n) (ps c) of
        Done (Inl _) t \<Rightarrow> Some (c\<lparr>ps := t\<rparr>)
      | Done (Inr (k, bs)) t \<Rightarrow>
          (case yield t of Done _ u \<Rightarrow> Some (c\<lparr>ps := u, got := got c @ bs\<rparr>) | _ \<Rightarrow> None)
      | _ \<Rightarrow> None)"

inductive pipe_step :: "nat \<Rightarrow> nat \<Rightarrow> nat \<Rightarrow> nat \<Rightarrow> nat \<Rightarrow> 'a pipe_sys \<Rightarrow> 'a pipe_sys \<Rightarrow> bool"
  for a w r n N where
  writes: "write_turn a w N c = Some c' \<Longrightarrow> pipe_step a w r n N c c'"
| reads: "read_turn a r n c = Some c' \<Longrightarrow> pipe_step a w r n N c c'"

definition left :: "'a pipe_sys \<Rightarrow> byte list" where
  "left c = (case todo c of None \<Rightarrow> [] | Some rest \<Rightarrow> rest)"

definition pipe_sys_inv :: "nat \<Rightarrow> nat \<Rightarrow> nat \<Rightarrow> byte list \<Rightarrow> 'a pipe_sys \<Rightarrow> bool" where
  "pipe_sys_inv a w r bs c \<longleftrightarrow>
     (let s = ps c; p = pipes s a; pw = ptable s w; pr = ptable s r in
      w \<noteq> r \<and> w < NPROC \<and> r < NPROC \<and> pipe_ok p \<and> pp_readopen p \<and> pp_writeopen p \<and>
      \<not> p_killed pw \<and> \<not> p_killed pr \<and> got c @ pipe_queue p @ left c = bs \<and>
      (todo c \<noteq> None \<longrightarrow> p_state pw = RUNNABLE \<or>
         p_state pw = SLEEPING \<and> p_chan pw = Some (Chan_nwrite a) \<and> pipe_len p = PIPESIZE) \<and>
      (p_state pr = RUNNABLE \<or> p_state pr = SLEEPING \<and> p_chan pr = Some (Chan_nread a) \<and> pipe_len p = 0))"

lemma pipe_sys_invI:
  assumes "w \<noteq> r" "w < NPROC" "r < NPROC" "pipe_ok (pipes (ps c) a)" "pp_readopen (pipes (ps c) a)"
    "pp_writeopen (pipes (ps c) a)" "\<not> p_killed (ptable (ps c) w)" "\<not> p_killed (ptable (ps c) r)"
    "got c @ pipe_queue (pipes (ps c) a) @ left c = bs"
    "todo c \<noteq> None \<Longrightarrow> p_state (ptable (ps c) w) = RUNNABLE \<or> p_state (ptable (ps c) w) = SLEEPING \<and>
      p_chan (ptable (ps c) w) = Some (Chan_nwrite a) \<and> pipe_len (pipes (ps c) a) = PIPESIZE"
    "p_state (ptable (ps c) r) = RUNNABLE \<or> p_state (ptable (ps c) r) = SLEEPING \<and>
      p_chan (ptable (ps c) r) = Some (Chan_nread a) \<and> pipe_len (pipes (ps c) a) = 0"
  shows "pipe_sys_inv a w r bs c"
  using assms unfolding pipe_sys_inv_def Let_def by blast

definition pipe_measure :: "nat \<Rightarrow> nat \<Rightarrow> nat \<Rightarrow> 'a pipe_sys \<Rightarrow> nat" where
  "pipe_measure a w r c = 2 * (2 * length (left c) + pipe_len (pipes (ps c) a)) + (if todo c = None then 0 else 2) +
     (if todo c \<noteq> None \<and> p_state (ptable (ps c) w) = RUNNABLE then 1 else 0) +
     (if p_state (ptable (ps c) r) = RUNNABLE then 1 else 0)"

definition dispatched :: "nat \<Rightarrow> 'a proc_state_scheme \<Rightarrow> 'a proc_state_scheme" where
  "dispatched i s = upd_proc i (\<lambda>p. p\<lparr>p_state := RUNNING, p_chan := None\<rparr>) (s\<lparr>curproc := i\<rparr>)"

lemma dispatch_run: "dispatch i s = Done () (dispatched i s)"
  by (simp add: dispatch_def sleep_resume_def dispatched_def run_simps upd_proc_def)

lemma dispatched_sel [simp]:
  "curproc (dispatched i s) = i" "ptable (dispatched i s) = (ptable s)(i := (ptable s i)\<lparr>p_state := RUNNING, p_chan := None\<rparr>)"
  "pipes (dispatched i t) = pipes t"
  by (simp_all add: dispatched_def upd_proc_def)

lemma asleep_sel [simp]:
  "ptable (asleep c s) = (ptable s)(curproc s := (ptable s (curproc s))\<lparr>p_chan := Some c, p_state := SLEEPING\<rparr>)"
  "pipes (asleep c t) = pipes t" "curproc (asleep c s) = curproc s"
  by (simp_all add: asleep_def upd_proc_def)

lemma wake_all_sel:
  "ptable (wake_all c s) i = (if i < NPROC then wakeup1_proc c (ptable s i) else ptable s i)"
  "pipes (wake_all c t) = pipes t" "curproc (wake_all c s) = curproc s"
  by (simp_all add: wake_all_def wake_table_def)

lemma write_turn_ok:
  fixes c :: "'a pipe_sys"
  assumes inv: "pipe_sys_inv a w r bs c" and todo: "todo c = Some rest" and run: "p_state (ptable (ps c) w) = RUNNABLE"
  shows "\<exists>c'. write_turn a w N c = Some c' \<and> pipe_sys_inv a w r bs c' \<and> pipe_measure a w r c' < pipe_measure a w r c"
proof -
  let ?s = "ps c" and ?p = "pipes (ps c) a" and ?d = "dispatched w (ps c)"
  have I: "w \<noteq> r" "w < NPROC" "r < NPROC" "pipe_ok ?p" "pp_readopen ?p" "pp_writeopen ?p"
    "\<not> p_killed (ptable ?s w)" "\<not> p_killed (ptable ?s r)" "got c @ pipe_queue ?p @ rest = bs"
    "p_state (ptable ?s r) = RUNNABLE \<or> p_state (ptable ?s r) = SLEEPING \<and> p_chan (ptable ?s r) = Some (Chan_nread a) \<and> pipe_len ?p = 0"
    using inv todo by (simp_all add: pipe_sys_inv_def Let_def left_def)
  define k where "k = min (length rest) (PIPESIZE - pipe_len ?p)"
  let ?t = "upd_pipe a (fold push (take k rest)) ?d"
  have km: "length (take k rest) \<le> PIPESIZE - pipe_len ?p" by (simp add: k_def)
  note fp = fold_push [OF I(4) km]
  have loop: "pipewrite_loop a rest ?d =
    (if k = length rest then Done (Inr True) ?t
     else Done (Inl (drop k rest)) (asleep (Chan_nwrite a) (wake_all (Chan_nread a) ?t)))"
    using pipewrite_loop_run [of ?d a rest] I by (simp add: k_def myproc_def)
  show ?thesis
  proof (cases "k = length rest")
    case True
    let ?c = "c\<lparr>ps := wake_all (Chan_nread a) ?t, todo := None\<rparr>"
    have "write_turn a w N c = Some ?c"
      using todo run loop True by (simp add: write_turn_def run_simps dispatch_run pipewrite_resume_def)
    moreover have "pipe_sys_inv a w r bs ?c"
      by (rule pipe_sys_invI) (use I fp True in \<open>auto simp: wake_all_sel wakeup1_proc_def left_def\<close>)
    moreover have "pipe_measure a w r ?c < pipe_measure a w r c"
      using todo run fp(5) True I(10) by (auto simp: pipe_measure_def left_def wake_all_sel k_def)
    ultimately show ?thesis by blast
  next
    case False
    let ?c = "c\<lparr>ps := asleep (Chan_nwrite a) (wake_all (Chan_nread a) ?t), todo := Some (drop k rest)\<rparr>"
    have k: "k = PIPESIZE - pipe_len ?p" "k < length rest" using False by (auto simp: k_def)
    have full: "pipe_len (fold push (take k rest) ?p) = PIPESIZE" using fp(5) k I(4) by (simp add: pipe_ok_def)
    have "write_turn a w N c = Some ?c"
      using todo run loop False by (simp add: write_turn_def run_simps dispatch_run pipewrite_resume_def)
    moreover have "pipe_sys_inv a w r bs ?c"
      by (rule pipe_sys_invI) (use I fp full in \<open>auto simp: wake_all_sel wakeup1_proc_def left_def\<close>)
    moreover have "pipe_measure a w r ?c < pipe_measure a w r c"
      using todo run full k I(1,4,10) by (auto simp: pipe_measure_def left_def wake_all_sel pipe_ok_def)
    ultimately show ?thesis by blast
  qed
qed

lemma read_turn_ok:
  fixes c :: "'a pipe_sys"
  assumes inv: "pipe_sys_inv a w r bs c" and run: "p_state (ptable (ps c) r) = RUNNABLE" and n: "0 < n"
  shows "\<exists>c'. read_turn a r n c = Some c' \<and> pipe_sys_inv a w r bs c' \<and> pipe_measure a w r c' < pipe_measure a w r c"
proof -
  let ?s = "ps c" and ?p = "pipes (ps c) a" and ?d = "dispatched r (ps c)"
  have I: "w \<noteq> r" "w < NPROC" "r < NPROC" "pipe_ok ?p" "pp_readopen ?p" "pp_writeopen ?p"
    "\<not> p_killed (ptable ?s w)" "\<not> p_killed (ptable ?s r)" "got c @ pipe_queue ?p @ left c = bs"
    "todo c \<noteq> None \<Longrightarrow> p_state (ptable ?s w) = RUNNABLE \<or>
      p_state (ptable ?s w) = SLEEPING \<and> p_chan (ptable ?s w) = Some (Chan_nwrite a) \<and> pipe_len ?p = PIPESIZE"
    using inv by (simp_all add: pipe_sys_inv_def Let_def)
  show ?thesis
  proof (cases "pipe_queue ?p = []")
    case True
    let ?c = "c\<lparr>ps := asleep (Chan_nread a) ?d\<rparr>"
    have l: "pipe_len ?p = 0" using True length_pipe_queue [of ?p] by simp
    have "piperead a n ?d = Done (Inl ()) (asleep (Chan_nread a) ?d)"
      using True I pipe_empty [of ?p] by (simp add: piperead_def run_simps Let_def fall_asleep_def asleep_def myproc_def)
    then have "read_turn a r n c = Some ?c"
      using run by (simp add: read_turn_def run_simps dispatch_run)
    moreover have "pipe_sys_inv a w r bs ?c"
      by (rule pipe_sys_invI) (use I l in \<open>auto simp: left_def\<close>)
    moreover have "pipe_measure a w r ?c < pipe_measure a w r c"
      using run I(1) by (auto simp: pipe_measure_def left_def)
    ultimately show ?thesis by blast
  next
    case False
    define k where "k = min n (pipe_len ?p)"
    have l: "0 < pipe_len ?p" using False length_pipe_queue [of ?p] by (metis length_greater_0_conv)
    then have k: "0 < k" "k \<le> pipe_len ?p" using n by (simp_all add: k_def)
    let ?t = "wake_all (Chan_nwrite a) (upd_pipe a (pop ^^ k) ?d)"
    let ?u = "upd_proc r (\<lambda>p. p\<lparr>p_state := RUNNABLE\<rparr>) ?t"
    let ?c = "c\<lparr>ps := ?u, got := got c @ take n (pipe_queue ?p)\<rparr>"
    note q = pops [OF k(2)]
    have tk: "take n (pipe_queue ?p) = take k (pipe_queue ?p)" by (simp add: k_def min_def)
    have lk: "pipe_len ((pop ^^ k) ?p) + k = pipe_len ?p"
      using arg_cong [OF conjunct1 [OF q], of length] k(2) by (simp del: length_pipe_queue) simp
    have "piperead a n ?d = Done (Inr (int (length (take n (pipe_queue ?p))), take n (pipe_queue ?p))) ?t"
      using piperead_loop_run [of ?d a n] False I(4) pipe_empty [of ?p]
      by (simp add: piperead_def run_simps Let_def k_def)
    then have "read_turn a r n c = Some ?c"
      using run by (simp add: read_turn_def run_simps dispatch_run yield_def wake_all_sel)
    moreover have "pipe_sys_inv a w r bs ?c"
    proof (rule pipe_sys_invI)
      show "got ?c @ pipe_queue (pipes (ps ?c) a) @ left ?c = bs"
        using I(9) q tk by (simp add: wake_all_sel upd_proc_def left_def) (metis append.assoc)
      show "pipe_ok (pipes (ps ?c) a)" using I(4) lk by (simp add: wake_all_sel upd_proc_def pipe_ok_def)
    qed (use I q in \<open>auto simp: wake_all_sel wakeup1_proc_def upd_proc_def\<close>)
    moreover have "pipe_measure a w r ?c < pipe_measure a w r c"
      using run I(1) lk k(1) by (auto simp: pipe_measure_def left_def wake_all_sel upd_proc_def)
    ultimately show ?thesis by blast
  qed
qed

lemma pipe_step_inv:
  assumes "pipe_sys_inv a w r bs c" "pipe_step a w r n N c d" "0 < n"
  shows "pipe_sys_inv a w r bs d \<and> pipe_measure a w r d < pipe_measure a w r c"
  using assms(2)
proof cases
  case writes
  then obtain rest where "todo c = Some rest" "p_state (ptable (ps c) w) = RUNNABLE"
    by (auto simp: write_turn_def split: option.splits if_splits)
  then show ?thesis using write_turn_ok [OF assms(1), of rest N] writes by auto
next
  case reads
  then have "p_state (ptable (ps c) r) = RUNNABLE" by (auto simp: read_turn_def split: if_splits)
  then show ?thesis using read_turn_ok [OF assms(1) _ assms(3)] reads by auto
qed

lemma pipe_steps_inv:
  assumes "(pipe_step a w r n N)\<^sup>*\<^sup>* c d" "pipe_sys_inv a w r bs c" "0 < n"
  shows "pipe_sys_inv a w r bs d"
  using assms by (induction rule: rtranclp_induct) (auto dest: pipe_step_inv)

lemma pipe_sys_stuck:
  assumes inv: "pipe_sys_inv a w r bs d" and n: "0 < n" and stuck: "\<And>e. \<not> pipe_step a w r n N d e"
  shows "got d = bs" "todo d = None"
proof -
  have r: "p_state (ptable (ps d) r) \<noteq> RUNNABLE"
    using read_turn_ok [OF inv _ n] stuck by (blast intro: pipe_step.reads)
  then have e: "pipe_len (pipes (ps d) a) = 0" using inv by (auto simp: pipe_sys_inv_def Let_def)
  show t: "todo d = None"
  proof (rule ccontr)
    assume t: "todo d \<noteq> None"
    then have "p_state (ptable (ps d) w) \<noteq> RUNNABLE"
      using write_turn_ok [OF inv, of _ N] stuck by (blast intro: pipe_step.writes)
    then show False using inv t e by (auto simp: pipe_sys_inv_def Let_def)
  qed
  have "pipe_queue (pipes (ps d) a) = []" using e pipe_len_0 by blast
  then show "got d = bs" using inv t by (simp add: pipe_sys_inv_def Let_def left_def)
qed

text \<open>The system before the transfer: the pipe is open and empty and both processes are ready to run.\<close>

definition pipe_start :: "nat \<Rightarrow> nat \<Rightarrow> nat \<Rightarrow> byte list \<Rightarrow> 'a pipe_sys \<Rightarrow> bool" where
  "pipe_start a w r bs c \<longleftrightarrow>
     w \<noteq> r \<and> w < NPROC \<and> r < NPROC \<and> pp_nread (pipes (ps c) a) = pp_nwrite (pipes (ps c) a) \<and>
     pp_readopen (pipes (ps c) a) \<and> pp_writeopen (pipes (ps c) a) \<and>
     (\<forall>i \<in> {w, r}. \<not> p_killed (ptable (ps c) i) \<and> p_state (ptable (ps c) i) = RUNNABLE) \<and>
     todo c = Some bs \<and> got c = []"

lemma pipe_start_inv: "pipe_start a w r bs c \<Longrightarrow> pipe_sys_inv a w r bs c"
  using pipe_empty [of "pipes (ps c) a"] length_pipe_queue [of "pipes (ps c) a"]
  by (intro pipe_sys_invI) (auto simp: pipe_start_def left_def pipe_ok_def pipe_len_def)

text \<open>C6: In every interleaving of the turns of a writer and a reader, what the reader has got, then what the pipe
  holds, then what is left to write is what the writer was asked to write; the pipe never holds more than 512
  bytes; and no wakeup is lost: a writer that sleeps inside its call leaves a full pipe and a reader that can
  run, and a reader that sleeps leaves an empty pipe.\<close>

theorem pipe_fifo:
  fixes c :: "'a pipe_sys"
  assumes "pipe_start a w r bs c" and "(pipe_step a w r n N)\<^sup>*\<^sup>* c d" and "0 < n"
  shows "got d @ pipe_queue (pipes (ps d) a) @ (case todo d of None \<Rightarrow> [] | Some rest \<Rightarrow> rest) = bs \<and>
    length (pipe_queue (pipes (ps d) a)) \<le> PIPESIZE \<and>
    (todo d \<noteq> None \<and> p_state (ptable (ps d) w) = SLEEPING \<longrightarrow>
      length (pipe_queue (pipes (ps d) a)) = PIPESIZE \<and> p_state (ptable (ps d) r) = RUNNABLE) \<and>
    (p_state (ptable (ps d) r) = SLEEPING \<longrightarrow> pipe_queue (pipes (ps d) a) = [])"
proof -
  have "pipe_sys_inv a w r bs d" by (rule pipe_steps_inv [OF assms(2) pipe_start_inv [OF assms(1)] assms(3)])
  then show ?thesis by (auto simp: pipe_sys_inv_def Let_def left_def pipe_ok_def simp flip: pipe_len_0)
qed

text \<open>C5: A transfer through a pipe always ends and delivers everything: however the turns of the two processes are
  scheduled there is no infinite sequence of turns, and when no turn is possible any more the writing call has
  returned and the reader has got exactly the bytes written.\<close>

theorem pipe_delivers:
  fixes c :: "'a pipe_sys"
  assumes "pipe_start a w r bs c" and "0 < n"
  shows "(\<nexists>f. f 0 = c \<and> (\<forall>i. pipe_step a w r n N (f i) (f (Suc i)))) \<and>
    (\<forall>d. (pipe_step a w r n N)\<^sup>*\<^sup>* c d \<and> (\<nexists>e. pipe_step a w r n N d e) \<longrightarrow> got d = bs \<and> todo d = None)"
proof (intro conjI allI impI)
  note inv = pipe_start_inv [OF assms(1)]
  show "\<nexists>f. f 0 = c \<and> (\<forall>i. pipe_step a w r n N (f i) (f (Suc i)))"
  proof
    assume "\<exists>f. f 0 = c \<and> (\<forall>i. pipe_step a w r n N (f i) (f (Suc i)))"
    then obtain f where f: "f 0 = c" "\<And>i. pipe_step a w r n N (f i) (f (Suc i))" by blast
    have "pipe_sys_inv a w r bs (f i) \<and> pipe_measure a w r (f i) + i \<le> pipe_measure a w r c" for i
    proof (induction i)
      case (Suc i)
      then show ?case using pipe_step_inv [of a w r bs "f i" n N, OF _ f(2) assms(2)] by auto
    qed (simp add: f(1) inv)
    from this [of "Suc (pipe_measure a w r c)"] show False by simp
  qed
  fix d assume d: "(pipe_step a w r n N)\<^sup>*\<^sup>* c d \<and> (\<nexists>e. pipe_step a w r n N d e)"
  then have "pipe_sys_inv a w r bs d" using pipe_steps_inv [OF _ inv assms(2)] by blast
  then show "got d = bs" "todo d = None" using pipe_sys_stuck [of a w r bs d n N] assms(2) d by blast+
qed

text \<open>Two processes and a pipe whose indices are about to wrap around.\<close>

definition demo_pipe :: "unit pipe_sys" where
  "demo_pipe = \<lparr>ps = cons_state.extend (demo_cons\<lparr>ptable := (\<lambda>_. zero_proc\<lparr>p_state := RUNNABLE\<rparr>)\<rparr>)
     (file_state.fields (\<lambda>_. \<lparr>f_type = FD_NONE, f_ref = 0, f_readable = False, f_writable = False, f_pipe = 0, f_ip = 0, f_off = 0\<rparr>)
       (\<lambda>_. \<lparr>pp_data = \<lambda>_. 0, pp_nread = - 1, pp_nwrite = - 1, pp_readopen = True, pp_writeopen = True\<rparr>)),
     todo = Some [104, 105], got = []\<rparr>"

lemma demo_pipe_start: "pipe_start 4096 1 2 [104, 105] demo_pipe"
  by (simp add: pipe_start_def demo_pipe_def demo_cons_def cons_state.defs fs_state.defs file_state.defs zero_proc_def)

theorem pipe_fifo_witness:
  "\<exists>d. (pipe_step 4096 1 2 1 2)\<^sup>*\<^sup>* demo_pipe d \<and> d \<noteq> demo_pipe \<and>
     got d @ pipe_queue (pipes (ps d) 4096) @ (case todo d of None \<Rightarrow> [] | Some rest \<Rightarrow> rest) = [104, 105]"
proof -
  have "todo demo_pipe = Some [104, 105]" "p_state (ptable (ps demo_pipe) 1) = RUNNABLE"
    by (simp_all add: demo_pipe_def demo_cons_def cons_state.defs fs_state.defs)
  then obtain d where d: "write_turn 4096 1 2 demo_pipe = Some d" "pipe_measure 4096 1 2 d < pipe_measure 4096 1 2 demo_pipe"
    using write_turn_ok [OF pipe_start_inv [OF demo_pipe_start], of _ 2] by blast
  then have "(pipe_step 4096 1 2 1 2)\<^sup>*\<^sup>* demo_pipe d" "d \<noteq> demo_pipe" by (auto intro: pipe_step.writes)
  then show ?thesis using pipe_fifo [OF demo_pipe_start, of 1 2 d] by auto
qed

theorem pipe_delivers_witness:
  "\<nexists>f. f 0 = demo_pipe \<and> (\<forall>i. pipe_step 4096 1 2 1 2 (f i) (f (Suc i)))"
  using pipe_delivers [OF demo_pipe_start, of 1 2] by simp

end
