(* ===== verification/Inode.thy ===== *)
theory Inode
  imports Fs
begin

text \<open>
  What the contents of files are, and that \<open>bmap\<close>, \<open>readi\<close> and \<open>writei\<close> implement reading and writing them.  The
  content of an inode is a function of the blocks readers see (\<open>view\<close>): file block \<open>k\<close> is disk block
  \<open>iblock\<close>, found directly in the inode or through its indirect block.
\<close>

section \<open>Contents\<close>

definition iblock :: "(nat \<Rightarrow> byte list) \<Rightarrow> dinode \<Rightarrow> nat \<Rightarrow> nat" where
  "iblock v d k =
     (if k < NDIRECT then d_addrs d ! k
      else if d_addrs d ! NDIRECT = 0 then 0
      else u32_at (v (d_addrs d ! NDIRECT)) (k - NDIRECT))"

definition file_byte :: "(nat \<Rightarrow> byte list) \<Rightarrow> dinode \<Rightarrow> nat \<Rightarrow> byte" where
  "file_byte v d p = v (iblock v d (p div BSIZE)) ! (p mod BSIZE)"

definition file_bytes :: "(nat \<Rightarrow> byte list) \<Rightarrow> dinode \<Rightarrow> nat \<Rightarrow> nat \<Rightarrow> byte list" where
  "file_bytes v d off n = map (file_byte v d) [off..<off + n]"

text \<open>File block \<open>k\<close> is there.\<close>

definition mapped :: "(nat \<Rightarrow> byte list) \<Rightarrow> dinode \<Rightarrow> nat \<Rightarrow> bool" where
  "mapped v d k \<longleftrightarrow> k < MAXFILE \<and> iblock v d k \<noteq> 0 \<and> iblock v d k < FSSIZE \<and>
     (NDIRECT \<le> k \<longrightarrow> d_addrs d ! NDIRECT < FSSIZE)"

lemma length_file_bytes [simp]: "length (file_bytes v d off n) = n"
  by (simp add: file_bytes_def)

lemma file_bytes_0 [simp]: "file_bytes v d off 0 = []"
  by (simp add: file_bytes_def)

lemma upt_append: "i \<le> j \<Longrightarrow> j \<le> k \<Longrightarrow> [i..<k] = [i..<j] @ [j..<k]" for i j k :: nat
  using upt_add_eq_append [of i j "k - j"] by simp

lemma file_bytes_split: "m \<le> n \<Longrightarrow> file_bytes v d off n = file_bytes v d off m @ file_bytes v d (off + m) (n - m)"
  using upt_append [of off "off + m" "off + n"] by (simp add: file_bytes_def)

text \<open>The part of a block a single round of the loops handles.\<close>

lemma same_block:
  fixes off m :: nat
  assumes "j < m" "m \<le> BSIZE - off mod BSIZE"
  shows "(off + j) div BSIZE = off div BSIZE" "(off + j) mod BSIZE = off mod BSIZE + j"
proof -
  have "off mod BSIZE + j < BSIZE" using assms by simp
  moreover have "off + j = off div BSIZE * BSIZE + (off mod BSIZE + j)" by simp
  ultimately show "(off + j) div BSIZE = off div BSIZE" "(off + j) mod BSIZE = off mod BSIZE + j"
    by (metis add.right_neutral div_less div_mult_self3 zero_neq_numeral add.commute,
        metis mod_less mod_mult_self3)
qed

lemma file_bytes_block:
  assumes "m \<le> BSIZE - off mod BSIZE" "length (v (iblock v d (off div BSIZE))) = BSIZE"
  shows "file_bytes v d off m = bslice (off mod BSIZE) m (v (iblock v d (off div BSIZE)))"
proof (rule nth_equalityI)
  show "length (file_bytes v d off m) = length (bslice (off mod BSIZE) m (v (iblock v d (off div BSIZE))))"
    using assms by (simp add: length_bslice_fit)
  fix j assume "j < length (file_bytes v d off m)"
  then have j: "j < m" by simp
  then show "file_bytes v d off m ! j = bslice (off mod BSIZE) m (v (iblock v d (off div BSIZE))) ! j"
    using same_block [OF j assms(1)] assms by (simp add: file_bytes_def file_byte_def nth_bslice)
qed

section \<open>Reading\<close>

lemma bmap_mapped_wp:
  fixes s :: "'a fs_state_scheme"
  assumes "tx_inv s" "held s = {}" "i_dev (icache s i) = ROOTDEV"
    and m: "mapped (view s) (i_din (icache s i)) k"
    and Q: "\<And>t. tx_to (view s) (log_lh s) s t \<Longrightarrow> Q (iblock (view s) (i_din (icache s i)) k) t"
  shows "wp (bmap i k) Q s"
proof (cases "k < NDIRECT")
  case True
  then show ?thesis
    using m Q tx_to_refl [OF assms(1)] by (simp add: bmap_def addr_slot_def mapped_def iblock_def Let_def)
next
  case False
  let ?d = "i_din (icache s i)" and ?a = "d_addrs (i_din (icache s i)) ! NDIRECT"
  have a: "?a \<noteq> 0" "?a < FSSIZE" "k - NDIRECT < NINDIRECT" "u32_at (view s ?a) (k - NDIRECT) \<noteq> 0"
    "iblock (view s) ?d k = u32_at (view s ?a) (k - NDIRECT)"
    using m False by (auto simp: mapped_def iblock_def split: if_splits)
  show ?thesis
    unfolding bmap_def Let_def
    apply (simp add: False a addr_slot_def assms(3) Let_def)
    apply (rule tx_bread [OF assms(1) a(2)])
    subgoal using assms(2) by simp
    subgoal using buf_roomI0 [OF assms(1,2)] by simp
    apply (rule tx_get, assumption)
    apply (simp add: a)
    apply (rule tx_close [OF assms(1)], assumption)
    using Q a by auto
qed

text \<open>All file blocks that the bytes \<open>off\<close>, \<open>\<dots>\<close>, \<open>off + n - 1\<close> touch are there.\<close>

definition range_mapped :: "(nat \<Rightarrow> byte list) \<Rightarrow> dinode \<Rightarrow> nat \<Rightarrow> nat \<Rightarrow> bool" where
  "range_mapped v d off n \<longleftrightarrow> (\<forall>p. off \<le> p \<and> p < off + n \<longrightarrow> mapped v d (p div BSIZE))"

lemma readi_loop_wp:
  fixes s :: "'a cons_state_scheme"
  assumes "tx_inv s" "held s = {}" "i_dev (icache s i) = ROOTDEV"
    and m: "range_mapped (view s) (i_din (icache s i)) off n"
    and Q: "\<And>t. tx_to (view s) (log_lh s) s t \<Longrightarrow> Q (file_bytes (view s) (i_din (icache s i)) off n) t"
  shows "wp (readi_loop i off n) Q s"
  using assms
proof (induction i off n arbitrary: s Q rule: readi_loop.induct)
  case (1 i off n)
  let ?v = "view s" and ?d = "i_din (icache s i)"
  show ?case
  proof (cases "n = 0")
    case True
    then show ?thesis using "1.prems"(1,5) tx_to_refl [OF "1.prems"(1)] by (simp add: readi_loop.simps [of i off 0])
  next
    case False
    define m where "m = min n (BSIZE - off mod BSIZE)"
    let ?b = "iblock ?v ?d (off div BSIZE)"
    have m: "0 < m" "m \<le> n" "m \<le> BSIZE - off mod BSIZE" using False by (auto simp: m_def)
    have mb: "mapped ?v ?d (off div BSIZE)" using "1.prems"(4) False by (simp add: range_mapped_def)
    have len: "length (?v ?b) = BSIZE" using "1.prems"(1) by (simp add: tx_inv_def)
    have whole: "file_bytes ?v ?d off n = bslice (off mod BSIZE) m (?v ?b) @ file_bytes ?v ?d (off + m) (n - m)"
      using file_bytes_split [OF m(2)] file_bytes_block [where v = ?v and d = ?d, OF m(3) len] by simp
    have next_round: "wp (readi_loop i (off + m) (n - m)) (\<lambda>rest. Q (bslice (off mod BSIZE) m (?v ?b) @ rest)) u"
      if u: "tx_to ?v (log_lh s) s u" for u
    proof -
      note uD = tx_toD [OF u] and uF = tx_rest_fs [OF tx_toD(8) [OF u]]
      show ?thesis
      proof (rule "1.IH" [OF False m_def])
        show "tx_inv u" "held u = {}" "i_dev (icache u i) = ROOTDEV"
          using uD uF "1.prems" by simp_all
        show "range_mapped (view u) (i_din (icache u i)) (off + m) (n - m)"
          using "1.prems"(4) m uD uF by (simp add: range_mapped_def)
        fix w assume "tx_to (view u) (log_lh u) u w"
        then have "tx_to ?v (log_lh s) s w" using tx_to_trans [OF u] uD by simp
        then show "Q (bslice (off mod BSIZE) m (?v ?b) @ file_bytes (view u) (i_din (icache u i)) (off + m) (n - m)) w"
          using "1.prems"(5) whole uD uF by simp
      qed
    qed
    have round: "wp (bread ROOTDEV ?b) (\<lambda>bp. wp (buf_data bp) (\<lambda>d. wp (brelse bp) (\<lambda>_.
        wp (readi_loop i (off + m) (n - m)) (\<lambda>rest. Q (bslice (off mod BSIZE) m d @ rest))))) t"
      if t: "tx_to ?v (log_lh s) s t" for t
    proof (rule tx_bread)
      note tD = tx_toD [OF t]
      show "tx_inv t" "?b < FSSIZE" "?b \<notin> held t" using tD mb "1.prems"(2) by (simp_all add: mapped_def)
      show "?b \<in> set (log_lh t) \<or> buf_room t" using buf_roomI0 [of t] tD "1.prems"(2) by simp
      fix bp u assume u: "opened ?b bp (view t) (log_lh t) t u"
      show "wp (buf_data bp) (\<lambda>d. wp (brelse bp) (\<lambda>_.
        wp (readi_loop i (off + m) (n - m)) (\<lambda>rest. Q (bslice (off mod BSIZE) m d @ rest)))) u"
      proof (rule tx_get [OF u], rule tx_close [OF tD(1) u])
        fix w assume "tx_to (view t) (log_lh t) t w"
        then have "tx_to ?v (log_lh s) s w" using tx_to_trans [OF t] tD by simp
        from next_round [OF this]
        show "wp (readi_loop i (off + m) (n - m)) (\<lambda>rest. Q (bslice (off mod BSIZE) m (view t ?b) @ rest)) w"
          by (simp add: tD(2))
      qed simp_all
    qed
    show ?thesis
      unfolding readi_loop.simps [of i off n]
      by (simp add: False "1.prems"(3) Let_def flip: m_def)
        (rule bmap_mapped_wp [OF "1.prems"(1-3) mb], rule round)
  qed
qed

text \<open>A regular file or directory without holes, as \<open>writei\<close> leaves it.\<close>

definition file_ok :: "(nat \<Rightarrow> byte list) \<Rightarrow> dinode \<Rightarrow> bool" where
  "file_ok v d \<longleftrightarrow> d_type d \<noteq> T_DEV \<and> d_size d \<le> MAXFILE * BSIZE \<and> range_mapped v d 0 (d_size d)"

lemma readi_wp:
  fixes s :: "'a cons_state_scheme"
  assumes "tx_inv s" "held s = {}" "i_dev (icache s i) = ROOTDEV"
    and f: "file_ok (view s) (i_din (icache s i))"
    and o: "off \<le> d_size (i_din (icache s i))" "off + n < 2 ^ 32"
    and Q: "\<And>t. tx_to (view s) (log_lh s) s t \<Longrightarrow>
      Q (int (min n (d_size (i_din (icache s i)) - off)),
         file_bytes (view s) (i_din (icache s i)) off (min n (d_size (i_din (icache s i)) - off))) t"
  shows "wp (readi i off n) Q s"
proof -
  let ?d = "i_din (icache s i)"
  let ?n = "if off + n > d_size ?d then d_size ?d - off else n"
  have n: "?n = min n (d_size ?d - off)" using o(1) by auto
  have r: "range_mapped (view s) ?d off ?n" using f o(1) by (auto simp: file_ok_def range_mapped_def)
  have "wp (readi_loop i off ?n) (\<lambda>bs. Q (int ?n, bs)) s"
    by (rule readi_loop_wp [OF assms(1-3) r]) (use Q in \<open>simp add: n\<close>)
  moreover have "(off + n) mod 2 ^ 32 = off + n" using o(2) by simp
  ultimately show ?thesis
    using f o(1) unfolding readi_def
    by (cases "d_size ?d < off + n") (simp_all add: file_ok_def Let_def)
qed

end
