(* ===== verification/Bmap.thy ===== *)
theory Bmap
  imports Inode
begin

text \<open>
  Allocating the blocks of files.  \<open>fs_to v l d i s t\<close> says that a piece of file system code took \<open>s\<close> to \<open>t\<close>, where readers see the
  blocks \<open>v\<close>, the log holds \<open>l\<close> and the cached copy of inode \<open>i\<close> is \<open>d\<close>.  An inode's 140 slots are its direct
  addresses, its indirect block and the addresses in that block; \<open>inode_wf\<close> says that the blocks in them are
  in the data area, marked in the free map, and pairwise different.  Allocation fills one empty slot
  with a fresh block and keeps this; \<open>bmap\<close> consists of at most two such steps.
\<close>

section \<open>Steps that change one inode\<close>

definition set_din :: "nat \<Rightarrow> dinode \<Rightarrow> 'a fs_state_scheme \<Rightarrow> 'a fs_state_scheme" where
  "set_din i d = upd_inode i (\<lambda>ip. ip\<lparr>i_din := d\<rparr>)"

definition fs_to ::
  "(nat \<Rightarrow> byte list) \<Rightarrow> nat list \<Rightarrow> dinode \<Rightarrow> nat \<Rightarrow> 'a fs_state_scheme \<Rightarrow> 'a fs_state_scheme \<Rightarrow> bool" where
  "fs_to v l d i s t \<longleftrightarrow> tx_to v l (set_din i d s) t"

lemma set_din_sel [simp]:
  "icache (set_din i d s) = (icache s)(i := (icache s i)\<lparr>i_din := d\<rparr>)" "fs_sb (set_din i d s) = fs_sb s"
  "log_lh (set_din i d s) = log_lh s" "log_size (set_din i d s) = log_size s"
  "log_outstanding (set_din i d s) = log_outstanding s" "log_start (set_din i d s) = log_start s"
  "bufs (set_din i d s) = bufs s" "lru (set_din i d s) = lru s" "disk (set_din i d s) = disk s"
  "log_dev (set_din i d s) = log_dev s" "log_committing (set_din i d s) = log_committing s"
  "disk_writes (set_din i d s) = disk_writes s" "idequeue (set_din i d s) = idequeue s"
  "havedisk1 (set_din i d s) = havedisk1 s" "ptable (set_din i d s) = ptable s"
  "curproc (set_din i d s) = curproc s" "fs_state.more (set_din i d s) = fs_state.more s"
  "nextpid (set_din i d s) = nextpid s" "initproc (set_din i d s) = initproc s" "km_mem (set_din i d s) = km_mem s"
  "km_freelist (set_din i d s) = km_freelist s" "km_end (set_din i d s) = km_end s"
  by (simp_all add: set_din_def upd_inode_def)

lemma set_din_set_din [simp]: "set_din i d (set_din i d' s) = set_din i d s"
  by (simp add: set_din_def upd_inode_def)

lemma set_din_same: "set_din i (i_din (icache s i)) s = s"
  by (simp add: set_din_def upd_inode_def)

lemma set_din_upd: "upd_inode i (upd_din f) s = set_din i (f (i_din (icache s i))) s"
  by (simp add: set_din_def upd_inode_def upd_din_def)

lemma set_din_bio [simp]:
  "bio_inv (set_din i d s) = bio_inv s" "held (set_din i d s) = held s" "pinned (set_din i d s) = pinned s"
  "view (set_din i d s) = view s" "owns j c (set_din i d s) = owns j c s"
proof -
  have "same_bio s (set_din i d s)" by (simp add: same_bio_def myproc_def)
  from same_bioD [OF this]
  show "bio_inv (set_din i d s) = bio_inv s" "held (set_din i d s) = held s"
    "pinned (set_din i d s) = pinned s" "view (set_din i d s) = view s" "owns j c (set_din i d s) = owns j c s"
    by simp_all
qed

lemma set_din_log [simp]:
  "log_geom (set_din i d s) = log_geom s" "lh_ok (set_din i d s) = lh_ok s"
  "log_area (set_din i d s) = log_area s" "obs (set_din i d s) = obs s"
  "tx_inv (set_din i d s) = tx_inv s" "fs_geom (set_din i d s) = fs_geom s"
  by (simp_all add: log_geom_def lh_ok_def log_area_def fs_geom_def tx_inv_def obs_def fun_eq_iff)

lemma tx_to_set_din:
  fixes s t :: "'a fs_state_scheme"
  assumes "tx_to v l s t"
  shows "tx_to v l (set_din i d s) (set_din i d t)"
proof -
  note r = tx_toD(8) [OF assms]
  note c = tx_rest_fs [OF r] and e = tx_restD [OF r]
  have "log_state.more (set_din i d t) = log_state.more (set_din i d s)"
    using c by (cases s; cases t) (simp add: set_din_def upd_inode_def)
  then have "tx_rest (set_din i d s) (set_din i d t)"
    using e by (intro tx_restI) (simp_all add: proc_frame_def)
  then show ?thesis using assms by (simp add: tx_to_def)
qed

lemma fs_toD:
  fixes s t :: "'a fs_state_scheme"
  assumes "fs_to v l d i s t"
  shows "tx_inv t" "view t = v" "log_lh t = l" "held t = held s" "log_area t = log_area s"
    "log_room k t \<longleftrightarrow> log_outstanding s \<ge> 1 \<and> length l + k < log_size s"
    "icache t = (icache s)(i := (icache s i)\<lparr>i_din := d\<rparr>)" "fs_sb t = fs_sb s" "fs_geom t = fs_geom s"
    "fs_state.more t = fs_state.more s" "log_size t = log_size s" "log_outstanding t = log_outstanding s"
proof -
  have a: "tx_to v l (set_din i d s) t" using assms by (simp add: fs_to_def)
  note r = tx_toD(8) [OF a]
  show "tx_inv t" "view t = v" "log_lh t = l" "held t = held s" "log_area t = log_area s"
    "log_room k t \<longleftrightarrow> log_outstanding s \<ge> 1 \<and> length l + k < log_size s"
    using tx_toD [OF a] by simp_all
  show "icache t = (icache s)(i := (icache s i)\<lparr>i_din := d\<rparr>)" "fs_sb t = fs_sb s"
    "fs_state.more t = fs_state.more s" "fs_geom t = fs_geom s"
    using tx_rest_fs [OF r] tx_rest_fs_geom [OF r] by simp_all
  show "log_size t = log_size s" "log_outstanding t = log_outstanding s" using tx_restD [OF r] by simp_all
qed

lemma fs_toI: "tx_to v l s t \<Longrightarrow> fs_to v l (i_din (icache s i)) i s t"
  by (simp add: fs_to_def set_din_same)

lemma fs_to_trans:
  assumes "fs_to v l d i s t" "fs_to v' l' d' i t u"
  shows "fs_to v' l' d' i s u"
  using tx_to_trans [OF tx_to_set_din [of v l "set_din i d s" t i d']] assms by (simp add: fs_to_def)

lemma fs_to_tx: "fs_to v l d i s t \<Longrightarrow> tx_to v' l' t u \<Longrightarrow> fs_to v' l' d i s u"
  unfolding fs_to_def by (rule tx_to_trans)

lemma fs_to_upd:
  assumes "fs_to v l d i s t"
  shows "fs_to v l (f d) i s (upd_inode i (upd_din f) t)"
  using tx_to_set_din [of v l "set_din i d s" t i "f d"] assms fs_toD(7) [OF assms]
  by (simp add: fs_to_def set_din_upd)

section \<open>The slots of an inode\<close>

abbreviation NSLOT :: nat where "NSLOT \<equiv> 140"

definition slot :: "(nat \<Rightarrow> byte list) \<Rightarrow> dinode \<Rightarrow> nat \<Rightarrow> nat" where
  "slot v d j =
     (if j \<le> NDIRECT then d_addrs d ! j
      else if d_addrs d ! NDIRECT = 0 then 0
      else u32_at (v (d_addrs d ! NDIRECT)) (j - NDIRECT - 1))"

definition slot_of :: "nat \<Rightarrow> nat" where
  "slot_of k = (if k < NDIRECT then k else k + 1)"

lemma iblock_slot: "iblock v d k = slot v d (slot_of k)"
  by (simp add: iblock_def slot_def slot_of_def)

lemma slot_of_bound: "k < MAXFILE \<Longrightarrow> slot_of k < NSLOT" "slot_of k \<noteq> NDIRECT" "slot_of k = slot_of k' \<longleftrightarrow> k = k'"
  by (auto simp: slot_of_def)

definition inode_wf :: "superblock \<Rightarrow> (nat \<Rightarrow> byte list) \<Rightarrow> dinode \<Rightarrow> bool" where
  "inode_wf sb v d \<longleftrightarrow> length (d_addrs d) = NDIRECT + 1 \<and>
     (\<forall>j < NSLOT. slot v d j \<noteq> 0 \<longrightarrow>
        data_start sb \<le> slot v d j \<and> slot v d j < sb_size sb \<and> used sb v (slot v d j)) \<and>
     (\<forall>j < NSLOT. \<forall>j' < NSLOT. slot v d j \<noteq> 0 \<longrightarrow> slot v d j = slot v d j' \<longrightarrow> j = j')"

lemma inode_wfD:
  assumes "inode_wf sb v d" "j < NSLOT" "slot v d j \<noteq> 0"
  shows "data_start sb \<le> slot v d j" "slot v d j < sb_size sb" "used sb v (slot v d j)"
    "j' < NSLOT \<Longrightarrow> slot v d j = slot v d j' \<Longrightarrow> j = j'"
  using assms unfolding inode_wf_def by blast+

text \<open>\<open>fills sb v d j b v' d'\<close>: slot \<open>j\<close> was empty and now holds the fresh block \<open>b\<close>; otherwise only the free map
  and, for an entry of the indirect block, that block have changed.\<close>

definition fills ::
  "superblock \<Rightarrow> (nat \<Rightarrow> byte list) \<Rightarrow> dinode \<Rightarrow> nat \<Rightarrow> nat \<Rightarrow> (nat \<Rightarrow> byte list) \<Rightarrow> dinode \<Rightarrow> bool" where
  "fills sb v d j b v' d' \<longleftrightarrow> first_free sb v = Some b \<and> slot v d j = 0 \<and>
     (\<forall>j' < NSLOT. slot v' d' j' = (if j' = j then b else slot v d j')) \<and>
     (\<forall>c < sb_size sb. used sb v' c \<longleftrightarrow> c = b \<or> used sb v c) \<and>
     (\<forall>c. c \<noteq> sb_bmapstart sb \<and> c \<noteq> b \<and> (slot v d NDIRECT = 0 \<or> c \<noteq> slot v d NDIRECT) \<longrightarrow> v' c = v c) \<and>
     length (d_addrs d') = length (d_addrs d) \<and> d' = d\<lparr>d_addrs := d_addrs d'\<rparr>"

lemma fills_wf:
  assumes f: "fills sb v d j b v' d'" and w: "inode_wf sb v d" and sb: "sb_ok sb" and m: "meta_used sb v"
    and j: "j < NSLOT"
  shows "inode_wf sb v' d'" "meta_used sb v'"
proof -
  have ff: "first_free sb v = Some b" using f by (simp add: fills_def)
  note b = first_free_data [OF sb m ff]
  have u: "used sb v' c \<longleftrightarrow> c = b \<or> used sb v c" if "c < sb_size sb" for c using f that by (simp add: fills_def)
  have s: "slot v' d' j' = (if j' = j then b else slot v d j')" if "j' < NSLOT" for j'
    using f that by (simp add: fills_def)
  have len: "length (d_addrs d') = NDIRECT + 1" using f w by (simp add: fills_def inode_wf_def)
  have nb: "slot v d j' \<noteq> b" if "j' < NSLOT" "slot v d j' \<noteq> 0" for j'
    using inode_wfD(3) [OF w that] b(3) by auto
  have b0: "b \<noteq> 0" using b(1) by (simp add: data_start_def)
  show "inode_wf sb v' d'"
    unfolding inode_wf_def
  proof (intro conjI allI impI)
    show "length (d_addrs d') = NDIRECT + 1" by (rule len)
  next
    fix j' assume j': "j' < NSLOT" "slot v' d' j' \<noteq> 0"
    show "data_start sb \<le> slot v' d' j'" "slot v' d' j' < sb_size sb" "used sb v' (slot v' d' j')"
      using s [OF j'(1)] j' b u inode_wfD [OF w j'(1)] by (auto split: if_splits)
  next
    fix j1 j2 assume h: "j1 < NSLOT" "j2 < NSLOT" "slot v' d' j1 \<noteq> 0" "slot v' d' j1 = slot v' d' j2"
    then show "j1 = j2"
      using s [OF h(1)] s [OF h(2)] nb [OF h(1)] nb [OF h(2)] b0 inode_wfD(4) [OF w h(1) _ h(2)]
      by (auto split: if_splits)
  qed
  show "meta_used sb v'"
    using m u sb by (auto simp: meta_used_def sb_ok_def data_start_def)
qed

lemma alloc_used:
  assumes "sb_ok sb" "meta_used sb v" "first_free sb v = Some b" "length (v (sb_bmapstart sb)) = BSIZE"
    and "c < sb_size sb"
  shows "used sb (alloc_view sb b v) c \<longleftrightarrow> c = b \<or> used sb v c"
proof -
  note b = first_free_data [OF assms(1-3)]
  have "sb_size sb \<le> 4096" using assms(1) by (simp add: sb_ok_def)
  then have "b div 8 < BSIZE" "c div 8 < BSIZE" using b(2) assms(5) by auto
  then show ?thesis
    using BBLOCK_one [OF assms(1,5)] b(4) assms(4)
    by (auto simp: used_def alloc_view_def bm_used_set)
qed

lemma fills_slot:
  assumes "sb_ok sb" "meta_used sb v" "first_free sb v = Some b" "length (v (sb_bmapstart sb)) = BSIZE"
    and w: "inode_wf sb v d" and j: "j \<le> NDIRECT" "d_addrs d ! j = 0"
  shows "fills sb v d j b (alloc_view sb b v) (d\<lparr>d_addrs := (d_addrs d)[j := b]\<rparr>)"
proof -
  note b = first_free_data [OF assms(1-3)]
  let ?a = "d_addrs d ! NDIRECT" and ?v = "alloc_view sb b v"
  have len: "length (d_addrs d) = NDIRECT + 1" using w by (simp add: inode_wf_def)
  have a: "?v ?a = v ?a" if "?a \<noteq> 0"
  proof -
    have "slot v d NDIRECT \<noteq> 0" "slot v d NDIRECT = ?a" using that by (simp_all add: slot_def)
    then have "?a \<noteq> b" "data_start sb \<le> ?a" using inode_wfD [OF w, of NDIRECT] b(3) by auto
    then show ?thesis by (simp add: alloc_view_def data_start_def)
  qed
  have s: "slot ?v (d\<lparr>d_addrs := (d_addrs d)[j := b]\<rparr>) j' = (if j' = j then b else slot v d j')" if "j' < NSLOT" for j'
  proof (cases "j' \<le> NDIRECT")
    case True
    then show ?thesis using len j by (auto simp: slot_def nth_list_update)
  next
    case False
    then have e: "j' - NDIRECT - 1 < 128" using that by simp
    have b0: "?v b = replicate BSIZE 0" by (simp add: alloc_view_def)
    show ?thesis
    proof (cases "j = NDIRECT")
      case True
      then show ?thesis using False len j(2) b0 e b(1) by (simp add: slot_def u32_at_zero data_start_def)
    next
      case jn: False
      then show ?thesis using False len j(1) a by (simp add: slot_def)
    qed
  qed
  have e: "slot v d j = 0" using j by (simp add: slot_def)
  show ?thesis
    unfolding fills_def
    using assms(3) e s alloc_used [OF assms(1-4)] by (simp add: alloc_view_def)
qed

lemma fills_entry:
  assumes "sb_ok sb" "meta_used sb v" "first_free sb v = Some b" "length (v (sb_bmapstart sb)) = BSIZE"
    and w: "inode_wf sb v d" and j: "NDIRECT < j" "j < NSLOT" "slot v d j = 0" and a: "d_addrs d ! NDIRECT = a" "a \<noteq> 0"
    and len: "length (v a) = BSIZE"
  shows "fills sb v d j b ((alloc_view sb b v)(a := set_u32 (j - NDIRECT - 1) b (v a))) d"
proof -
  note b = first_free_data [OF assms(1-3)]
  let ?v = "(alloc_view sb b v)(a := set_u32 (j - NDIRECT - 1) b (v a))"
  have sa: "slot v d NDIRECT = a" using a by (simp add: slot_def)
  have an: "a \<noteq> sb_bmapstart sb" "a \<noteq> b" "a < sb_size sb"
    using inode_wfD [OF w, of NDIRECT] sa a b(3) by (auto simp: data_start_def)
  have b32: "b < 2 ^ 32" using b(2) assms(1) by (simp add: sb_ok_def)
  have s: "slot ?v d j' = (if j' = j then b else slot v d j')" if "j' < NSLOT" for j'
  proof (cases "j' \<le> NDIRECT")
    case True
    then show ?thesis using j(1) by (simp add: slot_def)
  next
    case False
    have "u32_at (set_u32 (j - NDIRECT - 1) b (v a)) (j' - NDIRECT - 1) =
        (if j - NDIRECT - 1 = j' - NDIRECT - 1 then b mod 2 ^ 32 else u32_at (v a) (j' - NDIRECT - 1))"
      using that j False len by (intro u32_at_set_u32) auto
    moreover have "j - NDIRECT - 1 = j' - NDIRECT - 1 \<longleftrightarrow> j' = j" using j(1) False by auto
    ultimately show ?thesis using False a b32 by (simp add: slot_def)
  qed
  have "used sb ?v c \<longleftrightarrow> c = b \<or> used sb v c" if "c < sb_size sb" for c
    using alloc_used [OF assms(1-4) that] BBLOCK_one [OF assms(1) that] an by (simp add: used_def)
  then show ?thesis
    unfolding fills_def using assms(3) j(3) s sa a(2) by (simp add: alloc_view_def)
qed

section \<open>Growing an inode\<close>

definition ind_set :: "(nat \<Rightarrow> byte list) \<Rightarrow> dinode \<Rightarrow> nat set" where
  "ind_set v d = (if slot v d NDIRECT = 0 then {} else {slot v d NDIRECT})"

text \<open>Empty slots have been filled with fresh blocks; every block that was in use keeps its contents, the
  free map and the inode's indirect block apart.\<close>

definition grown :: "superblock \<Rightarrow> (nat \<Rightarrow> byte list) \<Rightarrow> dinode \<Rightarrow> (nat \<Rightarrow> byte list) \<Rightarrow> dinode \<Rightarrow> bool" where
  "grown sb v d v' d' \<longleftrightarrow>
     (\<forall>j < NSLOT. slot v d j \<noteq> 0 \<longrightarrow> slot v' d' j = slot v d j) \<and>
     (\<forall>j < NSLOT. slot v d j = 0 \<longrightarrow> slot v' d' j \<noteq> 0 \<longrightarrow> \<not> used sb v (slot v' d' j)) \<and>
     (\<forall>c < sb_size sb. used sb v c \<longrightarrow> used sb v' c) \<and>
     (\<forall>c < sb_size sb. used sb v c \<and> c \<noteq> sb_bmapstart sb \<and> c \<notin> ind_set v d \<longrightarrow> v' c = v c) \<and>
     d' = d\<lparr>d_addrs := d_addrs d'\<rparr>"

lemma grown_refl [simp]: "grown sb v d v d"
  by (simp add: grown_def)

lemma fills_grown:
  assumes "fills sb v d j b v' d'" "sb_ok sb" "meta_used sb v"
  shows "grown sb v d v' d'"
proof -
  have "first_free sb v = Some b" using assms(1) by (simp add: fills_def)
  note b = first_free_data [OF assms(2,3) this]
  show ?thesis
    unfolding grown_def
  proof (intro conjI allI impI)
    show "d' = d\<lparr>d_addrs := d_addrs d'\<rparr>" using assms(1) by (simp add: fills_def)
    fix c assume "c < sb_size sb" "used sb v c \<and> c \<noteq> sb_bmapstart sb \<and> c \<notin> ind_set v d"
    then show "v' c = v c" using assms(1) b(3) by (auto simp: fills_def ind_set_def split: if_splits)
  qed (use assms(1) b in \<open>auto simp: fills_def split: if_splits\<close>)
qed

lemma grown_trans:
  assumes 1: "grown sb v d v' d'" and 2: "grown sb v' d' v'' d''" and w: "inode_wf sb v d" "inode_wf sb v' d'" "inode_wf sb v'' d''"
  shows "grown sb v d v'' d''"
  unfolding grown_def
proof (intro conjI allI impI)
  show "d'' = d\<lparr>d_addrs := d_addrs d''\<rparr>"
    using 1 2 unfolding grown_def by (cases d; cases d'; cases d'') simp
  fix c assume c: "c < sb_size sb"
  show "used sb v'' c" if "used sb v c" using 1 2 c that by (simp add: grown_def)
  assume u: "used sb v c \<and> c \<noteq> sb_bmapstart sb \<and> c \<notin> ind_set v d"
  have "c \<notin> ind_set v' d'"
    using 1 u by (auto simp: grown_def ind_set_def split: if_splits)
  then have "v'' c = v' c" using 1 2 c u by (simp add: grown_def)
  then show "v'' c = v c" using 1 c u by (simp add: grown_def)
next
  fix j assume j: "j < NSLOT"
  show "slot v'' d'' j = slot v d j" if "slot v d j \<noteq> 0" using 1 2 j that by (simp add: grown_def)
  assume e: "slot v d j = 0" "slot v'' d'' j \<noteq> 0"
  show "\<not> used sb v (slot v'' d'' j)"
  proof (cases "slot v' d' j = 0")
    case True
    then have "\<not> used sb v' (slot v'' d'' j)" using 2 j e by (simp add: grown_def)
    moreover have "slot v'' d'' j < sb_size sb" using inode_wfD(2) [OF w(3) j e(2)] .
    ultimately show ?thesis using 1 by (auto simp: grown_def)
  next
    case False
    then show ?thesis using 1 2 j e by (simp add: grown_def)
  qed
qed

text \<open>The number of free blocks.\<close>

definition nfree :: "superblock \<Rightarrow> (nat \<Rightarrow> byte list) \<Rightarrow> nat" where
  "nfree sb v = card {c. c < sb_size sb \<and> \<not> used sb v c}"

lemma nfree_first: "0 < nfree sb v \<Longrightarrow> \<exists>b. first_free sb v = Some b"
proof -
  assume "0 < nfree sb v"
  then obtain c where "c < sb_size sb" "\<not> used sb v c" unfolding nfree_def by (auto simp: card_gt_0_iff)
  then have "first_free sb v \<noteq> None" unfolding first_free_def by (auto simp: find_None_iff)
  then show ?thesis by blast
qed

lemma fills_nfree:
  assumes "fills sb v d j b v' d'" "sb_ok sb" "meta_used sb v"
  shows "nfree sb v = Suc (nfree sb v')"
proof -
  have "first_free sb v = Some b" using assms(1) by (simp add: fills_def)
  note b = first_free_data [OF assms(2,3) this]
  have "{c. c < sb_size sb \<and> \<not> used sb v c} = insert b {c. c < sb_size sb \<and> \<not> used sb v' c}"
    using assms(1) b by (auto simp: fills_def)
  moreover have "b \<notin> {c. c < sb_size sb \<and> \<not> used sb v' c}" using assms(1) b by (auto simp: fills_def)
  ultimately show ?thesis by (simp add: nfree_def)
qed

text \<open>The blocks in the log, if the free map and the indirect block are logged, with one more for an
  indirect block that is still missing; and the blocks that allocating \<open>r\<close> more takes.\<close>

definition ind_need :: "(nat \<Rightarrow> byte list) \<Rightarrow> dinode \<Rightarrow> nat" where
  "ind_need v d = (if slot v d NDIRECT = 0 then 1 else 0)"

definition log_need :: "superblock \<Rightarrow> (nat \<Rightarrow> byte list) \<Rightarrow> dinode \<Rightarrow> nat list \<Rightarrow> nat" where
  "log_need sb v d l = card (set l \<union> {sb_bmapstart sb} \<union> ind_set v d) + ind_need v d"

definition wr_pre :: "nat \<Rightarrow> nat \<Rightarrow> 'a fs_state_scheme \<Rightarrow> bool" where
  "wr_pre r i s \<longleftrightarrow> tx_inv s \<and> held s = {} \<and> fs_geom s \<and> i_dev (icache s i) = ROOTDEV \<and>
     inode_wf (fs_sb s) (view s) (i_din (icache s i)) \<and> meta_used (fs_sb s) (view s) \<and> log_outstanding s \<ge> 1 \<and>
     log_need (fs_sb s) (view s) (i_din (icache s i)) (log_lh s) + r + 1 < log_size s \<and>
     r + ind_need (view s) (i_din (icache s i)) \<le> nfree (fs_sb s) (view s)"

lemma log_need_ge: "distinct l \<Longrightarrow> length l \<le> log_need sb v d l"
proof -
  assume "distinct l"
  then have "length l = card (set l)" by (simp add: distinct_card)
  also have "\<dots> \<le> card (set l \<union> {sb_bmapstart sb} \<union> ind_set v d)"
    by (rule card_mono) (auto simp: ind_set_def)
  finally show ?thesis by (simp add: log_need_def)
qed

text \<open>The need grows by the blocks logged other than the free map and the indirect block.\<close>

lemma log_need_step:
  assumes g: "ind_set v d \<subseteq> ind_set v' d'" and B: "finite B"
    and l: "set l' \<subseteq> set l \<union> {sb_bmapstart sb} \<union> B \<union> ind_set v' d'"
  shows "log_need sb v' d' l' \<le> log_need sb v d l + card B"
proof -
  let ?A = "set l \<union> {sb_bmapstart sb} \<union> ind_set v d"
  have fin: "finite (ind_set v d)" "finite (ind_set v' d')" by (simp_all add: ind_set_def)
  have "set l' \<union> {sb_bmapstart sb} \<union> ind_set v' d' \<subseteq> B \<union> (?A \<union> ind_set v' d')" using l by auto
  then have "card (set l' \<union> {sb_bmapstart sb} \<union> ind_set v' d') \<le> card (B \<union> (?A \<union> ind_set v' d'))"
    using fin B by (intro card_mono) auto
  also have "\<dots> \<le> card B + card (?A \<union> ind_set v' d')" by (rule card_Un_le)
  finally have 1: "card (set l' \<union> {sb_bmapstart sb} \<union> ind_set v' d') \<le> card B + card (?A \<union> ind_set v' d')" .
  show ?thesis
  proof (cases "slot v d NDIRECT = 0")
    case True
    have "card (?A \<union> ind_set v' d') \<le> card ?A + card (ind_set v' d')" by (rule card_Un_le)
    moreover have "card (ind_set v' d') + ind_need v' d' = 1" by (simp add: ind_set_def ind_need_def)
    moreover have "ind_need v d = 1" using True by (simp add: ind_need_def)
    ultimately show ?thesis using 1 by (simp add: log_need_def)
  next
    case False
    then have "ind_set v' d' = ind_set v d" using g by (auto simp: ind_set_def split: if_splits)
    moreover have "ind_need v' d' = 0" using g False by (auto simp: ind_set_def ind_need_def split: if_splits)
    moreover have "?A \<union> ind_set v d = ?A" by auto
    ultimately show ?thesis using 1 by (simp add: log_need_def)
  qed
qed

lemma grown_ind: "grown sb v d v' d' \<Longrightarrow> ind_set v d \<subseteq> ind_set v' d'"
  by (auto simp: grown_def ind_set_def split: if_splits)

lemma tx_inv_distinct: "tx_inv s \<Longrightarrow> distinct (log_lh s)"
  by (simp add: tx_inv_def lh_ok_def)

lemma tx_inv_blk [simp]: "tx_inv s \<Longrightarrow> length (view s b) = BSIZE"
  by (simp add: tx_inv_def)

text \<open>What \<open>bmap\<close> does to blocks, inode and log: nothing, or it fills slots.\<close>

definition bmapped ::
  "superblock \<Rightarrow> (nat \<Rightarrow> byte list) \<Rightarrow> dinode \<Rightarrow> nat list \<Rightarrow> nat \<Rightarrow> (nat \<Rightarrow> byte list) \<Rightarrow> dinode \<Rightarrow> nat list \<Rightarrow> bool" where
  "bmapped sb v d l j v' d' l' \<longleftrightarrow> inode_wf sb v' d' \<and> meta_used sb v' \<and> grown sb v d v' d' \<and> slot v' d' j \<noteq> 0 \<and>
     set l \<subseteq> set l' \<and> set l' \<subseteq> set l \<union> {sb_bmapstart sb, slot v' d' j} \<union> ind_set v' d' \<and>
     nfree sb v + ind_need v' d' \<le> nfree sb v' + ind_need v d + (if j = NDIRECT then 0 else 1)"

lemma bmapped_refl:
  "inode_wf sb v d \<Longrightarrow> meta_used sb v \<Longrightarrow> slot v d j \<noteq> 0 \<Longrightarrow> bmapped sb v d l j v d l"
  by (auto simp: bmapped_def)

lemma bmapped_fills:
  assumes f: "fills sb v d j b v' d'" and "inode_wf sb v d" "sb_ok sb" "meta_used sb v" "j < NSLOT"
    and l: "set l' = set l \<union> {sb_bmapstart sb, b} \<or> set l' = set l \<union> {sb_bmapstart sb, b, slot v d NDIRECT} \<and> slot v d NDIRECT \<noteq> 0"
  shows "bmapped sb v d l j v' d' l'"
proof -
  have "first_free sb v = Some b" using f by (simp add: fills_def)
  note b = first_free_data [OF assms(3,4) this]
  have sj: "slot v' d' j = b" using f assms(5) by (simp add: fills_def)
  have b0: "b \<noteq> 0" using b(1) by (simp add: data_start_def)
  have ind: "slot v' d' NDIRECT = (if j = NDIRECT then b else slot v d NDIRECT)" using f by (simp add: fills_def)
  have e: "slot v d j = 0" using f by (simp add: fills_def)
  show "bmapped sb v d l j v' d' l'"
    unfolding bmapped_def
    using fills_wf [OF assms(1-5)] fills_grown [OF f assms(3,4)] fills_nfree [OF f assms(3,4)] sj b0 l ind e
    by (auto simp: ind_set_def ind_need_def)
qed

lemma bmapped_trans:
  assumes 1: "bmapped sb v d l NDIRECT v1 d1 l1" and 2: "bmapped sb v1 d1 l1 j v2 d2 l2" and w: "inode_wf sb v d"
    and j: "j \<noteq> NDIRECT"
  shows "bmapped sb v d l j v2 d2 l2"
proof -
  have g: "grown sb v d v2 d2" using 1 2 w grown_trans [of sb v d v1 d1 v2 d2] by (simp add: bmapped_def)
  have "ind_set v1 d1 \<subseteq> ind_set v2 d2" using 2 unfolding bmapped_def by (intro grown_ind) blast
  moreover have "slot v1 d1 NDIRECT \<in> ind_set v1 d1" using 1 by (simp add: bmapped_def ind_set_def)
  ultimately show ?thesis using 1 2 g j by (auto simp: bmapped_def)
qed

lemma addr_slot_wp:
  fixes s :: "'a fs_state_scheme"
  assumes inv: "tx_inv s" and geom: "fs_geom s" and dev: "i_dev (icache s i) = ROOTDEV" and h: "held s = {}"
    and w: "inode_wf (fs_sb s) (view s) (i_din (icache s i))" and m: "meta_used (fs_sb s) (view s)"
    and room: "log_room 2 s" and free: "0 < nfree (fs_sb s) (view s)" and j: "j \<le> NDIRECT"
    and Q: "\<And>v' d' l' t. fs_to v' l' d' i s t \<Longrightarrow>
      bmapped (fs_sb s) (view s) (i_din (icache s i)) (log_lh s) j v' d' l' \<Longrightarrow> Q (slot v' d' j) t"
  shows "wp (addr_slot i j) Q s"
proof (cases "d_addrs (i_din (icache s i)) ! j = 0")
  case False
  let ?d = "i_din (icache s i)"
  have sl: "slot (view s) ?d j = d_addrs ?d ! j" "slot (view s) ?d j \<noteq> 0" using False j by (simp_all add: slot_def)
  have "Q (slot (view s) ?d j) s"
    by (rule Q [OF fs_toI [OF tx_to_refl [OF inv]] bmapped_refl [OF w m sl(2)]])
  then show ?thesis using False sl by (simp add: addr_slot_def Let_def)
next
  case True
  let ?d = "i_din (icache s i)" and ?sb = "fs_sb s" and ?v = "view s"
  obtain b where b: "first_free ?sb ?v = Some b" using nfree_first [OF free] by blast
  have sb: "sb_ok ?sb" using geom by (simp add: fs_geom_def)
  let ?v' = "alloc_view ?sb b ?v" and ?d' = "?d\<lparr>d_addrs := (d_addrs ?d)[j := b]\<rparr>"
  let ?l' = "add_log b (add_log (sb_bmapstart ?sb) (log_lh s))"
  have f: "fills ?sb ?v ?d j b ?v' ?d'" using inv by (intro fills_slot [OF sb m b _ w j True]) simp
  have j2: "j < NSLOT" using j by simp
  have bm: "bmapped ?sb ?v ?d (log_lh s) j ?v' ?d' ?l'" by (rule bmapped_fills [OF f w sb m j2]) auto
  have sj: "slot ?v' ?d' j = b" using f j2 by (simp add: fills_def)
  have "wp (balloc ROOTDEV) (\<lambda>addr. wp (kmodify (upd_inode i (upd_din (\<lambda>d. d\<lparr>d_addrs := (d_addrs d)[j := addr]\<rparr>))))
      (\<lambda>_. Q addr)) s"
  proof (rule balloc_wp [OF inv geom m b])
    show "card (held s) \<le> 1" "sb_bmapstart ?sb \<notin> held s" "b \<notin> held s" "log_room 2 s" using h room by simp_all
    fix t assume "tx_to ?v' ?l' s t"
    then have "fs_to ?v' ?l' ?d' i s (upd_inode i (upd_din (\<lambda>d. d\<lparr>d_addrs := (d_addrs d)[j := b]\<rparr>)) t)"
      by (intro fs_to_upd [OF fs_toI])
    from Q [OF this bm] sj
    show "wp (kmodify (upd_inode i (upd_din (\<lambda>d. d\<lparr>d_addrs := (d_addrs d)[j := b]\<rparr>)))) (\<lambda>_. Q b) t" by simp
  qed
  then show ?thesis using True dev by (simp add: addr_slot_def Let_def)
qed

text \<open>The part of \<open>bmap\<close> that works on the indirect block.\<close>

definition bmap_entry :: "nat \<Rightarrow> nat \<Rightarrow> nat \<Rightarrow> ('a fs_state_scheme, nat) kernel" where
  "bmap_entry dev a bn = kbind (bread dev a) (\<lambda>bp. kbind (buf_data bp) (\<lambda>d.
     if u32_at d bn = 0 then
       kbind (balloc dev) (\<lambda>addr. kbind (buf_data bp) (\<lambda>d.
         kseq (set_buf_data bp (set_u32 bn addr d)) (kseq (log_write bp) (kseq (brelse bp) (kreturn addr)))))
     else kseq (brelse bp) (kreturn (u32_at d bn))))"

lemma bmap_entry_wp:
  fixes s :: "'a fs_state_scheme"
  assumes inv: "tx_inv s" and geom: "fs_geom s" and h: "held s = {}"
    and w: "inode_wf (fs_sb s) (view s) d" and m: "meta_used (fs_sb s) (view s)"
    and room: "log_room 2 s" and need: "log_need (fs_sb s) (view s) d (log_lh s) + 2 < log_size s"
    and free: "0 < nfree (fs_sb s) (view s)"
    and a: "d_addrs d ! NDIRECT = a" "a \<noteq> 0" and bn: "bn < NINDIRECT"
    and Q: "\<And>v' l' t. tx_to v' l' s t \<Longrightarrow>
      bmapped (fs_sb s) (view s) d (log_lh s) (bn + NDIRECT + 1) v' d l' \<Longrightarrow> Q (slot v' d (bn + NDIRECT + 1)) t"
  shows "wp (bmap_entry ROOTDEV a bn) Q s"
proof -
  let ?sb = "fs_sb s" and ?v = "view s" and ?j = "bn + NDIRECT + 1"
  have sb: "sb_ok ?sb" using geom by (simp add: fs_geom_def)
  have sa: "slot ?v d NDIRECT = a" using a by (simp add: slot_def)
  have aw: "data_start ?sb \<le> a" "a < sb_size ?sb" "used ?sb ?v a" using inode_wfD [OF w, of NDIRECT] sa a by auto
  have j: "?j < NSLOT" "NDIRECT < ?j" using bn by auto
  have sj: "slot ?v d ?j = u32_at (?v a) bn" using a by (simp add: slot_def)
  have afs: "a < FSSIZE" using aw sb by (simp add: sb_ok_def)
  have ala: "a \<notin> log_area s" by (rule fs_geom_area(3) [OF geom aw(1)])
  obtain b where b: "first_free ?sb ?v = Some b" using nfree_first [OF free] by blast
  note bD = first_free_data [OF sb m b]
  have ab: "a \<noteq> b" using aw(3) bD(3) by auto
  show ?thesis
    unfolding bmap_entry_def wp_kbind
  proof (rule tx_bread [OF inv afs])
    show "a \<notin> held s" "a \<in> set (log_lh s) \<or> buf_room s" using h buf_roomI0 [OF inv h] by simp_all
    fix bp t assume t: "opened a bp ?v (log_lh s) s t"
    note tD = openedD [OF t] and tF = tx_rest_fs [OF openedD(10) [OF t]]
    show "wp (buf_data bp) (\<lambda>da. wp (if u32_at da bn = 0 then
       kbind (balloc ROOTDEV) (\<lambda>addr. kbind (buf_data bp) (\<lambda>d.
         kseq (set_buf_data bp (set_u32 bn addr d)) (kseq (log_write bp) (kseq (brelse bp) (kreturn addr)))))
     else kseq (brelse bp) (kreturn (u32_at da bn))) Q) t"
    proof (rule tx_get [OF t])
      show "wp (if u32_at (?v a) bn = 0 then
       kbind (balloc ROOTDEV) (\<lambda>addr. kbind (buf_data bp) (\<lambda>d.
         kseq (set_buf_data bp (set_u32 bn addr d)) (kseq (log_write bp) (kseq (brelse bp) (kreturn addr)))))
     else kseq (brelse bp) (kreturn (u32_at (?v a) bn))) Q t"
      proof (cases "u32_at (?v a) bn = 0")
        case False
        have "wp (brelse bp) (\<lambda>_. Q (u32_at (?v a) bn)) t"
          by (rule tx_close [OF inv t]) (use Q [OF _ bmapped_refl [OF w m]] sj False in auto)
        then show ?thesis using False by simp
      next
        case True
        let ?v2 = "alloc_view ?sb b ?v" and ?l2 = "add_log b (add_log (sb_bmapstart ?sb) (log_lh s))"
        let ?v3 = "?v2(a := set_u32 bn b (?v a))" and ?l3 = "add_log a (add_log b (add_log (sb_bmapstart ?sb) (log_lh s)))"
        have f: "fills ?sb ?v d ?j b ?v3 d"
          using fills_entry [OF sb m b _ w j(2,1) _ a] inv sj True by simp
        have bm: "bmapped ?sb ?v d (log_lh s) ?j ?v3 d ?l3"
          by (rule bmapped_fills [OF f w sb m j(1)]) (use sa a in auto)
        have s3: "slot ?v3 d ?j = b" using f j(1) by (simp add: fills_def)
        have "log_need ?sb ?v3 d ?l2 \<le> log_need ?sb ?v d (log_lh s) + card {b}"
        proof (rule log_need_step)
          show "ind_set ?v d \<subseteq> ind_set ?v3 d" using bm unfolding bmapped_def by (intro grown_ind) blast
        qed auto
        moreover have "length ?l2 \<le> log_need ?sb ?v3 d ?l2"
          using tx_inv_distinct [OF inv] by (intro log_need_ge) simp
        ultimately have len: "length ?l2 + 1 < log_size s" using need by simp
        have "wp (balloc ROOTDEV) (\<lambda>addr. wp (buf_data bp) (\<lambda>d. wp (set_buf_data bp (set_u32 bn addr d))
            (\<lambda>_. wp (log_write bp) (\<lambda>_. wp (brelse bp) (\<lambda>_. Q addr))))) t"
        proof (rule balloc_wp)
          show "tx_inv t" "first_free (fs_sb t) (view t) = Some b" "meta_used (fs_sb t) (view t)"
            using tD tF b m by simp_all
          show "fs_geom t" using tx_rest_fs_geom [OF tD(10)] geom by simp
          show "sb_bmapstart (fs_sb t) \<notin> held t" "b \<notin> held t" "card (held t) \<le> 1"
            using tD(5) tF h ab aw(1) by (auto simp: data_start_def)
          show "log_room 2 t" using tD(12) [of 2] room by (simp add: log_room_def)
          fix u assume "tx_to (alloc_view (fs_sb t) b (view t)) (add_log b (add_log (sb_bmapstart (fs_sb t)) (log_lh t))) t u"
          then have u: "opened a bp ?v2 ?l2 s u" using opened_step [OF t] tD tF by simp
          have va: "?v2 a = ?v a" using ab aw(1) by (auto simp: alloc_view_def data_start_def)
          show "wp (buf_data bp) (\<lambda>d. wp (set_buf_data bp (set_u32 bn b d))
            (\<lambda>_. wp (log_write bp) (\<lambda>_. wp (brelse bp) (\<lambda>_. Q b)))) u"
          proof (rule tx_get [OF u], rule tx_update [OF inv u])
            show "length (set_u32 bn b (?v2 a)) = BSIZE" using inv bn va by simp
            show "a \<notin> log_area s" by (rule ala)
            show "log_outstanding s \<ge> 1 \<and> length ?l2 + 1 < log_size s" using len room by (simp add: log_room_def)
            fix x assume "tx_to (?v2(a := set_u32 bn b (?v2 a))) ?l3 s x"
            then show "Q b x" using Q [OF _ bm] s3 va by simp
          qed
        qed
        then show ?thesis using True by simp
      qed
    qed
  qed
qed

lemma wr_preD:
  assumes "wr_pre r i s"
  shows "tx_inv s" "held s = {}" "fs_geom s" "sb_ok (fs_sb s)" "i_dev (icache s i) = ROOTDEV"
    "inode_wf (fs_sb s) (view s) (i_din (icache s i))" "meta_used (fs_sb s) (view s)" "log_outstanding s \<ge> 1"
    "log_need (fs_sb s) (view s) (i_din (icache s i)) (log_lh s) + r + 1 < log_size s"
    "r + ind_need (view s) (i_din (icache s i)) \<le> nfree (fs_sb s) (view s)"
    "length (log_lh s) \<le> log_need (fs_sb s) (view s) (i_din (icache s i)) (log_lh s)"
  using assms by (simp_all add: wr_pre_def fs_geom_def log_need_ge tx_inv_distinct)

lemma bmap_indirect:
  "NDIRECT \<le> k \<Longrightarrow> k < MAXFILE \<Longrightarrow>
   bmap i k = kbind (kget (\<lambda>s. i_dev (icache s i))) (\<lambda>dev. kbind (addr_slot i NDIRECT) (\<lambda>a. bmap_entry dev a (k - NDIRECT)))"
proof -
  assume k: "NDIRECT \<le> k" "k < MAXFILE"
  then have "\<not> k < NDIRECT" "k - NDIRECT < NINDIRECT" by auto
  then show ?thesis by (simp only: bmap_def bmap_entry_def Let_def if_True if_False)
qed

lemma bmap_wp:
  fixes s :: "'a fs_state_scheme"
  assumes pre: "wr_pre (Suc r) i s" and k: "k < MAXFILE"
    and Q: "\<And>v' d' l' t. fs_to v' l' d' i s t \<Longrightarrow>
      bmapped (fs_sb s) (view s) (i_din (icache s i)) (log_lh s) (slot_of k) v' d' l' \<Longrightarrow> Q (iblock v' d' k) t"
  shows "wp (bmap i k) Q s"
proof -
  note P = wr_preD [OF pre]
  let ?sb = "fs_sb s" and ?v = "view s" and ?d = "i_din (icache s i)" and ?l = "log_lh s"
  have room: "log_room 2 s" using P by (simp add: log_room_def)
  have free: "0 < nfree ?sb ?v" using P by simp
  show ?thesis
  proof (cases "k < NDIRECT")
    case True
    have "wp (addr_slot i k) Q s"
    proof (rule addr_slot_wp [OF P(1,3,5,2,6,7) room free])
      fix v' d' l' t
      assume "fs_to v' l' d' i s t" "bmapped ?sb ?v ?d ?l k v' d' l'"
      then show "Q (slot v' d' k) t" using Q [of v' l' d' t] True by (simp add: slot_of_def iblock_slot)
    qed (use True in simp)
    then show ?thesis using True by (simp add: bmap_def)
  next
    case False
    have j: "k - NDIRECT + NDIRECT + 1 = slot_of k" "slot_of k \<noteq> NDIRECT" using False by (simp_all add: slot_of_def)
    have "wp (addr_slot i NDIRECT) (\<lambda>a. wp (bmap_entry ROOTDEV a (k - NDIRECT)) Q) s"
    proof (rule addr_slot_wp [OF P(1,3,5,2,6,7) room free])
      fix v1 d1 l1 t
      assume t: "fs_to v1 l1 d1 i s t" and b1: "bmapped ?sb ?v ?d ?l NDIRECT v1 d1 l1"
      note tD = fs_toD [OF t]
      have w1: "inode_wf ?sb v1 d1" "meta_used ?sb v1" "slot v1 d1 NDIRECT \<noteq> 0" "grown ?sb ?v ?d v1 d1"
        using b1 by (simp_all add: bmapped_def)
      have "log_need ?sb v1 d1 l1 \<le> log_need ?sb ?v ?d ?l + card ({} :: nat set)"
      proof (rule log_need_step)
        show "ind_set ?v ?d \<subseteq> ind_set v1 d1" by (rule grown_ind [OF w1(4)])
        have "slot v1 d1 NDIRECT \<in> ind_set v1 d1" using w1(3) by (simp add: ind_set_def)
        then show "set l1 \<subseteq> set ?l \<union> {sb_bmapstart ?sb} \<union> {} \<union> ind_set v1 d1" using b1 by (auto simp: bmapped_def)
      qed simp
      then have need: "log_need ?sb v1 d1 l1 + 2 < log_size s" using P(9) by simp
      have len: "length l1 \<le> log_need ?sb v1 d1 l1"
        using tx_inv_distinct [OF tD(1)] tD(3) by (simp add: log_need_ge)
      have free1: "0 < nfree ?sb v1" using b1 P(10) w1(3) by (simp add: bmapped_def ind_need_def split: if_splits)
      show "wp (bmap_entry ROOTDEV (slot v1 d1 NDIRECT) (k - NDIRECT)) Q t"
      proof (rule bmap_entry_wp [where d = d1])
        show "tx_inv t" "held t = {}" "fs_geom t" using tD P by simp_all
        show "inode_wf (fs_sb t) (view t) d1" "meta_used (fs_sb t) (view t)" "0 < nfree (fs_sb t) (view t)"
          using tD w1 free1 by simp_all
        show "log_need (fs_sb t) (view t) d1 (log_lh t) + 2 < log_size t" using tD need by simp
        show "log_room 2 t" using tD(6) need len P(8) by simp
        show "d_addrs d1 ! NDIRECT = slot v1 d1 NDIRECT" by (simp add: slot_def)
        show "k - NDIRECT < NINDIRECT" using k by simp
        fix v2 l2 u
        assume u: "tx_to v2 l2 t u"
          and b2: "bmapped (fs_sb t) (view t) d1 (log_lh t) (k - NDIRECT + NDIRECT + 1) v2 d1 l2"
        have "bmapped ?sb ?v ?d ?l (slot_of k) v2 d1 l2"
          using bmapped_trans [OF b1 _ P(6) j(2)] b2 tD j(1) by simp
        from Q [OF fs_to_tx [OF t u] this] show "Q (slot v2 d1 (k - NDIRECT + NDIRECT + 1)) u"
          using j(1) by (simp add: iblock_slot)
      qed (rule w1(3))
    qed simp
    then show ?thesis using False k P(5) by (simp add: bmap_indirect)
  qed
qed

end
