(* ===== verification/Writei.thy ===== *)
theory Writei
  imports Bmap
begin

text \<open>
  \<open>writei\<close>: what a write does to the contents of the file, of the other files and to the log.
\<close>

section \<open>Contents after a write\<close>

definition own_blocks :: "(nat \<Rightarrow> byte list) \<Rightarrow> dinode \<Rightarrow> nat set" where
  "own_blocks v d = slot v d ` {..<NSLOT} - {0}"

text \<open>\<open>kept sb v d v' d'\<close>: the inode's slots may have been filled with fresh blocks, and no block that was in
  use and is not the inode's own has changed, the free map apart.\<close>

definition kept :: "superblock \<Rightarrow> (nat \<Rightarrow> byte list) \<Rightarrow> dinode \<Rightarrow> (nat \<Rightarrow> byte list) \<Rightarrow> dinode \<Rightarrow> bool" where
  "kept sb v d v' d' \<longleftrightarrow>
     (\<forall>j < NSLOT. slot v d j \<noteq> 0 \<longrightarrow> slot v' d' j = slot v d j) \<and>
     (\<forall>j < NSLOT. slot v d j = 0 \<longrightarrow> slot v' d' j \<noteq> 0 \<longrightarrow> \<not> used sb v (slot v' d' j)) \<and>
     (\<forall>c < sb_size sb. used sb v c \<longrightarrow> used sb v' c) \<and>
     (\<forall>c < sb_size sb. used sb v c \<and> c \<noteq> sb_bmapstart sb \<and> c \<notin> own_blocks v d \<longrightarrow> v' c = v c) \<and>
     d' = d\<lparr>d_addrs := d_addrs d'\<rparr>"

lemma grown_kept: "grown sb v d v' d' \<Longrightarrow> kept sb v d v' d'"
proof -
  assume g: "grown sb v d v' d'"
  have "ind_set v d \<subseteq> own_blocks v d" by (auto simp: ind_set_def own_blocks_def)
  then show ?thesis using g unfolding grown_def kept_def by blast
qed

lemma kept_refl [simp]: "kept sb v d v d"
  by (simp add: kept_def)

lemma kept_own:
  assumes "kept sb v d v' d'" "used sb v c" "c \<in> own_blocks v' d'"
  shows "c \<in> own_blocks v d"
proof -
  obtain j where j: "j < NSLOT" "c = slot v' d' j" "c \<noteq> 0" using assms(3) by (auto simp: own_blocks_def)
  then have "slot v d j = c" using assms(1,2) unfolding kept_def by (metis (no_types, lifting))
  then show ?thesis using j by (force simp: own_blocks_def)
qed

lemma kept_trans:
  assumes 1: "kept sb v d v' d'" and 2: "kept sb v' d' v'' d''" and w: "inode_wf sb v'' d''"
  shows "kept sb v d v'' d''"
  unfolding kept_def
proof (intro conjI allI impI)
  show "d'' = d\<lparr>d_addrs := d_addrs d''\<rparr>"
    using 1 2 unfolding kept_def by (cases d; cases d'; cases d'') simp
  fix c assume c: "c < sb_size sb"
  show "used sb v'' c" if "used sb v c" using 1 2 c that by (simp add: kept_def)
  assume u: "used sb v c \<and> c \<noteq> sb_bmapstart sb \<and> c \<notin> own_blocks v d"
  then have "c \<notin> own_blocks v' d'" using kept_own [OF 1] by blast
  then have "v'' c = v' c" using 1 2 c u by (simp add: kept_def)
  then show "v'' c = v c" using 1 c u by (simp add: kept_def)
next
  fix j assume j: "j < NSLOT"
  show "slot v'' d'' j = slot v d j" if "slot v d j \<noteq> 0" using 1 2 j that by (simp add: kept_def)
  assume e: "slot v d j = 0" "slot v'' d'' j \<noteq> 0"
  show "\<not> used sb v (slot v'' d'' j)"
  proof (cases "slot v' d' j = 0")
    case True
    then have "\<not> used sb v' (slot v'' d'' j)" using 2 j e by (simp add: kept_def)
    moreover have "slot v'' d'' j < sb_size sb" using inode_wfD(2) [OF w j e(2)] .
    ultimately show ?thesis using 1 by (auto simp: kept_def)
  next
    case False
    then show ?thesis using 1 2 j e by (simp add: kept_def)
  qed
qed

text \<open>An update of one of the file's data blocks.\<close>

lemma data_update:
  fixes v :: "nat \<Rightarrow> byte list" and x :: "byte list"
  assumes w: "inode_wf sb v d" and sb: "sb_ok sb" and k: "k < MAXFILE" "iblock v d k \<noteq> 0"
  defines "v' \<equiv> v(iblock v d k := x)"
  shows "slot v' d = slot v d" "c < sb_size sb \<Longrightarrow> used sb v' c = used sb v c" "inode_wf sb v' d" "meta_used sb v' = meta_used sb v"
    "nfree sb v' = nfree sb v" "ind_set v' d = ind_set v d" "ind_need v' d = ind_need v d" "kept sb v d v' d"
    "iblock v' d = iblock v d"
proof -
  let ?b = "iblock v d k"
  have b: "?b = slot v d (slot_of k)" "slot_of k < NSLOT" "slot_of k \<noteq> NDIRECT"
    using k slot_of_bound by (simp_all add: iblock_slot)
  have wb: "data_start sb \<le> ?b" using inode_wfD(1) [OF w b(2)] k(2) b(1) by simp
  have ni: "slot v d NDIRECT \<noteq> ?b" using inode_wfD(4) [OF w b(2), of NDIRECT] k(2) b by auto
  show s: "slot v' d = slot v d"
  proof
    fix j
    have "d_addrs d ! NDIRECT = slot v d NDIRECT" by (simp add: slot_def)
    then have "v' (d_addrs d ! NDIRECT) = v (d_addrs d ! NDIRECT)" using ni by (simp add: v'_def)
    then show "slot v' d j = slot v d j" by (simp add: slot_def)
  qed
  show u: "c < sb_size sb \<Longrightarrow> used sb v' c = used sb v c" for c
    using BBLOCK_one [OF sb, of c] wb by (auto simp: used_def v'_def data_start_def)
  have d: "data_start sb \<le> sb_size sb" using sb by (simp add: sb_ok_def data_start_def)
  show "inode_wf sb v' d" using w u unfolding inode_wf_def s by blast
  show "meta_used sb v' = meta_used sb v" using d u by (simp add: meta_used_def)
  show "nfree sb v' = nfree sb v" unfolding nfree_def using u by (metis (mono_tags, lifting))
  show "ind_set v' d = ind_set v d" "ind_need v' d = ind_need v d" by (simp_all add: ind_set_def ind_need_def s)
  show "iblock v' d = iblock v d" by (simp add: fun_eq_iff iblock_slot s)
  have "?b \<in> own_blocks v d" using b k(2) by (auto simp: own_blocks_def)
  then have "c \<notin> own_blocks v d \<Longrightarrow> v' c = v c" for c by (auto simp: v'_def)
  then show "kept sb v d v' d" using u unfolding kept_def s by simp
qed

text \<open>The file holds \<open>bs\<close> at \<open>off\<close> and is otherwise as before.\<close>

definition written ::
  "superblock \<Rightarrow> (nat \<Rightarrow> byte list) \<Rightarrow> dinode \<Rightarrow> nat \<Rightarrow> byte list \<Rightarrow> (nat \<Rightarrow> byte list) \<Rightarrow> dinode \<Rightarrow> bool" where
  "written sb v d off bs v' d' \<longleftrightarrow> inode_wf sb v' d' \<and> meta_used sb v' \<and> kept sb v d v' d' \<and>
     (\<forall>p. off \<le> p \<and> p < off + length bs \<longrightarrow>
        iblock v' d' (p div BSIZE) \<noteq> 0 \<and> file_byte v' d' p = bs ! (p - off)) \<and>
     (\<forall>p. p div BSIZE < MAXFILE \<and> iblock v d (p div BSIZE) \<noteq> 0 \<and> (p < off \<or> off + length bs \<le> p) \<longrightarrow>
        file_byte v' d' p = file_byte v d p)"

lemma written_Nil: "inode_wf sb v d \<Longrightarrow> meta_used sb v \<Longrightarrow> written sb v d off [] v d"
  by (simp add: written_def)

lemma kept_iblock:
  "kept sb v d v' d' \<Longrightarrow> k < MAXFILE \<Longrightarrow> iblock v d k \<noteq> 0 \<Longrightarrow> iblock v' d' k = iblock v d k"
  using slot_of_bound(1) [of k] by (simp add: kept_def iblock_slot)

lemma written_append:
  assumes 1: "written sb v d off xs v' d'" and 2: "written sb v' d' (off + length xs) ys v'' d''"
    and max: "off + length xs + length ys \<le> MAXFILE * BSIZE"
  shows "written sb v d off (xs @ ys) v'' d''"
  unfolding written_def
proof (intro conjI allI impI)
  have k: "kept sb v d v' d'" "kept sb v' d' v'' d''" and w: "inode_wf sb v'' d''"
    using 1 2 by (simp_all add: written_def)
  show "inode_wf sb v'' d''" "meta_used sb v''" using 2 by (simp_all add: written_def)
  show "kept sb v d v'' d''" by (rule kept_trans [OF k w])
next
  fix p assume p: "off \<le> p \<and> p < off + length (xs @ ys)"
  have kb: "p div BSIZE < MAXFILE" using p max by (simp add: less_mult_imp_div_less)
  have a: "iblock v'' d'' (p div BSIZE) \<noteq> 0 \<and> file_byte v'' d'' p = (xs @ ys) ! (p - off)"
  proof (cases "p < off + length xs")
    case True
    then have "iblock v' d' (p div BSIZE) \<noteq> 0" "file_byte v' d' p = xs ! (p - off)"
      using 1 p by (simp_all add: written_def)
    moreover have "kept sb v' d' v'' d''" "p - off < length xs" using 2 p True by (simp add: written_def, arith)
    ultimately show ?thesis
      using 2 kb True p kept_iblock [of sb v' d' v'' d''] by (simp add: written_def nth_append)
  next
    case False
    then show ?thesis using 2 p by (auto simp: written_def nth_append algebra_simps)
  qed
  then show "iblock v'' d'' (p div BSIZE) \<noteq> 0" "file_byte v'' d'' p = (xs @ ys) ! (p - off)" by simp_all
next
  fix p assume p: "p div BSIZE < MAXFILE \<and> iblock v d (p div BSIZE) \<noteq> 0 \<and> (p < off \<or> off + length (xs @ ys) \<le> p)"
  have "kept sb v d v' d'" using 1 by (simp add: written_def)
  then have "iblock v' d' (p div BSIZE) \<noteq> 0" using p kept_iblock [of sb v d v' d'] by simp
  then have "file_byte v'' d'' p = file_byte v' d' p" using 2 p by (auto simp: written_def)
  moreover have "file_byte v' d' p = file_byte v d p" using 1 p by (auto simp: written_def)
  ultimately show "file_byte v'' d'' p = file_byte v d p" by simp
qed

text \<open>One round of the loop: the part of \<open>bs\<close> that goes into one block.\<close>

lemma written_block:
  assumes bm: "bmapped sb v d l (slot_of (off div BSIZE)) v1 d1 l1" and w: "inode_wf sb v d" and sb: "sb_ok sb"
    and k: "off div BSIZE < MAXFILE" and n: "length bs \<le> BSIZE - off mod BSIZE"
    and len: "length (v1 (iblock v1 d1 (off div BSIZE))) = BSIZE"
  defines "b \<equiv> iblock v1 d1 (off div BSIZE)"
  shows "written sb v d off bs (v1(b := bsplice (off mod BSIZE) bs (v1 b))) d1"
proof -
  let ?k = "off div BSIZE" and ?x = "bsplice (off mod BSIZE) bs (v1 b)"
  have w1: "inode_wf sb v1 d1" "meta_used sb v1" "grown sb v d v1 d1" and b0: "b \<noteq> 0"
    using bm by (simp_all add: bmapped_def b_def iblock_slot)
  have k1: "kept sb v d v1 d1" by (rule grown_kept [OF w1(3)])
  let ?v = "v1(b := ?x)"
  note du = data_update [OF w1(1) sb k b0 [unfolded b_def], where x = ?x, folded b_def]
  have fit: "off mod BSIZE + length bs \<le> length (v1 b)" using n len by (simp add: b_def)
  have fb: "file_byte ?v d1 p = (if p div BSIZE = ?k then ?x ! (p mod BSIZE) else file_byte v1 d1 p)"
    if "p div BSIZE < MAXFILE" "iblock v1 d1 (p div BSIZE) \<noteq> 0" for p
  proof -
    have "iblock v1 d1 (p div BSIZE) = b \<longleftrightarrow> p div BSIZE = ?k"
      using inode_wfD(4) [OF w1(1) slot_of_bound(1) [OF that(1)], of "slot_of ?k"] that(2) slot_of_bound(1) [OF k]
        slot_of_bound(3) by (auto simp: b_def iblock_slot)
    then show ?thesis using du(9) by (simp add: file_byte_def)
  qed
  show ?thesis
    unfolding written_def
  proof (intro conjI allI impI)
    show "inode_wf sb ?v d1" "meta_used sb ?v" using du w1 by simp_all
    show "kept sb v d ?v d1" by (rule kept_trans [OF k1 du(8,3)])
  next
    fix p assume p: "off \<le> p \<and> p < off + length bs"
    then have j: "p - off < length bs" by arith
    have pb: "p div BSIZE = ?k" "p mod BSIZE = off mod BSIZE + (p - off)"
      using same_block [OF j n] p by simp_all
    show "iblock ?v d1 (p div BSIZE) \<noteq> 0" using du(9) pb b0 by (simp add: b_def)
    have "file_byte ?v d1 p = ?x ! (p mod BSIZE)" using fb [of p] pb k b0 by (simp add: b_def)
    then show "file_byte ?v d1 p = bs ! (p - off)"
      using pb(2) j fit by (simp add: nth_bsplice)
  next
    fix p assume p: "p div BSIZE < MAXFILE \<and> iblock v d (p div BSIZE) \<noteq> 0 \<and> (p < off \<or> off + length bs \<le> p)"
    have i1: "iblock v1 d1 (p div BSIZE) = iblock v d (p div BSIZE)" using kept_iblock [OF k1] p by simp
    have own: "iblock v d (p div BSIZE) = slot v d (slot_of (p div BSIZE))" "slot_of (p div BSIZE) < NSLOT"
      using p slot_of_bound(1) by (simp_all add: iblock_slot)
    have "iblock v d (p div BSIZE) \<notin> ind_set v d"
      using inode_wfD(4) [OF w own(2), of NDIRECT] own p slot_of_bound(2) [of "p div BSIZE"]
      by (auto simp: ind_set_def)
    moreover have "iblock v d (p div BSIZE) \<noteq> sb_bmapstart sb" "iblock v d (p div BSIZE) < sb_size sb"
      "used sb v (iblock v d (p div BSIZE))"
      using inode_wfD [OF w own(2)] own p by (auto simp: data_start_def)
    ultimately have same: "v1 (iblock v d (p div BSIZE)) = v (iblock v d (p div BSIZE))"
      using w1(3) by (simp add: grown_def)
    then have old: "file_byte v1 d1 p = file_byte v d p" using i1 by (simp add: file_byte_def)
    show "file_byte ?v d1 p = file_byte v d p"
    proof (cases "p div BSIZE = ?k")
      case True
      have "p mod BSIZE < BSIZE" by simp
      moreover have "\<not> (off mod BSIZE \<le> p mod BSIZE \<and> p mod BSIZE < off mod BSIZE + length bs)"
      proof
        assume h: "off mod BSIZE \<le> p mod BSIZE \<and> p mod BSIZE < off mod BSIZE + length bs"
        have "p = ?k * BSIZE + p mod BSIZE" "off = ?k * BSIZE + off mod BSIZE" using True by (metis div_mult_mod_eq)+
        then show False using p h by linarith
      qed
      ultimately have "?x ! (p mod BSIZE) = v1 b ! (p mod BSIZE)" using fit len by (auto simp: nth_bsplice b_def)
      moreover have "file_byte v1 d1 p = v1 b ! (p mod BSIZE)" using True by (simp add: file_byte_def b_def)
      ultimately show ?thesis using fb [of p] i1 p True old by simp
    next
      case False
      then show ?thesis using fb [of p] i1 p old by simp
    qed
  qed
qed

lemma less_imp_Suc_diff: "a + 1 \<le> b \<Longrightarrow> b - a = Suc (b - (a + 1))" for a b :: nat
  by simp

section \<open>The loop\<close>

text \<open>The number of blocks the bytes \<open>off\<close>, \<open>\<dots>\<close>, \<open>off + n - 1\<close> lie in, which is the number of rounds.\<close>

definition rounds :: "nat \<Rightarrow> nat \<Rightarrow> nat" where
  "rounds off n = (if n = 0 then 0 else Suc ((off + n - 1) div BSIZE - off div BSIZE))"

lemma rounds_0 [simp]: "rounds off 0 = 0"
  by (simp add: rounds_def)

lemma rounds_step:
  fixes off n :: nat
  assumes "0 < n"
  defines "m \<equiv> min n (BSIZE - off mod BSIZE)"
  shows "rounds off n = Suc (rounds (off + m) (n - m))"
proof (cases "n \<le> BSIZE - off mod BSIZE")
  case True
  then have m: "m = n" by (simp add: m_def)
  have "n - 1 < n" using assms(1) by simp
  from same_block(1) [OF this True] have "(off + (n - 1)) div BSIZE = off div BSIZE" .
  moreover have "off + n - 1 = off + (n - 1)" using assms(1) by simp
  ultimately show ?thesis using assms(1) m by (simp add: rounds_def)
next
  case False
  then have m: "m = BSIZE - off mod BSIZE" by (simp add: m_def)
  have e: "off + m = (off div BSIZE + 1) * BSIZE" 
  proof -
    have "off = off div BSIZE * BSIZE + off mod BSIZE" "off mod BSIZE < BSIZE" by (rule div_mult_mod_eq [symmetric]) simp
    then show ?thesis using m by (simp only: add_mult_distrib)
  qed
  have k: "(off + m) div BSIZE = off div BSIZE + 1" unfolding e by simp
  have "off + m \<le> off + n - 1" using False m by simp
  then have "off div BSIZE + 1 \<le> (off + n - 1) div BSIZE" using div_le_mono [of "off + m" _ BSIZE] k by simp
  then have "(off + n - 1) div BSIZE - off div BSIZE = Suc ((off + n - 1) div BSIZE - (off + m) div BSIZE)"
    unfolding k by (rule less_imp_Suc_diff)
  moreover have "off + m + (n - m) - 1 = off + n - 1" "n - m \<noteq> 0" "n \<noteq> 0" using False m by simp_all
  ultimately show ?thesis unfolding rounds_def by (simp only: if_False)
qed

lemma length_add_log': "length lh \<le> length (add_log b lh)"
  by (simp add: add_log_def)

lemma bmapped_need:
  assumes bm: "bmapped sb v d l (slot_of k) v1 d1 l1"
  shows "log_need sb v1 d1 (add_log (iblock v1 d1 k) l1) \<le> log_need sb v d l + 1"
proof -
  let ?b = "iblock v1 d1 k"
  have "ind_set v d \<subseteq> ind_set v1 d1" using bm unfolding bmapped_def by (intro grown_ind) blast
  moreover have "set (add_log ?b l1) \<subseteq> set l \<union> {sb_bmapstart sb} \<union> {?b} \<union> ind_set v1 d1"
    using bm by (auto simp: bmapped_def iblock_slot)
  ultimately have "log_need sb v1 d1 (add_log ?b l1) \<le> log_need sb v d l + card {?b}" by (intro log_need_step) simp_all
  then show ?thesis by simp
qed

text \<open>After a round, there is still room for the rest.\<close>

lemma round_pre:
  fixes s u :: "'a fs_state_scheme"
  assumes pre: "wr_pre (Suc r) i s" and k: "k < MAXFILE"
    and bm: "bmapped (fs_sb s) (view s) (i_din (icache s i)) (log_lh s) (slot_of k) v1 d1 l1"
    and u: "fs_to (v1(iblock v1 d1 k := x)) (add_log (iblock v1 d1 k) l1) d1 i s u"
  shows "wr_pre r i u"
    "log_need (fs_sb s) (view u) (i_din (icache u i)) (log_lh u) \<le> log_need (fs_sb s) (view s) (i_din (icache s i)) (log_lh s) + 1"
    "nfree (fs_sb s) (view s) + ind_need (view u) (i_din (icache u i)) \<le>
     nfree (fs_sb s) (view u) + ind_need (view s) (i_din (icache s i)) + 1"
proof -
  note P = wr_preD [OF pre] and uD = fs_toD [OF u]
  let ?sb = "fs_sb s" and ?v = "view s" and ?d = "i_din (icache s i)" and ?b = "iblock v1 d1 k"
  have b: "inode_wf ?sb v1 d1" "?b \<noteq> 0" "meta_used ?sb v1" using bm by (simp_all add: bmapped_def iblock_slot)
  note du = data_update [OF b(1) P(4) k b(2), where x = x]
  let ?v2 = "v1(?b := x)"
  have ln: "log_need ?sb ?v2 d1 (add_log ?b l1) \<le> log_need ?sb ?v ?d (log_lh s) + 1"
    using bmapped_need [OF bm] by (simp only: log_need_def du(6,7))
  then show "log_need ?sb (view u) (i_din (icache u i)) (log_lh u) \<le> log_need ?sb ?v ?d (log_lh s) + 1"
    using uD by simp
  have nf: "nfree ?sb ?v + ind_need ?v2 d1 \<le> nfree ?sb ?v2 + ind_need ?v ?d + 1"
    using bm slot_of_bound(2) [of k] by (simp add: du(5,7) bmapped_def)
  then show "nfree ?sb ?v + ind_need (view u) (i_din (icache u i)) \<le> nfree ?sb (view u) + ind_need ?v ?d + 1" using uD by simp
  show "wr_pre r i u"
    unfolding wr_pre_def
  proof (intro conjI)
    show "tx_inv u" "held u = {}" "fs_geom u" "i_dev (icache u i) = ROOTDEV" "log_outstanding u \<ge> 1"
      using uD P by simp_all
    show "inode_wf (fs_sb u) (view u) (i_din (icache u i))" "meta_used (fs_sb u) (view u)"
      using uD du(3,4) b by simp_all
    show "log_need (fs_sb u) (view u) (i_din (icache u i)) (log_lh u) + r + 1 < log_size u"
      using uD ln P(9) by simp
    show "r + ind_need (view u) (i_din (icache u i)) \<le> nfree (fs_sb u) (view u)" using uD nf P(10) by simp
  qed
qed

lemma writei_loop_wp:
  fixes s :: "'a cons_state_scheme"
  assumes "wr_pre (rounds off (length bs)) i s" and "off + length bs \<le> MAXFILE * BSIZE"
    and "\<And>v' l' d' t. fs_to v' l' d' i s t \<Longrightarrow> written (fs_sb s) (view s) (i_din (icache s i)) off bs v' d' \<Longrightarrow>
      wr_pre 0 i t \<Longrightarrow> log_need (fs_sb s) v' d' l' \<le> log_need (fs_sb s) (view s) (i_din (icache s i)) (log_lh s) + rounds off (length bs) \<Longrightarrow>
      nfree (fs_sb s) (view s) + ind_need v' d' \<le> nfree (fs_sb s) v' + ind_need (view s) (i_din (icache s i)) + rounds off (length bs) \<Longrightarrow>
      Q () t"
  shows "wp (writei_loop i off bs) Q s"
  using assms
proof (induction i off bs arbitrary: s Q rule: writei_loop.induct)
  case (1 i off bs)
  let ?v = "view s" and ?d = "i_din (icache s i)" and ?sb = "fs_sb s"
  note P = wr_preD [OF "1.prems"(1)]
  show ?case
  proof (cases "bs = []")
    case True
    then show ?thesis
      using "1.prems"(1) "1.prems"(3) [OF fs_toI [OF tx_to_refl [OF P(1)]]] written_Nil [OF P(6,7)]
      by (simp add: writei_loop.simps [of i off "[]"])
  next
    case False
    define m where "m = min (length bs) (BSIZE - off mod BSIZE)"
    let ?k = "off div BSIZE" and ?xs = "take m bs" and ?ys = "drop m bs"
    have m: "0 < m" "m \<le> length bs" "m \<le> BSIZE - off mod BSIZE" using False by (auto simp: m_def)
    have k: "?k < MAXFILE" using "1.prems"(2) False by (intro less_mult_imp_div_less) (cases bs; simp)
    have r: "rounds off (length bs) = Suc (rounds (off + m) (length ?ys))"
      using rounds_step [of "length bs" off] False by (simp add: m_def)
    note pre = "1.prems"(1) [unfolded r]
    have round: "wp (bread ROOTDEV (iblock v1 d1 ?k)) (\<lambda>bp. wp (buf_data bp) (\<lambda>d.
        wp (set_buf_data bp (bsplice (off mod BSIZE) ?xs d)) (\<lambda>_. wp (log_write bp) (\<lambda>_. wp (brelse bp) (\<lambda>_.
        wp (writei_loop i (off + m) ?ys) Q))))) t"
      if t: "fs_to v1 l1 d1 i s t" and bm: "bmapped ?sb ?v ?d (log_lh s) (slot_of ?k) v1 d1 l1" for v1 d1 l1 t
    proof -
      note tD = fs_toD [OF t]
      let ?b = "iblock v1 d1 ?k"
      have b: "inode_wf ?sb v1 d1" "?b \<noteq> 0" using bm by (simp_all add: bmapped_def iblock_slot)
      have bw: "data_start ?sb \<le> ?b" "?b < sb_size ?sb"
        using inode_wfD [OF b(1) slot_of_bound(1) [OF k]] b(2) by (simp_all add: iblock_slot)
      have len: "length (v1 ?b) = BSIZE" using tD(1,2) by (auto simp: tx_inv_def)
      have l1: "length l1 + 1 < log_size t"
        using bmapped_need [OF bm] log_need_ge [of "add_log ?b l1" ?sb v1 d1] tx_inv_distinct [OF tD(1)] P(9) r
          length_add_log' [of l1 ?b]
        by (simp add: tD)
      show ?thesis
      proof (rule tx_bread)
        show "tx_inv t" "?b < FSSIZE" "?b \<notin> held t" using tD P(2,4) bw by (auto simp: sb_ok_def)
        show "?b \<in> set (log_lh t) \<or> buf_room t" using buf_roomI0 [of t] tD P(2) by simp
        fix bp w assume w: "opened ?b bp (view t) (log_lh t) t w"
        show "wp (buf_data bp) (\<lambda>d.
          wp (set_buf_data bp (bsplice (off mod BSIZE) ?xs d)) (\<lambda>_. wp (log_write bp) (\<lambda>_. wp (brelse bp) (\<lambda>_.
          wp (writei_loop i (off + m) ?ys) Q)))) w"
        proof (rule tx_get [OF w], rule tx_update [OF tD(1) w])
          show "length (bsplice (off mod BSIZE) ?xs (view t ?b)) = BSIZE" using len tD(2) m by simp
          show "?b \<notin> log_area t" using fs_geom_area(3) [OF P(3) bw(1)] tD by simp
          show "log_outstanding t \<ge> 1 \<and> length (log_lh t) + 1 < log_size t" using l1 tD P(8) by simp
          fix u assume "tx_to ((view t)(?b := bsplice (off mod BSIZE) ?xs (view t ?b))) (add_log ?b (log_lh t)) t u"
          then have u: "fs_to (v1(?b := bsplice (off mod BSIZE) ?xs (v1 ?b))) (add_log ?b l1) d1 i s u"
            using fs_to_tx [OF t] tD by simp
          note uD = fs_toD [OF u] and R = round_pre [OF pre k bm u]
          have wr: "written ?sb ?v ?d off ?xs (view u) (i_din (icache u i))"
            using written_block [OF bm P(6,4) k _ len, of ?xs] m uD by simp
          show "wp (writei_loop i (off + m) ?ys) Q u"
          proof (rule "1.IH" [OF False m_def R(1)])
            show "off + m + length ?ys \<le> MAXFILE * BSIZE" using "1.prems"(2) m by simp
            fix v' l' d' x
            assume x: "fs_to v' l' d' i u x" "written (fs_sb u) (view u) (i_din (icache u i)) (off + m) ?ys v' d'"
              "wr_pre 0 i x" "log_need (fs_sb u) v' d' l' \<le> log_need (fs_sb u) (view u) (i_din (icache u i)) (log_lh u) + rounds (off + m) (length ?ys)"
              "nfree (fs_sb u) (view u) + ind_need v' d' \<le> nfree (fs_sb u) v' + ind_need (view u) (i_din (icache u i)) + rounds (off + m) (length ?ys)"
            show "Q () x"
            proof (rule "1.prems"(3) [OF fs_to_trans [OF u x(1)] _ x(3)])
              show "written ?sb ?v ?d off bs v' d'"
                using written_append [OF wr, of ?ys v' d'] x(2) uD(8) m "1.prems"(2) by simp
              show "log_need ?sb v' d' l' \<le> log_need ?sb ?v ?d (log_lh s) + rounds off (length bs)"
                using x(4) R(2) uD(8) r by simp
              show "nfree ?sb ?v + ind_need v' d' \<le> nfree ?sb v' + ind_need ?v ?d + rounds off (length bs)"
                using x(5) R(3) uD(8) r by simp
            qed
          qed
        qed
      qed
    qed
    show ?thesis
      unfolding writei_loop.simps [of i off bs]
      by (simp add: False P(5) Let_def flip: m_def)
        (rule bmap_wp [OF pre k], rule round)
  qed
qed

section \<open>\<open>writei\<close>\<close>

lemma iupdate_wp:
  fixes s :: "'a fs_state_scheme"
  assumes inv: "tx_inv s" and geom: "fs_geom s" and h: "held s = {}" and dev: "i_dev (icache s i) = ROOTDEV"
    and num: "i_inum (icache s i) < sb_ninodes (fs_sb s)" and d: "dinode_wf (i_din (icache s i))" and room: "log_room 1 s"
  defines "b \<equiv> IBLOCK (i_inum (icache s i)) (fs_sb s)"
  assumes Q: "\<And>t. tx_to ((view s)(b := set_dinode (i_inum (icache s i) mod IPB) (i_din (icache s i)) (view s b)))
      (add_log b (log_lh s)) s t \<Longrightarrow> Q () t"
  shows "wp (iupdate i) Q s"
proof -
  have sb: "sb_ok (fs_sb s)" using geom by (simp add: fs_geom_def)
  have b: "b < FSSIZE" "b \<notin> log_area s"
    using IBLOCK_bound [OF sb num] sb fs_geom_area(4) [OF geom num] by (auto simp: b_def sb_ok_def)
  have "wp (bread ROOTDEV b) (\<lambda>bp. wp (buf_data bp) (\<lambda>x.
      wp (set_buf_data bp (set_dinode (i_inum (icache s i) mod IPB) (i_din (icache s i)) x)) (\<lambda>_.
      wp (log_write bp) (\<lambda>_. wp (brelse bp) Q)))) s"
  proof (rule tx_bread [OF inv b(1)])
    show "b \<notin> held s" "b \<in> set (log_lh s) \<or> buf_room s" using h buf_roomI0 [OF inv h] by simp_all
    fix bp t assume t: "opened b bp (view s) (log_lh s) s t"
    show "wp (buf_data bp) (\<lambda>x.
      wp (set_buf_data bp (set_dinode (i_inum (icache s i) mod IPB) (i_din (icache s i)) x)) (\<lambda>_.
      wp (log_write bp) (\<lambda>_. wp (brelse bp) Q))) t"
    proof (rule tx_get [OF t], rule tx_update [OF inv t])
      show "length (set_dinode (i_inum (icache s i) mod IPB) (i_din (icache s i)) (view s b)) = BSIZE"
        using d inv by simp
      show "b \<notin> log_area s" "log_outstanding s \<ge> 1 \<and> length (log_lh s) + 1 < log_size s"
        using b room by (simp_all add: log_room_def)
    qed (rule Q)
  qed
  then show ?thesis by (simp add: iupdate_def Let_def dev b_def)
qed

text \<open>Changes before the free map, in the log or in the inodes, leave the files and the free map alone.\<close>

definition same_data :: "superblock \<Rightarrow> (nat \<Rightarrow> byte list) \<Rightarrow> (nat \<Rightarrow> byte list) \<Rightarrow> bool" where
  "same_data sb v v' \<longleftrightarrow> (\<forall>c \<ge> sb_bmapstart sb. v' c = v c)"

lemma same_data_upd: "c < sb_bmapstart sb \<Longrightarrow> same_data sb v (v(c := x))"
  by (simp add: same_data_def)

lemma same_data_used:
  assumes "same_data sb v v'" "sb_ok sb"
  shows "b < sb_size sb \<Longrightarrow> used sb v' b = used sb v b" "meta_used sb v' = meta_used sb v" "nfree sb v' = nfree sb v"
proof -
  show u: "used sb v' b = used sb v b" if "b < sb_size sb" for b
    using BBLOCK_one [OF assms(2) that] assms(1) by (simp add: used_def same_data_def)
  have "data_start sb \<le> sb_size sb" using assms(2) by (simp add: sb_ok_def data_start_def)
  then show "meta_used sb v' = meta_used sb v" using u by (simp add: meta_used_def)
  show "nfree sb v' = nfree sb v" unfolding nfree_def using u by (metis (mono_tags, lifting))
qed

lemma same_data_slot:
  assumes "same_data sb v v'" "inode_wf sb v d" "j < NSLOT"
  shows "slot v' d j = slot v d j" "slot v d j \<noteq> 0 \<Longrightarrow> v' (slot v d j) = v (slot v d j)"
proof -
  have e: "v' (slot v d j) = v (slot v d j)" if "j < NSLOT" "slot v d j \<noteq> 0" for j
    using inode_wfD(1) [OF assms(2) that] assms(1) by (simp add: data_start_def same_data_def)
  show "slot v d j \<noteq> 0 \<Longrightarrow> v' (slot v d j) = v (slot v d j)" using e assms(3) by simp
  show "slot v' d j = slot v d j" using e [of NDIRECT] by (auto simp: slot_def)
qed

lemma slot_size [simp]: "slot v (d\<lparr>d_size := n\<rparr>) = slot v d" "iblock v (d\<lparr>d_size := n\<rparr>) = iblock v d"
  "file_byte v (d\<lparr>d_size := n\<rparr>) = file_byte v d" "inode_wf sb v (d\<lparr>d_size := n\<rparr>) = inode_wf sb v d"
  by (auto simp: slot_def iblock_def file_byte_def inode_wf_def fun_eq_iff)

lemma kept_dinode_wf:
  assumes "kept sb v d v' d'" "inode_wf sb v' d'" "sb_ok sb" "dinode_wf d" "n < 2 ^ 32"
  shows "dinode_wf d'" "dinode_wf (d'\<lparr>d_size := n\<rparr>)"
proof -
  have e: "d' = d\<lparr>d_addrs := d_addrs d'\<rparr>" using assms(1) by (simp add: kept_def)
  have len: "length (d_addrs d') = NDIRECT + 1" using assms(2) by (simp add: inode_wf_def)
  have "a < 2 ^ 32" if a: "a \<in> set (d_addrs d')" for a
  proof -
    obtain j where j: "j < NDIRECT + 1" "a = d_addrs d' ! j" using a len by (metis in_set_conv_nth)
    then have "a = slot v' d' j" by (simp add: slot_def)
    then have "a = 0 \<or> a < sb_size sb" using inode_wfD(2) [OF assms(2), of j] j by auto
    then show ?thesis using assms(3) by (auto simp: sb_ok_def)
  qed
  then have "dinode_wf (d\<lparr>d_addrs := d_addrs d'\<rparr>)" "dinode_wf (d\<lparr>d_addrs := d_addrs d', d_size := n\<rparr>)"
    using assms(4,5) len by (auto simp: dinode_wf_def)
  then show "dinode_wf d'" "dinode_wf (d'\<lparr>d_size := n\<rparr>)" using e by (metis, metis)
qed

text \<open>The contents of a file, and that of another file that shares no block with it.\<close>

definition contents :: "(nat \<Rightarrow> byte list) \<Rightarrow> dinode \<Rightarrow> byte list" where
  "contents v d = file_bytes v d 0 (d_size d)"

definition file_wf :: "superblock \<Rightarrow> (nat \<Rightarrow> byte list) \<Rightarrow> dinode \<Rightarrow> bool" where
  "file_wf sb v d \<longleftrightarrow> inode_wf sb v d \<and> dinode_wf d \<and> d_type d \<noteq> T_DEV \<and> d_size d \<le> MAXFILE * BSIZE \<and>
     (\<forall>p < d_size d. iblock v d (p div BSIZE) \<noteq> 0)"

lemma file_wf_ok:
  assumes "file_wf sb v d" "sb_ok sb"
  shows "file_ok v d"
proof -
  have "mapped v d (p div BSIZE)" if p: "p < d_size d" for p
  proof -
    have k: "p div BSIZE < MAXFILE" using p assms(1) by (intro less_mult_imp_div_less) (simp add: file_wf_def)
    have n: "iblock v d (p div BSIZE) \<noteq> 0" and w: "inode_wf sb v d" using assms(1) p by (simp_all add: file_wf_def)
    have "iblock v d (p div BSIZE) < sb_size sb"
      using inode_wfD(2) [OF w slot_of_bound(1) [OF k]] n by (simp add: iblock_slot)
    moreover have "d_addrs d ! NDIRECT = 0 \<or> d_addrs d ! NDIRECT < sb_size sb"
      using inode_wfD(2) [OF w, of NDIRECT] by (auto simp: slot_def)
    ultimately show ?thesis using k n assms(2) by (auto simp: mapped_def sb_ok_def)
  qed
  then show ?thesis using assms(1) by (simp add: file_ok_def file_wf_def range_mapped_def)
qed

lemma file_bytes_nth [simp]: "j < n \<Longrightarrow> file_bytes v d off n ! j = file_byte v d (off + j)"
  by (simp add: file_bytes_def)

lemma contents_written:
  assumes w: "written sb v d off bs v' d'" and f: "file_wf sb v d" and o: "off \<le> d_size d"
    and n: "n = (if d_size d < off + length bs then off + length bs else d_size d)" "n \<le> MAXFILE * BSIZE"
  shows "file_bytes v' d' 0 n = take off (contents v d) @ bs @ drop (off + length bs) (contents v d)"
    "p < n \<Longrightarrow> iblock v' d' (p div BSIZE) \<noteq> 0"
proof -
  have lc: "length (contents v d) = d_size d" by (simp add: contents_def)
  have old: "p div BSIZE < MAXFILE \<and> iblock v d (p div BSIZE) \<noteq> 0" if "p < d_size d" for p
    using f that by (auto simp: file_wf_def intro!: less_mult_imp_div_less)
  have keep: "kept sb v d v' d'" using w by (simp add: written_def)
  show "iblock v' d' (p div BSIZE) \<noteq> 0" if "p < n" for p
  proof (cases "off \<le> p \<and> p < off + length bs")
    case True
    then show ?thesis using w by (simp add: written_def)
  next
    case False
    then have "p < d_size d" using that n(1) o by (auto split: if_splits)
    then show ?thesis using old kept_iblock [OF keep] by simp
  qed
  show "file_bytes v' d' 0 n = take off (contents v d) @ bs @ drop (off + length bs) (contents v d)"
  proof (rule nth_equalityI)
    show "length (file_bytes v' d' 0 n) = length (take off (contents v d) @ bs @ drop (off + length bs) (contents v d))"
      using o n(1) lc by auto
    fix p assume "p < length (file_bytes v' d' 0 n)"
    then have p: "p < n" by simp
    consider "p < off" | "off \<le> p" "p < off + length bs" | "off + length bs \<le> p" by linarith
    then show "file_bytes v' d' 0 n ! p = (take off (contents v d) @ bs @ drop (off + length bs) (contents v d)) ! p"
    proof cases
      case 1
      then have "file_byte v' d' p = file_byte v d p" using w old [of p] o by (simp add: written_def)
      then show ?thesis using p 1 o lc by (simp add: nth_append contents_def)
    next
      case 2
      then have "file_byte v' d' p = bs ! (p - off)" using w by (simp add: written_def)
      moreover have "p - off < length bs" using 2 by arith
      ultimately show ?thesis using p 2 o lc by (simp add: nth_append)
    next
      case 3
      then have pd: "p < d_size d" using p n(1) by (auto split: if_splits)
      then have "file_byte v' d' p = file_byte v d p" using w old [of p] 3 by (simp add: written_def)
      moreover have "\<not> p - off < length bs" "off + length bs + (p - (off + length bs)) = p" using 3 by arith+
      ultimately show ?thesis
        using p 3 o lc pd by (simp add: nth_append contents_def diff_diff_add)
    qed
  qed
qed

text \<open>The effect of a whole write on this file, and on every file that shares no block with it.\<close>

definition wrote ::
  "superblock \<Rightarrow> (nat \<Rightarrow> byte list) \<Rightarrow> dinode \<Rightarrow> nat \<Rightarrow> byte list \<Rightarrow> (nat \<Rightarrow> byte list) \<Rightarrow> dinode \<Rightarrow> bool" where
  "wrote sb v d off bs v' d' \<longleftrightarrow> file_wf sb v' d' \<and> meta_used sb v' \<and>
     d' = d\<lparr>d_size := d_size d', d_addrs := d_addrs d'\<rparr> \<and>
     contents v' d' = take off (contents v d) @ bs @ drop (off + length bs) (contents v d) \<and>
     (\<forall>e. file_wf sb v e \<and> own_blocks v d \<inter> own_blocks v e = {} \<longrightarrow>
        file_wf sb v' e \<and> contents v' e = contents v e \<and> own_blocks v' d' \<inter> own_blocks v' e = {})"

lemma own_blocksI: "j < NSLOT \<Longrightarrow> slot v d j \<noteq> 0 \<Longrightarrow> slot v d j \<in> own_blocks v d"
  by (simp add: own_blocks_def)

lemma own_blocks_size [simp]: "own_blocks v (d\<lparr>d_size := n\<rparr>) = own_blocks v d"
  by (simp add: own_blocks_def)

text \<open>A file whose slots, and the blocks in them, are the same.\<close>

lemma same_file:
  assumes s: "\<And>j. j < NSLOT \<Longrightarrow> slot v' e j = slot v e j"
    and b: "\<And>j. j < NSLOT \<Longrightarrow> slot v e j \<noteq> 0 \<Longrightarrow> v' (slot v e j) = v (slot v e j)"
    and u: "\<And>j. j < NSLOT \<Longrightarrow> slot v e j \<noteq> 0 \<Longrightarrow> used sb v' (slot v e j)"
    and f: "file_wf sb v e"
  shows "file_wf sb v' e" "contents v' e = contents v e" "own_blocks v' e = own_blocks v e"
proof -
  show "own_blocks v' e = own_blocks v e" unfolding own_blocks_def using s by (metis (no_types, lifting) image_cong lessThan_iff)
  have "inode_wf sb v' e" using f s u unfolding file_wf_def inode_wf_def by auto
  moreover have k: "p div BSIZE < MAXFILE" if "p < d_size e" for p
    using f that by (intro less_mult_imp_div_less) (simp add: file_wf_def)
  moreover have i: "iblock v' e k = iblock v e k" if "k < MAXFILE" for k
    using s [OF slot_of_bound(1) [OF that]] by (simp add: iblock_slot)
  ultimately show "file_wf sb v' e" using f by (auto simp: file_wf_def)
  have "file_byte v' e p = file_byte v e p" if "p < d_size e" for p
    using b [OF slot_of_bound(1) [OF k [OF that]]] f that i [OF k [OF that]]
    by (simp add: file_byte_def file_wf_def iblock_slot)
  then show "contents v' e = contents v e" by (simp add: contents_def file_bytes_def)
qed

lemma kept_other:
  assumes keep: "kept sb v d v' d'" and w': "inode_wf sb v' d'"
    and f: "file_wf sb v e" and dis: "own_blocks v d \<inter> own_blocks v e = {}"
  shows "file_wf sb v' e" "contents v' e = contents v e" "own_blocks v' d' \<inter> own_blocks v' e = {}"
proof -
  have w: "inode_wf sb v e" using f by (simp add: file_wf_def)
  have b: "v' (slot v e j) = v (slot v e j) \<and> used sb v' (slot v e j)" if "j < NSLOT" "slot v e j \<noteq> 0" for j
  proof -
    have "slot v e j \<notin> own_blocks v d" using own_blocksI [of j v e] that dis by auto
    then show ?thesis using inode_wfD [OF w that] keep by (auto simp: kept_def data_start_def)
  qed
  have s: "slot v' e j = slot v e j" if "j < NSLOT" for j
    using b [of NDIRECT] that by (auto simp: slot_def)
  have sf: "file_wf sb v' e" "contents v' e = contents v e" "own_blocks v' e = own_blocks v e"
    by (rule same_file [OF s _ _ f]; use b in blast)+
  then show "file_wf sb v' e" "contents v' e = contents v e" by simp_all
  have "c \<in> own_blocks v d" if "c \<in> own_blocks v' d'" "c \<in> own_blocks v e" for c
    using kept_own [OF keep _ that(1)] inode_wfD(3) [OF w] that(2) by (auto simp: own_blocks_def)
  then show "own_blocks v' d' \<inter> own_blocks v' e = {}" using dis sf(3) by blast
qed

lemma written_wrote:
  assumes w: "written sb v d off bs v' d'" and f: "file_wf sb v d" and sb: "sb_ok sb" and o: "off \<le> d_size d"
    and n: "n = (if d_size d < off + length bs then off + length bs else d_size d)" "n \<le> MAXFILE * BSIZE"
  shows "wrote sb v d off bs v' (d'\<lparr>d_size := n\<rparr>)"
proof -
  have k: "kept sb v d v' d'" and w': "inode_wf sb v' d'" "meta_used sb v'" using w by (simp_all add: written_def)
  note c = contents_written [OF w f o n]
  have e: "d' = d\<lparr>d_addrs := d_addrs d'\<rparr>" using k by (simp add: kept_def)
  have "dinode_wf (d'\<lparr>d_size := n\<rparr>)" using kept_dinode_wf(2) [OF k w'(1) sb] f n(2) by (simp add: file_wf_def)
  moreover have "d_type d' = d_type d" by (subst e) simp
  ultimately have "file_wf sb v' (d'\<lparr>d_size := n\<rparr>)" using w'(1) c(2) n(2) f by (simp add: file_wf_def)
  moreover have "contents v' (d'\<lparr>d_size := n\<rparr>) = file_bytes v' d' 0 n" by (simp add: contents_def file_bytes_def)
  moreover have "d'\<lparr>d_size := n\<rparr> = d\<lparr>d_size := d_size (d'\<lparr>d_size := n\<rparr>), d_addrs := d_addrs (d'\<lparr>d_size := n\<rparr>)\<rparr>"
    by (subst e) simp
  ultimately show ?thesis
    unfolding wrote_def own_blocks_size using w'(2) c(1) kept_other [OF k w'(1)] by (intro conjI allI impI) (blast | simp)+
qed

lemma same_data_file:
  assumes "same_data sb v v'" "sb_ok sb" "file_wf sb v e"
  shows "file_wf sb v' e" "contents v' e = contents v e" "own_blocks v' e = own_blocks v e" "ind_need v' e = ind_need v e"
proof -
  have w: "inode_wf sb v e" using assms(3) by (simp add: file_wf_def)
  note sl = same_data_slot [OF assms(1) w]
  have u: "used sb v' (slot v e j)" if "j < NSLOT" "slot v e j \<noteq> 0" for j
    using inode_wfD [OF w that] same_data_used(1) [OF assms(1,2)] by simp
  show "file_wf sb v' e" "contents v' e = contents v e" "own_blocks v' e = own_blocks v e"
    by (rule same_file [OF sl(1) sl(2) u assms(3)]; assumption)+
  show "ind_need v' e = ind_need v e" using sl(1) [of NDIRECT] by (simp add: ind_need_def)
qed

lemma wrote_same:
  assumes w: "wrote sb v d off bs v' d'" and sb: "sb_ok sb" and c: "same_data sb v' v''"
  shows "wrote sb v d off bs v'' d'"
proof -
  note same = same_data_file [OF c sb]
  have d: "file_wf sb v' d'" using w by (simp add: wrote_def)
  then show ?thesis using w same same_data_used(2) [OF c sb] unfolding wrote_def by auto
qed

lemma writei_wp:
  fixes s :: "'a cons_state_scheme" and i :: nat
  defines "d \<equiv> i_din (icache s i)" and "ino \<equiv> i_inum (icache s i)" and "sb \<equiv> fs_sb s"
  assumes pre: "wr_pre (rounds off (length bs)) i s" and num: "ino < sb_ninodes sb"
    and f: "file_wf sb (view s) d" and o: "off \<le> d_size d" "off + length bs \<le> MAXFILE * BSIZE"
    and Q: "\<And>v' l' d' t. fs_to v' l' d' i s t \<Longrightarrow> wrote sb (view s) d off bs v' d' \<Longrightarrow>
      (d_size d < off + length bs \<Longrightarrow> dinode_at (v' (IBLOCK ino sb)) (ino mod IPB) = d') \<Longrightarrow>
      length l' \<le> log_need sb (view s) d (log_lh s) + rounds off (length bs) + 1 \<Longrightarrow>
      nfree sb (view s) + ind_need v' d' \<le> nfree sb v' + ind_need (view s) d + rounds off (length bs) \<Longrightarrow> Q (int (length bs)) t"
  shows "wp (writei i off bs) Q s"
proof -
  note P = wr_preD [OF pre, folded sb_def]
  let ?n = "off + length bs" and ?IB = "IBLOCK ino sb"
  have fix_size: "wp (kget (\<lambda>s. d_size (i_din (icache s i)))) (\<lambda>sz.
      wp (kwhen (0 < length bs \<and> sz < ?n)
        (kseq (kmodify (upd_inode i (upd_din (\<lambda>d. d\<lparr>d_size := ?n\<rparr>)))) (iupdate i)))
      (\<lambda>_. Q (int (length bs)))) t"
    if t: "fs_to v1 l1 d1 i s t" and w: "written sb (view s) d off bs v1 d1" and pt: "wr_pre 0 i t"
      and need: "log_need sb v1 d1 l1 \<le> log_need sb (view s) d (log_lh s) + rounds off (length bs)"
      and free: "nfree sb (view s) + ind_need v1 d1 \<le> nfree sb v1 + ind_need (view s) d + rounds off (length bs)" for v1 l1 d1 t
  proof -
    note tD = fs_toD [OF t]
    have keep: "kept sb (view s) d v1 d1" "inode_wf sb v1 d1" using w by (simp_all add: written_def)
    then have "d1 = d\<lparr>d_addrs := d_addrs d1\<rparr>" by (simp add: kept_def)
    then have sz: "d_size d1 = d_size d" by (metis dinode.select_convs(6) dinode.simps(8) dinode.surjective dinode.update_convs(7))
    have len: "length l1 \<le> log_need sb v1 d1 l1" using tx_inv_distinct [OF tD(1)] tD(3) by (simp add: log_need_ge)
    show ?thesis
    proof (cases "d_size d < ?n")
      case False
      have "wrote sb (view s) d off bs v1 (d1\<lparr>d_size := d_size d\<rparr>)"
        by (rule written_wrote [OF w f P(4) o(1)]) (use False f in \<open>simp_all add: file_wf_def\<close>)
      moreover have "d1\<lparr>d_size := d_size d\<rparr> = d1" using sz by simp
      ultimately have "Q (int (length bs)) t" using Q [OF t] False need len free by simp
      then show ?thesis using False tD(7) sz by simp
    next
      case True
      let ?d = "d1\<lparr>d_size := ?n\<rparr>" and ?u = "upd_inode i (upd_din (\<lambda>d. d\<lparr>d_size := ?n\<rparr>)) t"
      have u: "fs_to v1 l1 ?d i s ?u" by (rule fs_to_upd [OF t])
      note uD = fs_toD [OF u]
      have ui: "i_inum (icache ?u i) = ino" "fs_sb ?u = sb" "i_din (icache ?u i) = ?d"
        using uD(7,8) by (simp_all add: ino_def sb_def)
      have dw: "dinode_wf ?d" using kept_dinode_wf(2) [OF keep P(4), of ?n] f o(2) by (simp add: file_wf_def)
      have ib: "?IB < sb_bmapstart sb" using IBLOCK_bound(1) [OF P(4) num] .
      have "wp (iupdate i) (\<lambda>_. Q (int (length bs))) ?u"
      proof (rule iupdate_wp)
        show "tx_inv ?u" "fs_geom ?u" "held ?u = {}" "i_dev (icache ?u i) = ROOTDEV"
          using uD P by simp_all
        show "i_inum (icache ?u i) < sb_ninodes (fs_sb ?u)" "dinode_wf (i_din (icache ?u i))"
          unfolding ui by (rule num, rule dw)
        show "log_room 1 ?u" using uD(6) [of 1] P(8) wr_preD(9,11) [OF pt] tD(3,11) by simp
        fix x assume "tx_to ((view ?u)(IBLOCK (i_inum (icache ?u i)) (fs_sb ?u) := set_dinode (i_inum (icache ?u i) mod IPB)
          (i_din (icache ?u i)) (view ?u (IBLOCK (i_inum (icache ?u i)) (fs_sb ?u)))))
          (add_log (IBLOCK (i_inum (icache ?u i)) (fs_sb ?u)) (log_lh ?u)) ?u x"
        from this [unfolded ui] have x: "fs_to (v1(?IB := set_dinode (ino mod IPB) ?d (v1 ?IB))) (add_log ?IB l1) ?d i s x"
          using fs_to_tx [OF u] uD by simp
        show "Q (int (length bs)) x"
        proof (rule Q [OF x])
          let ?v2 = "v1(?IB := set_dinode (ino mod IPB) ?d (v1 ?IB))"
          have same: "same_data sb v1 ?v2" by (rule same_data_upd [OF ib])
          have wr: "wrote sb (view s) d off bs v1 ?d" by (rule written_wrote [OF w f P(4) o(1) _ o(2)]) (use True in simp)
          then have "file_wf sb v1 ?d" unfolding wrote_def by blast
          then have "ind_need ?v2 ?d = ind_need v1 ?d" by (rule same_data_file(4) [OF same P(4)])
          then show "nfree sb (view s) + ind_need ?v2 ?d \<le> nfree sb ?v2 + ind_need (view s) d + rounds off (length bs)"
            using free same_data_used(3) [OF same P(4)] by (simp add: ind_need_def)
          show "wrote sb (view s) d off bs ?v2 ?d" by (rule wrote_same [OF wr P(4) same])
          have "length (v1 ?IB) = BSIZE" using tD(1,2) by (auto simp: tx_inv_def)
          then show "dinode_at ((v1(?IB := set_dinode (ino mod IPB) ?d (v1 ?IB))) ?IB) (ino mod IPB) = ?d"
            using dw by (simp add: dinode_at_set_dinode)
          show "length (add_log ?IB l1) \<le> log_need sb (view s) d (log_lh s) + rounds off (length bs) + 1"
            using length_add_log [of ?IB l1] len need by simp
        qed
      qed
      moreover have "bs \<noteq> []" using True o(1) by auto
      ultimately show ?thesis using True tD(7) sz by simp
    qed
  qed
  have nowrap: "\<not> ?n mod 2 ^ 32 < off" using o(2) by simp
  have "wp (writei_loop i off bs) (\<lambda>_. wp (kget (\<lambda>s. d_size (i_din (icache s i)))) (\<lambda>sz.
      wp (kwhen (0 < length bs \<and> sz < ?n)
        (kseq (kmodify (upd_inode i (upd_din (\<lambda>d. d\<lparr>d_size := ?n\<rparr>)))) (iupdate i)))
      (\<lambda>_. Q (int (length bs))))) s"
    by (rule writei_loop_wp [OF pre o(2)], rule fix_size) (simp_all add: sb_def d_def)
  moreover have "d_type d \<noteq> T_DEV" using f by (simp add: file_wf_def)
  ultimately show ?thesis using o nowrap unfolding writei_def by (simp add: Let_def d_def)
qed

section \<open>Reading what was written\<close>


text \<open>C8: What has been written is what is read: a read of the written range after the write returns exactly the
  bytes written.\<close>

theorem write_read_round_trip:
  fixes s :: "'a cons_state_scheme" and i :: nat
  assumes "wr_pre (rounds off (length bs)) i s" and "i_inum (icache s i) < sb_ninodes (fs_sb s)"
    and "file_wf (fs_sb s) (view s) (i_din (icache s i))" and "off \<le> d_size (i_din (icache s i))"
    and "off + length bs \<le> MAXFILE * BSIZE"
  shows "wp (writei i off bs) (\<lambda>n. wp (readi i off (length bs)) (\<lambda>r t. n = int (length bs) \<and> r = (int (length bs), bs))) s"
proof (rule writei_wp [OF assms])
  fix v' l' d' t
  let ?d = "i_din (icache s i)"
  assume t: "fs_to v' l' d' i s t" and w: "wrote (fs_sb s) (view s) ?d off bs v' d'"
  note tD = fs_toD [OF t] and P = wr_preD [OF assms(1)]
  let ?c = "take off (contents (view s) ?d) @ bs @ drop (off + length bs) (contents (view s) ?d)"
  have f: "file_wf (fs_sb s) v' d'" and c: "contents v' d' = ?c" using w by (simp_all add: wrote_def)
  have len: "length (contents v e) = d_size e" for v e by (simp add: contents_def)
  have sz: "off + length bs \<le> d_size d'" using arg_cong [OF c, of length] assms(4) by (simp add: len)
  have "file_bytes v' d' off (length bs) = bs"
  proof (rule nth_equalityI)
    fix j assume j: "j < length (file_bytes v' d' off (length bs))"
    then have "file_byte v' d' (off + j) = contents v' d' ! (off + j)" using sz by (simp add: contents_def)
    also have "\<dots> = bs ! j" using c j assms(4) by (simp add: nth_append len)
    finally show "file_bytes v' d' off (length bs) ! j = bs ! j" using j by simp
  qed simp
  moreover have "min (length bs) (d_size d' - off) = length bs" using sz by simp
  ultimately show "wp (readi i off (length bs)) (\<lambda>r t. int (length bs) = int (length bs) \<and> r = (int (length bs), bs)) t"
    using tD P(2,5) file_wf_ok [OF f P(4)] sz assms(5) by (intro readi_wp) simp_all
qed

text \<open>An empty file on an otherwise empty disk, with a transaction open.\<close>

definition demo_inode :: inode where
  "demo_inode = empty_inode\<lparr>i_dev := ROOTDEV, i_inum := 5, i_ref := 1, i_valid := True,
     i_din := zero_dinode\<lparr>d_type := T_FILE, d_nlink := 1\<rparr>\<rparr>"

definition demo_file :: cons_state where
  "demo_file = demo_cons\<lparr>log_outstanding := 1, icache := (\<lambda>_. empty_inode)(0 := demo_inode),
     disk := (\<lambda>_. (\<lambda>_. replicate BSIZE 0)(58 := replicate 8 (- 1) @ replicate 504 0))\<rparr>"

lemma demo_file_sel:
  "bufs demo_file = (\<lambda>_. empty_buf)" "lru demo_file = [0..<NBUF]" "idequeue demo_file = []" "havedisk1 demo_file"
  "disk demo_file = (\<lambda>_. (\<lambda>_. replicate BSIZE 0)(58 := replicate 8 (- 1) @ replicate 504 0))"
  "log_start demo_file = 2" "log_size demo_file = 30" "log_outstanding demo_file = 1" "log_dev demo_file = ROOTDEV"
  "log_lh demo_file = []" "fs_sb demo_file = demo_sb" "icache demo_file 0 = demo_inode"
  by (simp_all add: demo_file_def demo_cons_def demo_fs_def demo_boot_def cons_state.defs fs_state.defs log_state.defs)

lemma demo_file_view: "view demo_file = (\<lambda>_. replicate BSIZE 0)(58 := replicate 8 (- 1) @ replicate 504 0)"
  by (rule ext) (simp add: view_def cached_def demo_file_sel empty_buf_def find_None_iff split: option.splits)

lemma demo_file_used:
  assumes "b < 1000"
  shows "used demo_sb (view demo_file) b \<longleftrightarrow> b < 64"
proof (cases "b < 64")
  case True
  then have "b div 8 < 8" by (simp add: less_mult_imp_div_less)
  then show ?thesis
    using True by (simp add: used_def BBLOCK_def demo_sb_def demo_file_view bm_used_bit nth_append)
next
  case False
  then have "8 \<le> b div 8" "b div 8 < 512" using assms by (simp_all add: less_mult_imp_div_less div_le_mono [of 64 b 8, simplified])
  then show ?thesis
    using False assms by (simp add: used_def BBLOCK_def demo_sb_def demo_file_view bm_used_bit nth_append)
qed

lemma demo_file_slot: "j < NSLOT \<Longrightarrow> slot v (i_din demo_inode) j = 0"
  by (simp add: slot_def demo_inode_def zero_dinode_def)

lemma demo_file_ready:
  "wr_pre 1 0 demo_file" "file_wf (fs_sb demo_file) (view demo_file) (i_din (icache demo_file 0))"
  "bio_inv demo_file" "held demo_file = {}" "pinned demo_file = {}" "meta_used demo_sb (view demo_file)"
  "936 \<le> nfree demo_sb (view demo_file)" "sb_ok demo_sb" "ind_need (view demo_file) (i_din demo_inode) = 1"
proof -
  have w: "inode_wf demo_sb (view demo_file) (i_din demo_inode)"
    by (simp add: inode_wf_def demo_file_slot) (simp add: demo_inode_def zero_dinode_def)
  then show "file_wf (fs_sb demo_file) (view demo_file) (i_din (icache demo_file 0))"
    by (simp add: file_wf_def demo_file_sel) (simp add: demo_inode_def zero_dinode_def dinode_wf_def is_s16_def T_FILE_def T_DEV_def)
  show b: "bio_inv demo_file" "held demo_file = {}" "pinned demo_file = {}"
    by (auto simp: demo_file_sel bio_inv_def buf_ok_def empty_buf_def held_def pinned_def)
  have g: "log_geom demo_file" "lh_ok demo_file []" "fs_geom demo_file"
    by (simp_all add: demo_file_sel log_geom_def lh_ok_def fs_geom_def sb_ok_def demo_sb_def)
  show m: "meta_used demo_sb (view demo_file)" "sb_ok demo_sb"
    by (simp_all add: meta_used_def data_start_def sb_ok_def demo_sb_def demo_file_used [unfolded demo_sb_def])
  have "{64..<1000} \<subseteq> {c. c < sb_size demo_sb \<and> \<not> used demo_sb (view demo_file) c}"
    by (auto simp: demo_sb_def demo_file_used [unfolded demo_sb_def])
  then have "card {64 :: nat ..<1000} \<le> nfree demo_sb (view demo_file)" unfolding nfree_def by (rule card_mono [rotated]) simp
  then show n: "936 \<le> nfree demo_sb (view demo_file)" by simp
  show i: "ind_need (view demo_file) (i_din demo_inode) = 1" by (simp add: ind_need_def demo_file_slot)
  have "log_need demo_sb (view demo_file) (i_din demo_inode) [] = 2"
    by (simp add: log_need_def ind_set_def ind_need_def demo_file_slot)
  then show "wr_pre 1 0 demo_file"
    using w b g m n i by (simp add: wr_pre_def tx_inv_def demo_file_sel) (simp add: demo_inode_def)
qed

lemma demo_file_pre:
  "wr_pre (rounds 0 (length [104, 105 :: byte])) 0 demo_file" "i_inum (icache demo_file 0) < sb_ninodes (fs_sb demo_file)"
  "0 \<le> d_size (i_din (icache demo_file 0))" "0 + length [104, 105 :: byte] \<le> MAXFILE * BSIZE"
  using demo_file_ready by (simp_all add: rounds_def demo_file_sel demo_sb_def demo_inode_def)


theorem write_read_round_trip_witness:
  "wp (writei 0 0 [104, 105]) (\<lambda>n. wp (readi 0 0 2) (\<lambda>r t. n = 2 \<and> r = (2, [104, 105]))) demo_file"
  using write_read_round_trip [OF demo_file_pre(1,2) demo_file_ready(2) demo_file_pre(3,4)]
  by (simp add: eval_nat_numeral)

end
