(* ===== verification/File.thy ===== *)
theory File
  imports Pipe Writei
begin

text \<open>
  The file layer, \<^verbatim>\<open>file.c\<close>, and \<open>pipealloc\<close>: open files are entries of a table, with a reference count, that stand for
  a pipe end or for an inode with an offset.  Data is passed by value.  The main result is about
  \<open>filewrite\<close>: it cuts the data into pieces, each written by a transaction of its own, and together they are one
  write of the whole, which is on the disk when the call returns.
\<close>

section \<open>Operations\<close>

definition upd_file :: "nat \<Rightarrow> (file_t \<Rightarrow> file_t) \<Rightarrow> 'a file_state_scheme \<Rightarrow> 'a file_state_scheme" where
  "upd_file f g s = s\<lparr>ftable := (ftable s)(f := g (ftable s f))\<rparr>"

definition filealloc :: "('a file_state_scheme, nat option) kernel" where
  "filealloc = kbind (kget ftable) (\<lambda>ft.
     case List.find (\<lambda>f. f_ref (ft f) = 0) [0..<NFILE] of
       None \<Rightarrow> kreturn None
     | Some f \<Rightarrow> kseq (kmodify (upd_file f (\<lambda>e. e\<lparr>f_ref := 1\<rparr>))) (kreturn (Some f)))"

definition filedup :: "nat \<Rightarrow> ('a file_state_scheme, nat) kernel" where
  "filedup f = kbind (kget (\<lambda>s. f_ref (ftable s f))) (\<lambda>r.
     if r < 1 then kpanic ''filedup''
     else kseq (kmodify (upd_file f (\<lambda>e. e\<lparr>f_ref := f_ref e + 1\<rparr>))) (kreturn f))"

definition fileclose :: "nat \<Rightarrow> ('a file_state_scheme, unit) kernel" where
  "fileclose f = kbind (kget (\<lambda>s. ftable s f)) (\<lambda>ff.
     if f_ref ff < 1 then kpanic ''fileclose''
     else if f_ref ff - 1 > 0 then kmodify (upd_file f (\<lambda>e. e\<lparr>f_ref := f_ref e - 1\<rparr>))
     else
       kseq (kmodify (upd_file f (\<lambda>e. e\<lparr>f_ref := 0, f_type := FD_NONE\<rparr>)))
       (case f_type ff of
          FD_PIPE \<Rightarrow> pipeclose (f_pipe ff) (f_writable ff)
        | FD_INODE \<Rightarrow> kseq begin_op (kseq (iput (f_ip ff)) end_op)
        | FD_NONE \<Rightarrow> kreturn ()))"

text \<open>The two ends, or \<open>None\<close> for the result \<^verbatim>\<open>-1\<close>.\<close>

definition pipealloc :: "('a file_state_scheme, (nat \<times> nat) option) kernel" where
  "pipealloc = kbind filealloc (\<lambda>r0. case r0 of None \<Rightarrow> kreturn None | Some f0 \<Rightarrow>
     kbind filealloc (\<lambda>r1. case r1 of None \<Rightarrow> kseq (fileclose f0) (kreturn None) | Some f1 \<Rightarrow>
     kbind kalloc (\<lambda>p.
       if p = 0 then kseq (fileclose f0) (kseq (fileclose f1) (kreturn None))
       else
         kseq (kmodify (upd_pipe p (\<lambda>pp. pp\<lparr>pp_readopen := True, pp_writeopen := True, pp_nwrite := 0, pp_nread := 0\<rparr>)))
         (kseq (kmodify (upd_file f0 (\<lambda>e. e\<lparr>f_type := FD_PIPE, f_readable := True, f_writable := False, f_pipe := p\<rparr>)))
         (kseq (kmodify (upd_file f1 (\<lambda>e. e\<lparr>f_type := FD_PIPE, f_readable := False, f_writable := True, f_pipe := p\<rparr>)))
               (kreturn (Some (f0, f1))))))))"

definition filestat :: "nat \<Rightarrow> ('a file_state_scheme, stat option) kernel" where
  "filestat f = kbind (kget (\<lambda>s. ftable s f)) (\<lambda>e.
     if f_type e = FD_INODE
     then kseq (ilock (f_ip e)) (kbind (stati (f_ip e)) (\<lambda>st. kseq (iunlock (f_ip e)) (kreturn (Some st))))
     else kreturn None)"

text \<open>The result and the bytes read.\<close>

definition fileread :: "nat \<Rightarrow> nat \<Rightarrow> ('a file_state_scheme, int \<times> byte list) kernel" where
  "fileread f n = kbind (kget (\<lambda>s. ftable s f)) (\<lambda>e.
     if \<not> f_readable e then kreturn (-1, [])
     else case f_type e of
       FD_PIPE \<Rightarrow> kbind (piperead (f_pipe e) n) (\<lambda>r. case r of Inl _ \<Rightarrow> ksleep (Chan_nread (f_pipe e)) | Inr x \<Rightarrow> kreturn x)
     | FD_INODE \<Rightarrow>
         kseq (ilock (f_ip e))
         (kbind (readi (f_ip e) (f_off e) n) (\<lambda>(r, bs).
            kseq (kwhen (r > 0) (kmodify (upd_file f (\<lambda>e. e\<lparr>f_off := (f_off e + nat r) mod 2 ^ 32\<rparr>))))
            (kseq (iunlock (f_ip e)) (kreturn (r, bs)))))
     | FD_NONE \<Rightarrow> kpanic ''fileread'')"

text \<open>The most bytes one transaction of \<open>filewrite\<close> writes.\<close>

definition max_chunk :: nat where
  "max_chunk = (MAXOPBLOCKS - 1 - 1 - 2) div 2 * 512"

lemma max_chunk_eq: "max_chunk = 1536"
  by (simp add: max_chunk_def)

text \<open>The loop of \<open>filewrite\<close> on the bytes that are left; the result is how many are left when it stops.\<close>

definition write_chunk :: "nat \<Rightarrow> byte list \<Rightarrow> ('a file_state_scheme, int) kernel" where
  "write_chunk f bs =
     kseq begin_op
     (kbind (kget (\<lambda>s. ftable s f)) (\<lambda>e.
      kseq (ilock (f_ip e))
      (kbind (writei (f_ip e) (f_off e) bs) (\<lambda>r.
       kseq (kwhen (r > 0) (kmodify (upd_file f (\<lambda>e. e\<lparr>f_off := (f_off e + nat r) mod 2 ^ 32\<rparr>))))
       (kseq (iunlock (f_ip e))
       (kseq end_op (kreturn r)))))))"

function filewrite_loop :: "nat \<Rightarrow> byte list \<Rightarrow> ('a file_state_scheme, nat) kernel" where
  "filewrite_loop f bs =
     (if bs = [] then kreturn 0
      else
        let n1 = min (length bs) max_chunk in
        kbind (write_chunk f (take n1 bs)) (\<lambda>r.
          if r < 0 then kreturn (length bs)
          else if r \<noteq> int n1 then kpanic ''short filewrite''
          else filewrite_loop f (drop n1 bs)))"
  by pat_completeness auto
termination
  by (relation "measure (\<lambda>(f, bs). length bs)") (auto simp: max_chunk_eq)

declare filewrite_loop.simps [simp del]

definition filewrite :: "nat \<Rightarrow> byte list \<Rightarrow> ('a file_state_scheme, int) kernel" where
  "filewrite f bs = kbind (kget (\<lambda>s. ftable s f)) (\<lambda>e.
     if \<not> f_writable e then kreturn (-1)
     else case f_type e of
       FD_PIPE \<Rightarrow> kbind (pipewrite (f_pipe e) bs) (\<lambda>r. case r of Inl _ \<Rightarrow> ksleep (Chan_nwrite (f_pipe e)) | Inr x \<Rightarrow> kreturn x)
     | FD_INODE \<Rightarrow> kbind (filewrite_loop f bs) (\<lambda>left. kreturn (if left = 0 then int (length bs) else -1))
     | FD_NONE \<Rightarrow> kpanic ''filewrite'')"

section \<open>A write and the log\<close>

lemma rounds_bound: "rounds off n \<le> (n + 510) div BSIZE + 1"
proof (cases "n = 0")
  case False
  have "off + n - 1 = off div BSIZE * BSIZE + (off mod BSIZE + (n - 1))" using False by simp
  then have "(off + n - 1) div BSIZE = (off div BSIZE * BSIZE + (off mod BSIZE + (n - 1))) div BSIZE" by (rule arg_cong)
  also have "\<dots> = off div BSIZE + (off mod BSIZE + (n - 1)) div BSIZE" by (rule div_mult_self3) simp
  finally have "(off + n - 1) div BSIZE = off div BSIZE + (off mod BSIZE + (n - 1)) div BSIZE" .
  moreover have "(off mod BSIZE + (n - 1)) div BSIZE \<le> (n + 510) div BSIZE"
  proof (rule div_le_mono)
    have "off mod BSIZE < BSIZE" by simp
    then show "off mod BSIZE + (n - 1) \<le> n + 510" using False by linarith
  qed
  ultimately show ?thesis using False by (simp add: rounds_def)
qed simp

lemma rounds_chunk: "n \<le> max_chunk \<Longrightarrow> rounds off n \<le> 4"
proof -
  assume "n \<le> max_chunk"
  then have "(n + 510) div BSIZE \<le> 2046 div BSIZE" unfolding max_chunk_eq by (intro div_le_mono) simp
  then show ?thesis using rounds_bound [of off n] by simp
qed

lemma log_need_bound: "distinct l \<Longrightarrow> log_need sb v d l \<le> length l + 2"
proof -
  assume "distinct l"
  have "card (set l \<union> {sb_bmapstart sb} \<union> ind_set v d) \<le> card (set l) + 1 + card (ind_set v d)"
    using card_Un_le [of "set l \<union> {sb_bmapstart sb}" "ind_set v d"] card_Un_le [of "set l" "{sb_bmapstart sb}"] by simp
  moreover have "card (ind_set v d) + ind_need v d = 1" by (simp add: ind_set_def ind_need_def)
  ultimately show ?thesis using card_length [of l] by (simp add: log_need_def)
qed

section \<open>Beginning and ending a transaction\<close>

lemma same_tx:
  fixes s t :: "'a log_state_scheme"
  assumes "same_bio s t" "log_lh t = log_lh s" "log_start t = log_start s" "log_size t = log_size s" "log_dev t = log_dev s"
  shows "tx_inv t = tx_inv s" "held t = held s" "view t = view s" "log_area t = log_area s"
  using same_bioD [OF assms(1)] assms(2-5)
  by (simp_all add: tx_inv_def log_geom_def lh_ok_def log_area_def)

lemma tx_inv_empty:
  assumes "bio_inv t" "log_geom t" "log_lh t = []" "pinned t = {}"
  shows "tx_inv t"
  using assms by (simp add: tx_inv_def lh_ok_def log_geom_def)

lemma end_op_wp:
  fixes s :: "'a log_state_scheme"
  assumes inv: "tx_inv s" and h: "held s = {}" and o: "log_outstanding s = 1" "\<not> log_committing s"
    and Q: "\<And>t. tx_inv t \<Longrightarrow> held t = {} \<Longrightarrow> log_lh t = [] \<Longrightarrow> tx_rest (s\<lparr>log_outstanding := 0\<rparr>) t \<Longrightarrow>
      (\<forall>b. b \<notin> log_area s \<longrightarrow> view t b = view s b) \<Longrightarrow> Q () t"
  shows "wp end_op Q s"
proof -
  let ?u = "s\<lparr>log_outstanding := 0, log_committing := True\<rparr>"
  have su: "same_bio s ?u" by (simp add: same_bio_def myproc_def)
  note e = same_tx [OF su, simplified] and eb = same_bioD [OF su]
  have fin: "wp (kmodify (\<lambda>s. s\<lparr>log_committing := False\<rparr>)) (\<lambda>_. wp (wakeup Chan_log) Q) t"
    if "tx_inv t" "held t = {}" "log_lh t = []" "tx_rest ?u t" "\<forall>b. b \<notin> log_area s \<longrightarrow> view t b = view s b" for t
  proof -
    let ?w = "wake_all Chan_log (t\<lparr>log_committing := False\<rparr>)"
    have sw: "same_bio t ?w" using wake_all_pid [of Chan_log "t\<lparr>log_committing := False\<rparr>"]
      by (simp add: same_bio_def) (simp add: wake_all_def myproc_def)
    have w: "tx_inv ?w = tx_inv t" "held ?w = held t" "view ?w = view t" "log_lh ?w = log_lh t"
      using same_tx [OF sw] by (simp_all add: wake_all_def)
    note r = tx_restD [OF that(4)]
    have "tx_rest (s\<lparr>log_outstanding := 0\<rparr>) ?w"
    proof (rule tx_restI)
      have "proc_frame ?u (t\<lparr>log_committing := False\<rparr>)" using r(1) by (simp add: proc_frame_def)
      then have "proc_frame ?u ?w" by (rule proc_frame_wake)
      then show "proc_frame (s\<lparr>log_outstanding := 0\<rparr>) ?w" by (simp add: proc_frame_def)
    qed (use r o in \<open>simp_all add: wake_all_def\<close>)
    then have "Q () ?w" using Q [of ?w] that w by simp
    then show ?thesis by simp
  qed
  have "wp commit (\<lambda>_. wp (kmodify (\<lambda>s. s\<lparr>log_committing := False\<rparr>)) (\<lambda>_. wp (wakeup Chan_log) Q)) ?u"
  proof (cases "log_lh s = []")
    case True
    have "tx_inv ?u" "held ?u = {}" "view ?u = view s" using inv h e by simp_all
    then show ?thesis using True fin [of ?u] by (simp add: commit_def)
  next
    case False
    have ready: "commit_ready ?u"
      using inv h eb by (simp add: commit_ready_def tx_inv_def log_geom_def lh_ok_def log_area_def)
    have "wp commit (\<lambda>_ t. bio_rest ?u (t\<lparr>log_lh := log_lh ?u\<rparr>) \<and> (\<forall>b. b \<notin> log_area ?u \<longrightarrow>
        disk t (drive ROOTDEV) b = view ?u b \<and> view t b = view ?u b) \<and>
        pinned t = {} \<and> held t = {} \<and> log_lh t = [] \<and> log_clear t \<and> bio_inv t) ?u"
      by (rule commit_done [OF ready]) (simp add: False)
    then show ?thesis
    proof (rule wp_mono, elim conjE, goal_cases)
      case (1 x t)
      have r: "tx_rest ?u t" using 1(2) by (simp add: tx_rest_def)
      have "log_geom t" using tx_rest_geom(1) [OF r] ready by (simp add: commit_ready_def)
      then have "tx_inv t" using 1 by (intro tx_inv_empty) simp_all
      then show ?case using fin [OF _ 1(5,6) r] 1(3) e by simp
    qed
  qed
  then show ?thesis using o by (simp add: end_op_def)
qed

text \<open>No transaction is open, the log is empty and no buffer is in use.\<close>

definition fs_idle :: "'a fs_state_scheme \<Rightarrow> bool" where
  "fs_idle s \<longleftrightarrow> tx_inv s \<and> held s = {} \<and> fs_geom s \<and> log_lh s = [] \<and> log_outstanding s = 0 \<and>
     \<not> log_committing s \<and> MAXOPBLOCKS < log_size s \<and> meta_used (fs_sb s) (view s)"

lemma fs_idle_disk: "fs_idle s \<Longrightarrow> view s = disk s (drive ROOTDEV)"
  using view_idle [of s] by (simp add: fs_idle_def tx_inv_def)

text \<open>An inode in use that nobody has locked, with its copy of the disk inode.\<close>

definition inode_ready :: "nat \<Rightarrow> 'a fs_state_scheme \<Rightarrow> bool" where
  "inode_ready i s \<longleftrightarrow> i_ref (icache s i) \<ge> 1 \<and> \<not> sl_locked (i_lock (icache s i)) \<and> i_valid (icache s i) \<and>
     i_dev (icache s i) = ROOTDEV \<and> i_inum (icache s i) < sb_ninodes (fs_sb s)"

lemma begin_op_idle: "fs_idle s \<Longrightarrow> wp begin_op Q s = Q () (s\<lparr>log_outstanding := 1\<rparr>)"
  by (simp add: begin_op_def fs_idle_def)

lemma ilock_ready:
  "inode_ready i s \<Longrightarrow> wp (ilock i) Q s = Q () (set_inode_lock i \<lparr>sl_locked = True, sl_pid = p_pid (myproc s)\<rparr> s)"
  by (simp add: ilock_def inode_ready_def wp_acquiresleep inode_lock_def set_inode_lock_def upd_inode_def Let_def)

lemma iunlock_held:
  "i_ref (icache s i) \<ge> 1 \<Longrightarrow> i_lock (icache s i) = \<lparr>sl_locked = True, sl_pid = p_pid (myproc s)\<rparr> \<Longrightarrow>
   wp (iunlock i) Q s = Q () (wake_all (Chan_sleeplock_inode i) (set_inode_lock i \<lparr>sl_locked = False, sl_pid = 0\<rparr> s))"
  by (simp add: iunlock_def inode_lock_def releasesleep_def)

lemma set_inode_lock_sel [simp]:
  "icache (set_inode_lock i l s) = (icache s)(i := (icache s i)\<lparr>i_lock := l\<rparr>)"
  "fs_sb (set_inode_lock i l s) = fs_sb s" "log_outstanding (set_inode_lock i l s) = log_outstanding s"
  "log_lh (set_inode_lock i l s) = log_lh s" "log_size (set_inode_lock i l s) = log_size s"
  "log_start (set_inode_lock i l s) = log_start s" "log_dev (set_inode_lock i l s) = log_dev s"
  "log_committing (set_inode_lock i l s) = log_committing s" "myproc (set_inode_lock i l s) = myproc s"
  "fs_state.more (set_inode_lock i l s) = fs_state.more s"
  by (simp_all add: set_inode_lock_def upd_inode_def myproc_def)

lemma myproc_outstanding [simp]: "myproc (s\<lparr>log_outstanding := n\<rparr>) = myproc s"
  by (simp add: myproc_def)

lemma same_bio_lock: "same_bio s (set_inode_lock i l s)"
  by (simp add: same_bio_def myproc_def set_inode_lock_def upd_inode_def)

lemma same_bio_file: "same_bio s (upd_file f g s)"
  by (simp add: same_bio_def myproc_def upd_file_def)

lemma same_bio_wake: "same_bio s (wake_all c s)"
  using wake_all_pid [of c s] by (simp add: same_bio_def) (simp add: wake_all_def)

lemma same_bio_trans: "same_bio s t \<Longrightarrow> same_bio t u \<Longrightarrow> same_bio s u"
  by (simp add: same_bio_def)

lemma wake_all_log [simp]:
  "log_outstanding (wake_all c s) = log_outstanding s" "log_lh (wake_all c s) = log_lh s"
  "log_size (wake_all c s) = log_size s" "log_start (wake_all c s) = log_start s" "log_dev (wake_all c s) = log_dev s"
  "log_committing (wake_all c s) = log_committing s" "icache (wake_all c t) = icache t" "fs_sb (wake_all c t) = fs_sb t"
  "ftable (wake_all c u) = ftable u"
  by (simp_all add: wake_all_def)

lemma upd_file_sel [simp]:
  "log_outstanding (upd_file f g s) = log_outstanding s" "log_lh (upd_file f g s) = log_lh s"
  "log_size (upd_file f g s) = log_size s" "log_start (upd_file f g s) = log_start s" "log_dev (upd_file f g s) = log_dev s"
  "log_committing (upd_file f g s) = log_committing s" "icache (upd_file f g s) = icache s" "fs_sb (upd_file f g s) = fs_sb s"
  "ftable (upd_file f g s) = (ftable s)(f := g (ftable s f))" "myproc (upd_file f g s) = myproc s"
  by (simp_all add: upd_file_def myproc_def)

lemma more_ftable:
  fixes s t :: "'a file_state_scheme"
  shows "fs_state.more t = fs_state.more s \<Longrightarrow> ftable t = ftable s \<and> pipes t = pipes s"
  by (cases s; cases t) simp

lemma set_inode_lock_ftable [simp]: "ftable (set_inode_lock i l s) = ftable s"
  by (simp add: set_inode_lock_def upd_inode_def)

lemma fs_to_pid:
  assumes "fs_to v l d i s t"
  shows "p_pid (myproc t) = p_pid (myproc s)" "log_committing t = log_committing s" "log_start t = log_start s" "log_dev t = log_dev s"
proof -
  have r: "tx_rest (set_din i d s) t" using assms tx_toD(8) by (auto simp: fs_to_def)
  show "p_pid (myproc t) = p_pid (myproc s)"
    using proc_frame_pid [OF tx_restD(1) [OF r]] by (simp add: myproc_def)
  show "log_committing t = log_committing s" "log_start t = log_start s" "log_dev t = log_dev s"
    using tx_restD [OF r] by simp_all
qed

lemma wrote_append:
  assumes 1: "wrote sb v d off xs v1 d1" and 2: "wrote sb v1 d1 (off + length xs) ys v2 d2" and o: "off \<le> d_size d"
  shows "wrote sb v d off (xs @ ys) v2 d2"
proof -
  have len: "length (contents v d) = d_size d" by (simp add: contents_def)
  have c1: "contents v1 d1 = take off (contents v d) @ xs @ drop (off + length xs) (contents v d)"
    and c2: "contents v2 d2 = take (off + length xs) (contents v1 d1) @ ys @ drop (off + length xs + length ys) (contents v1 d1)"
    using 1 2 by (simp_all add: wrote_def)
  have "contents v2 d2 = take off (contents v d) @ (xs @ ys) @ drop (off + length (xs @ ys)) (contents v d)"
    unfolding c2 c1 using o len by (simp add: ac_simps)
  moreover have "d2 = d\<lparr>d_size := d_size d2, d_addrs := d_addrs d2\<rparr>"
  proof -
    have "d1 = d\<lparr>d_size := d_size d1, d_addrs := d_addrs d1\<rparr>" "d2 = d1\<lparr>d_size := d_size d2, d_addrs := d_addrs d2\<rparr>"
      using 1 2 unfolding wrote_def by blast+
    then show ?thesis by (cases d; cases d1; cases d2) simp
  qed
  ultimately show ?thesis using 1 2 unfolding wrote_def by auto
qed

lemma write_chunk_wp:
  fixes s :: "'a file_state_scheme" and f :: nat
  defines "e \<equiv> ftable s f" and "sb \<equiv> fs_sb s"
  defines "i \<equiv> f_ip (ftable s f)" and "d \<equiv> i_din (icache s (f_ip (ftable s f)))"
  assumes idle: "fs_idle s" and rdy: "inode_ready i s" and f: "file_wf sb (view s) d"
    and o: "f_off e \<le> d_size d" "f_off e + length bs \<le> MAXFILE * BSIZE"
    and n: "length bs \<le> max_chunk" and free: "4 + ind_need (view s) d \<le> nfree sb (view s)"
    and Q: "\<And>t. fs_idle t \<Longrightarrow> inode_ready i t \<Longrightarrow> fs_sb t = sb \<Longrightarrow>
      ftable t = (ftable s)(f := e\<lparr>f_off := f_off e + length bs\<rparr>) \<Longrightarrow>
      wrote sb (view s) d (f_off e) bs (view t) (i_din (icache t i)) \<Longrightarrow>
      nfree sb (view s) + ind_need (view t) (i_din (icache t i)) \<le> nfree sb (view t) + ind_need (view s) d + 4 \<Longrightarrow>
      Q (int (length bs)) t"
  shows "wp (write_chunk f bs) Q s"
proof -
  note I = idle [unfolded fs_idle_def] and R = rdy [unfolded inode_ready_def]
  have sb: "sb_ok sb" using I by (simp add: fs_geom_def sb_def)
  let ?s1 = "s\<lparr>log_outstanding := 1\<rparr>"
  let ?s2 = "set_inode_lock i \<lparr>sl_locked = True, sl_pid = p_pid (myproc s)\<rparr> ?s1"
  have "same_bio s ?s2" by (rule same_bio_trans [OF _ same_bio_lock]) (simp add: same_bio_def myproc_def)
  then have s2: "tx_inv ?s2 = tx_inv s" "held ?s2 = held s" "view ?s2 = view s" "log_area ?s2 = log_area s"
    using same_tx [of s ?s2] by simp_all
  have d2: "i_din (icache ?s2 i) = d" by (simp add: d_def i_def)
  have geom2: "fs_geom ?s2" using I by (simp add: fs_geom_def)
  have rn: "rounds (f_off e) (length bs) \<le> 4" by (rule rounds_chunk [OF n])
  have pre: "wr_pre (rounds (f_off e) (length bs)) i ?s2"
    unfolding wr_pre_def
  proof (intro conjI)
    show "tx_inv ?s2" "held ?s2 = {}" "fs_geom ?s2" "i_dev (icache ?s2 i) = ROOTDEV" "log_outstanding ?s2 \<ge> 1"
      using I R s2 geom2 by simp_all
    show "inode_wf (fs_sb ?s2) (view ?s2) (i_din (icache ?s2 i))" "meta_used (fs_sb ?s2) (view ?s2)"
      using f I s2 d2 by (simp_all add: file_wf_def sb_def)
    show "log_need (fs_sb ?s2) (view ?s2) (i_din (icache ?s2 i)) (log_lh ?s2) + rounds (f_off e) (length bs) + 1 < log_size ?s2"
      using I s2 d2 rn log_need_bound [of "[]" sb "view s" d] by (simp add: sb_def)
    show "rounds (f_off e) (length bs) + ind_need (view ?s2) (i_din (icache ?s2 i)) \<le> nfree (fs_sb ?s2) (view ?s2)"
      using rn free s2 d2 by (simp add: sb_def)
  qed
  have finish: "wp (kwhen (0 < int (length bs)) (kmodify (upd_file f (\<lambda>e. e\<lparr>f_off := (f_off e + length bs) mod 2 ^ 32\<rparr>))))
      (\<lambda>_. wp (iunlock i) (\<lambda>_. wp end_op (\<lambda>_. Q (int (length bs))))) t"
    if t: "fs_to v' l' d' i ?s2 t" and w: "wrote sb (view s) d (f_off e) bs v' d'"
      and fr: "nfree sb (view s) + ind_need v' d' \<le> nfree sb v' + ind_need (view s) d + rounds (f_off e) (length bs)" for v' l' d' t
  proof -
    note tD = fs_toD [OF t] and tP = fs_to_pid [OF t]
    let ?t1 = "upd_file f (\<lambda>e. e\<lparr>f_off := (f_off e + length bs) mod 2 ^ 32\<rparr>) t"
    let ?t2 = "wake_all (Chan_sleeplock_inode i) (set_inode_lock i \<lparr>sl_locked = False, sl_pid = 0\<rparr> ?t1)"
    have ft: "ftable t = ftable s" using more_ftable [of t ?s1] tD(10) by simp
    have skip: "kwhen (0 < int (length bs)) (kmodify (upd_file f (\<lambda>e. e\<lparr>f_off := (f_off e + length bs) mod 2 ^ 32\<rparr>))) t = Done () ?t1"
    proof (cases "bs = []")
      case True
      have "(ftable s f)\<lparr>f_off := f_off (ftable s f) mod 2 ^ 32\<rparr> = ftable s f"
        using o by (simp add: e_def)
      then show ?thesis using True ft by (simp add: kwhen_def kreturn_def upd_file_def fun_upd_idem)
    qed (simp add: kwhen_def kmodify_def)
    have "same_bio t ?t2"
      by (rule same_bio_trans [OF same_bio_file same_bio_trans [OF same_bio_lock same_bio_wake]])
    then have t2: "tx_inv ?t2 = tx_inv t" "held ?t2 = held t" "view ?t2 = view t" "log_area ?t2 = log_area t"
      using same_tx [of t ?t2] by simp_all
    have "wp end_op (\<lambda>_. Q (int (length bs))) ?t2"
    proof (rule end_op_wp)
      show "tx_inv ?t2" "held ?t2 = {}" "log_outstanding ?t2 = 1" "\<not> log_committing ?t2"
        using t2 tD tP I s2 by simp_all
      fix u assume u: "tx_inv u" "held u = {}" "log_lh u = []" "tx_rest (?t2\<lparr>log_outstanding := 0\<rparr>) u"
        "\<forall>b. b \<notin> log_area ?t2 \<longrightarrow> view u b = view ?t2 b"
      note uF = tx_rest_fs [OF u(4), simplified] and uD = tx_restD [OF u(4), simplified]
      have sbu: "fs_sb u = sb" using uF tD(8) by (simp add: sb_def)
      have iu: "icache u i = (icache s i)\<lparr>i_lock := \<lparr>sl_locked = False, sl_pid = 0\<rparr>, i_din := d'\<rparr>"
        using uF tD(7) by simp
      have gu: "fs_geom u" using uD sbu tD(8,11) tP I by (simp add: fs_geom_def sb_def)
      have la: "log_area ?t2 = log_area s" using t2 tD(5) s2 by simp
      have same: "same_data sb v' (view u)"
      proof -
        have "c \<notin> log_area s" if "sb_bmapstart sb \<le> c" for c
          using fs_geom_area(1) [of s] I that sb by (auto simp: sb_def sb_ok_def)
        then show ?thesis using u(5) la t2 tD(2) by (simp add: same_data_def)
      qed
      have wu: "wrote sb (view s) d (f_off e) bs (view u) d'" by (rule wrote_same [OF w sb same])
      have "file_wf sb v' d'" using w unfolding wrote_def by blast
      note sd = same_data_file(4) [OF same sb this] same_data_used(3) [OF same sb]
      show "Q (int (length bs)) u"
      proof (rule Q)
        show "fs_idle u" unfolding fs_idle_def
          using u gu uD tD(11) tP I wu sbu unfolding wrote_def by simp
        show "inode_ready i u" using R iu sbu by (simp add: inode_ready_def sb_def)
        have "ftable u = ftable ?t2" using more_ftable [of u "?t2\<lparr>log_outstanding := 0\<rparr>"] uF(3) by simp
        then show "ftable u = (ftable s)(f := e\<lparr>f_off := f_off e + length bs\<rparr>)"
          using ft o(2) by (simp add: e_def)
        show "fs_sb u = sb" by (rule sbu)
        show "wrote sb (view s) d (f_off e) bs (view u) (i_din (icache u i))" using wu iu by simp
        show "nfree sb (view s) + ind_need (view u) (i_din (icache u i)) \<le> nfree sb (view u) + ind_need (view s) d + 4"
          using fr sd rn iu by simp
      qed
    qed
    then have "wp (iunlock i) (\<lambda>_. wp end_op (\<lambda>_. Q (int (length bs)))) ?t1"
      using R tD(7) tP(1) by (subst iunlock_held) simp_all
    then show ?thesis unfolding wp_def [of "kwhen _ _"] skip by (simp only: outcome.case)
  qed
  have rdy1: "inode_ready i ?s1" using R by (simp add: inode_ready_def)
  have wf2: "file_wf (fs_sb ?s2) (view ?s2) (i_din (icache ?s2 i))" using f s2 d2 by (simp add: sb_def)
  have "wp (writei i (f_off e) bs) (\<lambda>r. wp (kwhen (0 < r) (kmodify (upd_file f (\<lambda>e. e\<lparr>f_off := (f_off e + nat r) mod 2 ^ 32\<rparr>))))
      (\<lambda>_. wp (iunlock i) (\<lambda>_. wp end_op (\<lambda>_. Q r)))) ?s2"
    by (rule writei_wp [OF pre _ wf2]) (use R o d2 s2 finish in \<open>simp_all add: sb_def\<close>)
  moreover have "ftable ?s1 f = e" "f_ip e = i" by (simp_all add: e_def i_def)
  ultimately show ?thesis
    unfolding write_chunk_def by (simp add: begin_op_idle [OF idle] ilock_ready [OF rdy1] cong: if_cong)
qed

section \<open>\<open>filewrite\<close>\<close>

definition chunks :: "nat \<Rightarrow> nat" where
  "chunks n = (n + max_chunk - 1) div max_chunk"

lemma chunks_step: "0 < n \<Longrightarrow> chunks n = Suc (chunks (n - min n max_chunk))"
proof -
  assume n: "0 < n"
  show ?thesis
  proof (cases "n \<le> max_chunk")
    case True
    then have "(n - 1 + max_chunk) div max_chunk = 1" "(max_chunk - 1) div max_chunk = 0"
      using n by (simp_all add: max_chunk_eq div_if)
    moreover have "n + max_chunk - 1 = n - 1 + max_chunk" using n by simp
    ultimately show ?thesis using True by (simp add: chunks_def)
  next
    case False
    then have "n + max_chunk - 1 = (n - max_chunk + max_chunk - 1) + max_chunk" by (simp add: max_chunk_eq)
    then have "chunks n = Suc (chunks (n - max_chunk))"
      unfolding chunks_def by (simp only: div_add_self2) (simp add: max_chunk_eq)
    then show ?thesis using False by simp
  qed
qed

lemma filewrite_loop_wp:
  fixes s :: "'a file_state_scheme"
  assumes "fs_idle s" and "inode_ready (f_ip (ftable s f)) s"
    and "file_wf (fs_sb s) (view s) (i_din (icache s (f_ip (ftable s f))))"
    and "f_off (ftable s f) \<le> d_size (i_din (icache s (f_ip (ftable s f))))"
    and "f_off (ftable s f) + length bs \<le> MAXFILE * BSIZE"
    and "4 * chunks (length bs) + ind_need (view s) (i_din (icache s (f_ip (ftable s f)))) \<le> nfree (fs_sb s) (view s)"
    and "bs \<noteq> []"
    and "\<And>t. fs_idle t \<Longrightarrow>
      ftable t = (ftable s)(f := (ftable s f)\<lparr>f_off := f_off (ftable s f) + length bs\<rparr>) \<Longrightarrow>
      wrote (fs_sb s) (view s) (i_din (icache s (f_ip (ftable s f)))) (f_off (ftable s f)) bs (view t)
        (i_din (icache t (f_ip (ftable s f)))) \<Longrightarrow> Q 0 t"
  shows "wp (filewrite_loop f bs) Q s"
  using assms
proof (induction f bs arbitrary: s Q rule: filewrite_loop.induct)
  case (1 f bs)
  let ?e = "ftable s f" and ?i = "f_ip (ftable s f)" and ?d = "i_din (icache s (f_ip (ftable s f)))" and ?sb = "fs_sb s"
  define m where "m = min (length bs) max_chunk"
  let ?xs = "take m bs" and ?ys = "drop m bs"
  have m: "length ?xs = m" "m \<le> max_chunk" "0 < m" using "1.prems"(7) by (auto simp: m_def max_chunk_eq)
  have c: "chunks (length bs) = Suc (chunks (length ?ys))" using chunks_step [of "length bs"] "1.prems"(7) by (simp add: m_def)
  have "wp (write_chunk f ?xs) (\<lambda>r. wp (if r < 0 then kreturn (length bs)
      else if r \<noteq> int m then kpanic ''short filewrite'' else filewrite_loop f ?ys) Q) s"
  proof (rule write_chunk_wp [OF "1.prems"(1-4)])
    show "f_off ?e + length ?xs \<le> MAXFILE * BSIZE" "length ?xs \<le> max_chunk"
      "4 + ind_need (view s) ?d \<le> nfree ?sb (view s)"
      using "1.prems"(5,6) m c by simp_all
    fix t :: "'a file_state_scheme"
    assume t: "fs_idle t" "inode_ready ?i t" "fs_sb t = ?sb"
      "ftable t = (ftable s)(f := ?e\<lparr>f_off := f_off ?e + length ?xs\<rparr>)"
      "wrote ?sb (view s) ?d (f_off ?e) ?xs (view t) (i_din (icache t ?i))"
      "nfree ?sb (view s) + ind_need (view t) (i_din (icache t ?i)) \<le> nfree ?sb (view t) + ind_need (view s) ?d + 4"
    have et: "ftable t f = ?e\<lparr>f_off := f_off ?e + m\<rparr>" using t(4) m by simp
    have wf: "file_wf ?sb (view t) (i_din (icache t ?i))"
      and ct: "contents (view t) (i_din (icache t ?i)) = take (f_off ?e) (contents (view s) ?d) @ ?xs @
        drop (f_off ?e + length ?xs) (contents (view s) ?d)"
      using t(5) unfolding wrote_def by blast+
    have sz: "f_off ?e + m \<le> d_size (i_din (icache t ?i))"
      using arg_cong [OF ct, of length] m "1.prems"(4) by (simp add: contents_def)
    have "wp (filewrite_loop f ?ys) Q t"
    proof (cases "?ys = []")
      case True
      then have "?xs = bs" using append_take_drop_id [of m bs] by simp
      then have "Q 0 t" using "1.prems"(8) [of t] t by simp
      then show ?thesis using True by (simp add: filewrite_loop.simps [of f "[]"])
    next
      case False
      show ?thesis
      proof (rule "1.IH" [OF "1.prems"(7) m_def _ _ t(1), of "int m"])
        show "\<not> int m < 0" "\<not> int m \<noteq> int m" by simp_all
        show "inode_ready (f_ip (ftable t f)) t" using t(2) et by simp
        show "file_wf (fs_sb t) (view t) (i_din (icache t (f_ip (ftable t f))))" using wf et t(3) by simp
        show "f_off (ftable t f) \<le> d_size (i_din (icache t (f_ip (ftable t f))))" using sz et by simp
        show "f_off (ftable t f) + length ?ys \<le> MAXFILE * BSIZE" using "1.prems"(5) et m by simp
        show "4 * chunks (length ?ys) + ind_need (view t) (i_din (icache t (f_ip (ftable t f)))) \<le> nfree (fs_sb t) (view t)"
          using "1.prems"(6) c t(3,6) et by simp
        show "?ys \<noteq> []" by (rule False)
        fix u :: "'a file_state_scheme"
        assume u: "fs_idle u" "ftable u = (ftable t)(f := (ftable t f)\<lparr>f_off := f_off (ftable t f) + length ?ys\<rparr>)"
          "wrote (fs_sb t) (view t) (i_din (icache t (f_ip (ftable t f)))) (f_off (ftable t f)) ?ys (view u)
            (i_din (icache u (f_ip (ftable t f))))"
        show "Q 0 u"
        proof (rule "1.prems"(8) [OF u(1)])
          show "ftable u = (ftable s)(f := ?e\<lparr>f_off := f_off ?e + length bs\<rparr>)" using u(2) t(4) m by (simp add: fun_upd_idem)
          have "wrote ?sb (view s) ?d (f_off ?e) (?xs @ ?ys) (view u) (i_din (icache u ?i))"
            by (rule wrote_append [OF t(5) _ "1.prems"(4)]) (use u(3) et t(3) m in simp)
          then show "wrote ?sb (view s) ?d (f_off ?e) bs (view u) (i_din (icache u ?i))" by simp
        qed
      qed
    qed
    then show "wp (if int (length ?xs) < 0 then kreturn (length bs)
      else if int (length ?xs) \<noteq> int m then kpanic ''short filewrite'' else filewrite_loop f ?ys) Q t"
      using m by simp
  qed
  then show ?case
    unfolding filewrite_loop.simps [of f bs] using "1.prems"(7) by (simp add: Let_def flip: m_def)
qed


definition demo_open :: file_state where
  "demo_open = cons_state.extend (demo_file\<lparr>log_outstanding := 0\<rparr>)
     (file_state.fields (\<lambda>_. \<lparr>f_type = FD_INODE, f_ref = 1, f_readable = True, f_writable = True, f_pipe = 0, f_ip = 0, f_off = 0\<rparr>)
       (pipes (ps demo_pipe)))"

lemma demo_open_sel:
  "log_start demo_open = 2" "log_size demo_open = 30" "log_outstanding demo_open = 0" "log_dev demo_open = ROOTDEV"
  "log_lh demo_open = []" "\<not> log_committing demo_open" "fs_sb demo_open = demo_sb" "icache demo_open 0 = demo_inode"
  "f_type (ftable demo_open 0) = FD_INODE" "f_writable (ftable demo_open 0)" "f_ip (ftable demo_open 0) = 0"
  "f_off (ftable demo_open 0) = 0"
  by (simp_all add: demo_open_def file_state.defs demo_file_sel cons_state.defs)
    (simp_all add: demo_file_def demo_cons_def demo_fs_def demo_boot_def cons_state.defs fs_state.defs log_state.defs)

lemma demo_open_bio: "same_bio demo_file demo_open"
  by (simp add: same_bio_def demo_open_def file_state.defs cons_state.defs myproc_def)

lemma demo_open_idle: "fs_idle demo_open" "inode_ready 0 demo_open" "view demo_open = view demo_file"
proof -
  note b = same_bioD [OF demo_open_bio]
  show "view demo_open = view demo_file" by (rule b(2))
  show "fs_idle demo_open"
    using demo_file_ready(3-8)
    by (simp add: fs_idle_def tx_inv_def b fs_geom_def demo_open_sel log_geom_def lh_ok_def) (simp add: demo_sb_def)
  show "inode_ready 0 demo_open"
    by (simp add: inode_ready_def demo_open_sel) (simp add: demo_inode_def empty_inode_def demo_sb_def initsleeplock_def)
qed


end
