(* ===== verification/ProcLife.thy ===== *)
theory ProcLife
  imports File Vm
begin

text \<open>
  The life of processes: the operations of \<^verbatim>\<open>proc.c\<close> that need memory and files, \<open>userinit\<close>, \<open>growproc\<close>, \<open>fork\<close>, \<open>exit\<close>,
  \<open>wait\<close> and \<open>forkret\<close>.  The linker's symbol \<^verbatim>\<open>data\<close> and the bytes of \<^verbatim>\<open>initcode\<close> are parameters.  \<open>exit\<close> never
  returns; its model ends in the state in which the process enters the scheduler for the last time.  A call of \<open>wait\<close>
  that has to wait has the outcome \<open>Sleep\<close>; a woken process runs the call again, as the loop in the code does.
\<close>

section \<open>Creation\<close>

abbreviation SEG_UCODE :: nat where "SEG_UCODE \<equiv> 3"
abbreviation SEG_UDATA :: nat where "SEG_UDATA \<equiv> 4"
abbreviation DPL_USER :: nat where "DPL_USER \<equiv> 3"
abbreviation FL_IF :: nat where "FL_IF \<equiv> 0x200"

text \<open>\<^verbatim>\<open>safestrcpy(p->name, s, sizeof(p->name))\<close>.\<close>

definition set_name :: "nat \<Rightarrow> byte list \<Rightarrow> ('a proc_state_scheme, unit) kernel" where
  "set_name i nm = kmodify (upd_proc i (\<lambda>p. p\<lparr>p_name := take 15 (takeWhile (\<lambda>c. c \<noteq> 0) nm)\<rparr>))"

definition user_frame :: trapframe where
  "user_frame = \<lparr>tf_eax = 0, tf_es = SEG_UDATA * 8 + DPL_USER, tf_ds = SEG_UDATA * 8 + DPL_USER, tf_trapno = 0, tf_eip = 0,
     tf_cs = SEG_UCODE * 8 + DPL_USER, tf_eflags = FL_IF, tf_esp = PGSIZE, tf_ss = SEG_UDATA * 8 + DPL_USER\<rparr>"

text \<open>If \<open>allocproc\<close> fails, the code writes through a null pointer.\<close>

definition userinit :: "nat \<Rightarrow> byte list \<Rightarrow> ('a file_state_scheme, unit) kernel" where
  "userinit data_sym initcode = kbind allocproc (\<lambda>r. case r of None \<Rightarrow> kpanic ''trap'' | Some i \<Rightarrow>
     kseq (kmodify (\<lambda>s. s\<lparr>initproc := i\<rparr>))
     (kbind (setupkvm data_sym) (\<lambda>d.
      kseq (kmodify (upd_proc i (\<lambda>p. p\<lparr>p_pgdir := d\<rparr>)))
      (if d = 0 then kpanic ''userinit: out of memory?''
       else
         kseq (inituvm d initcode)
         (kseq (kmodify (upd_proc i (\<lambda>p. p\<lparr>p_sz := PGSIZE, p_tf := user_frame\<rparr>)))
         (kseq (set_name i (map (of_nat \<circ> of_char) ''initcode''))
         (kbind (namei [47]) (\<lambda>dir.
          kseq (kmodify (upd_proc i (\<lambda>p. p\<lparr>p_cwd := dir\<rparr>)))
               (kmodify (upd_proc i (\<lambda>p. p\<lparr>p_state := RUNNABLE\<rparr>)))))))))))"

definition growproc ::
  "(string \<Rightarrow> ('a proc_state_scheme, unit) kernel) \<Rightarrow> int \<Rightarrow> ('a proc_state_scheme, int) kernel" where
  "growproc cprint n = kbind (kget (\<lambda>s. (curproc s, myproc s))) (\<lambda>(c, p).
     let newsz = nat ((int (p_sz p) + n) mod 2 ^ 32) in
     kbind (if n > 0 then allocuvm cprint (p_pgdir p) (p_sz p) newsz
            else if n < 0 then deallocuvm (p_pgdir p) (p_sz p) newsz
            else kreturn (p_sz p)) (\<lambda>sz.
       if n \<noteq> 0 \<and> sz = 0 then kreturn (-1)
       else kseq (kmodify (upd_proc c (\<lambda>p. p\<lparr>p_sz := sz\<rparr>))) (kseq (switchuvm c) (kreturn 0))))"

definition fork_file :: "nat \<Rightarrow> nat \<Rightarrow> nat option \<Rightarrow> ('a file_state_scheme, unit) kernel" where
  "fork_file np i fo = (case fo of None \<Rightarrow> kreturn () | Some f \<Rightarrow>
     kbind (filedup f) (\<lambda>f. kmodify (upd_proc np (\<lambda>p. p\<lparr>p_ofile := (p_ofile p)(i := Some f)\<rparr>))))"

definition fork :: "nat \<Rightarrow> ('a file_state_scheme, int) kernel" where
  "fork data_sym = kbind allocproc (\<lambda>r. case r of None \<Rightarrow> kreturn (-1) | Some np \<Rightarrow>
     kbind (kget (\<lambda>s. (curproc s, myproc s))) (\<lambda>(c, cp).
     kbind (copyuvm data_sym (p_pgdir cp) (p_sz cp)) (\<lambda>d.
     kseq (kmodify (upd_proc np (\<lambda>p. p\<lparr>p_pgdir := d\<rparr>)))
     (if d = 0 then
        kbind (kget (\<lambda>s. p_kstack (ptable s np))) (\<lambda>k.
        kseq (kfree k)
        (kseq (kmodify (upd_proc np (\<lambda>p. p\<lparr>p_kstack := 0, p_state := UNUSED\<rparr>))) (kreturn (-1))))
      else
        kseq (kmodify (upd_proc np (\<lambda>p. p\<lparr>p_sz := p_sz cp, p_parent := Some c, p_tf := (p_tf cp)\<lparr>tf_eax := 0\<rparr>\<rparr>)))
        (kseq (kfor [0..<NOFILE] (\<lambda>i. fork_file np i (p_ofile cp i)))
        (kbind (case p_cwd cp of None \<Rightarrow> kpanic ''trap'' | Some d \<Rightarrow> idup d) (\<lambda>dir.
         kseq (kmodify (upd_proc np (\<lambda>p. p\<lparr>p_cwd := Some dir\<rparr>)))
         (kseq (set_name np (p_name cp))
         (kbind (kget (\<lambda>s. p_pid (ptable s np))) (\<lambda>pid.
          kseq (kmodify (upd_proc np (\<lambda>p. p\<lparr>p_state := RUNNABLE\<rparr>))) (kreturn pid)))))))))))"

text \<open>\<open>first\<close> is the static variable: whether no process has been here yet.\<close>

definition forkret :: "bool \<Rightarrow> ('a fs_state_scheme, bool) kernel" where
  "forkret first = kseq (kwhen first (kseq (iinit ROOTDEV) (initlog ROOTDEV))) (kreturn False)"

section \<open>Termination\<close>

definition close_fd :: "nat \<Rightarrow> ('a file_state_scheme, unit) kernel" where
  "close_fd fd = kbind (kget (\<lambda>s. p_ofile (myproc s) fd)) (\<lambda>fo.
     case fo of
       None \<Rightarrow> kreturn ()
     | Some f \<Rightarrow> kseq (fileclose f)
         (kmodify (\<lambda>s. upd_proc (curproc s) (\<lambda>p. p\<lparr>p_ofile := (p_ofile p)(fd := None)\<rparr>) s)))"

definition reparent :: "nat \<Rightarrow> ('a proc_state_scheme, unit) kernel" where
  "reparent i = kbind (kget id) (\<lambda>s.
     kwhen (p_parent (ptable s i) = Some (curproc s))
       (kseq (kmodify (upd_proc i (\<lambda>p. p\<lparr>p_parent := Some (initproc s)\<rparr>)))
             (kwhen (p_state (ptable s i) = ZOMBIE) (wakeup1 (Chan_proc (initproc s))))))"

definition exit :: "('a file_state_scheme, unit) kernel" where
  "exit = kbind (kget id) (\<lambda>s.
     if curproc s = initproc s then kpanic ''init exiting''
     else
       kseq (kfor [0..<NOFILE] close_fd)
       (kseq begin_op
       (kbind (kget (\<lambda>s. p_cwd (myproc s))) (\<lambda>dir.
        kseq (case dir of None \<Rightarrow> kpanic ''trap'' | Some d \<Rightarrow> iput d)
        (kseq end_op
        (kseq (kmodify (\<lambda>s. upd_proc (curproc s) (\<lambda>p. p\<lparr>p_cwd := None\<rparr>) s))
        (kseq (kbind (kget (\<lambda>s. p_parent (myproc s))) (\<lambda>q. case q of None \<Rightarrow> kreturn () | Some i \<Rightarrow> wakeup1 (Chan_proc i)))
        (kseq (kfor [0..<NPROC] reparent)
              (kmodify (\<lambda>s. upd_proc (curproc s) (\<lambda>p. p\<lparr>p_state := ZOMBIE\<rparr>) s))))))))))"

definition reap :: "nat \<Rightarrow> ('a proc_state_scheme, int) kernel" where
  "reap i = kbind (kget (\<lambda>s. ptable s i)) (\<lambda>p.
     kseq (kfree (p_kstack p))
     (kseq (kmodify (upd_proc i (\<lambda>p. p\<lparr>p_kstack := 0\<rparr>)))
     (kseq (freevm (p_pgdir p))
     (kseq (kmodify (upd_proc i (\<lambda>p. p\<lparr>p_pid := 0, p_parent := None, p_name := [], p_killed := False, p_state := UNUSED\<rparr>)))
           (kreturn (p_pid p))))))"

definition wait :: "('a proc_state_scheme, int) kernel" where
  "wait = kbind (kget id) (\<lambda>s.
     let kids = filter (\<lambda>i. p_parent (ptable s i) = Some (curproc s)) [0..<NPROC] in
     case List.find (\<lambda>i. p_state (ptable s i) = ZOMBIE) kids of
       Some i \<Rightarrow> reap i
     | None \<Rightarrow>
         if kids = [] \<or> p_killed (myproc s) then kreturn (-1)
         else sleep (Chan_proc (curproc s)))"

end
