(* ===== verification/Uaccess.thy ===== *)
theory Uaccess
  imports ProcLife CString
begin

text \<open>
  How the kernel reaches the memory and the arguments of the calling process, \<^verbatim>\<open>syscall.c\<close>.  User
  addresses go through the page table of the current process, as the processor does it; an access to a page that is
  not there is a page fault in the kernel, which ends in \<^verbatim>\<open>panic("trap")\<close>.  A result \<^verbatim>\<open>-1\<close> of the fetch functions is \<open>None\<close>.
  Strings are passed by value.
\<close>

section \<open>User memory\<close>

text \<open>The kernel address of a user address.\<close>

definition uaddr :: "memory \<Rightarrow> nat \<Rightarrow> nat \<Rightarrow> nat option" where
  "uaddr m pgdir va =
     (let pde = read_u32 (pgdir + 4 * PDX va) m in
      if pde AND PTE_P = 0 then None
      else
        let pte = read_u32 (P2V (PTE_ADDR pde) + 4 * PTX va) m in
        if pte AND PTE_P = 0 then None else Some (P2V (PTE_ADDR pte) + va mod PGSIZE))"

definition ubyte :: "nat \<Rightarrow> ('a proc_state_scheme, byte) kernel" where
  "ubyte va = kbind (kget id) (\<lambda>s.
     case uaddr (km_mem s) (p_pgdir (myproc s)) va of
       None \<Rightarrow> kpanic ''trap''
     | Some a \<Rightarrow> kreturn (km_mem s a))"

primrec uload :: "nat \<Rightarrow> nat \<Rightarrow> ('a proc_state_scheme, byte list) kernel" where
  "uload va 0 = kreturn []"
| "uload va (Suc n) = kbind (ubyte va) (\<lambda>b. kbind (uload (va + 1) n) (\<lambda>bs. kreturn (b # bs)))"

primrec ustore :: "nat \<Rightarrow> byte list \<Rightarrow> ('a proc_state_scheme, unit) kernel" where
  "ustore va [] = kreturn ()"
| "ustore va (b # bs) = kbind (kget id) (\<lambda>s.
     case uaddr (km_mem s) (p_pgdir (myproc s)) va of
       None \<Rightarrow> kpanic ''trap''
     | Some a \<Rightarrow> kseq (kmodify (\<lambda>s. s\<lparr>km_mem := (km_mem s)(a := b)\<rparr>)) (ustore (va + 1) bs))"

section \<open>Arguments\<close>

definition fetchint :: "nat \<Rightarrow> ('a proc_state_scheme, int option) kernel" where
  "fetchint addr = kbind (kget (\<lambda>s. p_sz (myproc s))) (\<lambda>sz.
     if addr \<ge> sz \<or> (addr + 4) mod 2 ^ 32 > sz then kreturn None
     else kbind (uload addr 4) (\<lambda>bs. kreturn (Some (to_s32 (int (le_dec bs))))))"

text \<open>The scan for the terminator, over the \<open>k\<close> bytes up to the end of the process.\<close>

primrec fetchstr_loop :: "nat \<Rightarrow> nat \<Rightarrow> byte list \<Rightarrow> ('a proc_state_scheme, byte list option) kernel" where
  "fetchstr_loop 0 a acc = kreturn None"
| "fetchstr_loop (Suc k) a acc = kbind (ubyte a) (\<lambda>b.
     if b = 0 then kreturn (Some acc) else fetchstr_loop k (a + 1) (acc @ [b]))"

definition fetchstr :: "nat \<Rightarrow> ('a proc_state_scheme, byte list option) kernel" where
  "fetchstr addr = kbind (kget (\<lambda>s. p_sz (myproc s))) (\<lambda>sz.
     if addr \<ge> sz then kreturn None else fetchstr_loop (sz - addr) addr [])"

definition argint :: "nat \<Rightarrow> ('a proc_state_scheme, int option) kernel" where
  "argint n = kbind (kget (\<lambda>s. tf_esp (p_tf (myproc s)))) (\<lambda>esp. fetchint ((esp + 4 + 4 * n) mod 2 ^ 32))"

definition argptr :: "nat \<Rightarrow> int \<Rightarrow> ('a proc_state_scheme, nat option) kernel" where
  "argptr n sz = kbind (argint n) (\<lambda>r. case r of None \<Rightarrow> kreturn None | Some i \<Rightarrow>
     kbind (kget (\<lambda>s. p_sz (myproc s))) (\<lambda>psz.
       let a = nat (i mod 2 ^ 32) in
       if sz < 0 \<or> a \<ge> psz \<or> nat ((int a + sz) mod 2 ^ 32) > psz then kreturn None else kreturn (Some a)))"

definition argstr :: "nat \<Rightarrow> ('a proc_state_scheme, byte list option) kernel" where
  "argstr n = kbind (argint n) (\<lambda>r. case r of None \<Rightarrow> kreturn None | Some i \<Rightarrow> fetchstr (nat (i mod 2 ^ 32)))"

text \<open>\<^verbatim>\<open>argfd\<close> (sysfile.c): the descriptor and the open file.\<close>

definition argfd :: "nat \<Rightarrow> ('a proc_state_scheme, (nat \<times> nat) option) kernel" where
  "argfd n = kbind (argint n) (\<lambda>r. case r of None \<Rightarrow> kreturn None | Some fd \<Rightarrow>
     kbind (kget myproc) (\<lambda>p.
       if fd < 0 \<or> fd \<ge> int NOFILE then kreturn None
       else case p_ofile p (nat fd) of None \<Rightarrow> kreturn None | Some f \<Rightarrow> kreturn (Some (nat fd, f))))"

text \<open>The rest of a system call when its argument is there, and the result \<^verbatim>\<open>-1\<close> otherwise.\<close>

definition with_arg :: "('s, 'b option) kernel \<Rightarrow> ('b \<Rightarrow> ('s, int) kernel) \<Rightarrow> ('s, int) kernel" where
  "with_arg f k = kbind f (\<lambda>r. case r of None \<Rightarrow> kreturn (-1) | Some x \<Rightarrow> k x)"

end
