(* ===== verification/UserMem.thy ===== *)
theory UserMem
  imports Uaccess VmCopy
begin

text \<open>
  The kernel's access to user memory is safe, whatever a process puts on its stack and into its registers: this joins the
  fetch functions of \<^verbatim>\<open>syscall.c\<close> with the page tables of \<^verbatim>\<open>vm.c\<close>.
\<close>

lemma uaddr_entry:
  assumes "va < 2 ^ 32"
  shows "uaddr m pgdir va = map_option (\<lambda>e. frame e + va mod PGSIZE) (pt_entry m pgdir (va div PGSIZE))"
  using index_va [OF assms]
  by (auto simp: uaddr_def Let_def pt_entry_def pte_of_def has_tab_def present_def pde_def tab_def frame_def)

text \<open>Every page below the size of the current process is there.\<close>

definition user_mapped :: "'a proc_state_scheme \<Rightarrow> bool" where
  "user_mapped s \<longleftrightarrow> p_sz (myproc s) \<le> KERNBASE \<and>
     (\<forall>v. v * PGSIZE < p_sz (myproc s) \<longrightarrow> pt_entry (km_mem s) (p_pgdir (myproc s)) v \<noteq> None)"

text \<open>The byte at a user address.\<close>

definition user_byte :: "'a proc_state_scheme \<Rightarrow> nat \<Rightarrow> byte" where
  "user_byte s va = km_mem s (the (uaddr (km_mem s) (p_pgdir (myproc s)) va))"

lemma user_addr:
  assumes "user_mapped s" "va < p_sz (myproc s)"
  shows "uaddr (km_mem s) (p_pgdir (myproc s)) va \<noteq> None"
proof -
  have "va < 2 ^ 32" using assms by (simp add: user_mapped_def)
  moreover have "va div PGSIZE * PGSIZE < p_sz (myproc s)" using assms(2) div_times_less_eq_dividend le_less_trans by blast
  ultimately show ?thesis using assms(1) by (simp add: uaddr_entry user_mapped_def)
qed

lemma ubyte_run: "user_mapped s \<Longrightarrow> va < p_sz (myproc s) \<Longrightarrow> ubyte va s = Done (user_byte s va) s"
  using user_addr [of s va] by (auto simp: ubyte_def user_byte_def kernel_defs split: option.splits)

lemma uload_run:
  "user_mapped s \<Longrightarrow> va + n \<le> p_sz (myproc s) \<Longrightarrow> uload va n s = Done (map (user_byte s) [va..<va + n]) s"
proof (induction n arbitrary: va)
  case (Suc n)
  then have "ubyte va s = Done (user_byte s va) s" "uload (va + 1) n s = Done (map (user_byte s) [va + 1..<va + 1 + n]) s"
    using ubyte_run [of s va] by auto
  then show ?case by (simp add: kernel_defs upt_conv_Cons del: upt_Suc)
qed (simp add: kernel_defs)

lemma fetchint_run:
  assumes "user_mapped s"
  shows "fetchint addr s = Done (if addr + 4 \<le> p_sz (myproc s)
    then Some (to_s32 (int (le_dec (map (user_byte s) [addr..<addr + 4])))) else None) s"
proof -
  have "p_sz (myproc s) \<le> KERNBASE" using assms by (simp add: user_mapped_def)
  then have "(addr + 4) mod 2 ^ 32 = addr + 4" if "addr < p_sz (myproc s)" using that by (intro mod_less) simp
  then have "addr \<ge> p_sz (myproc s) \<or> (addr + 4) mod 2 ^ 32 > p_sz (myproc s) \<longleftrightarrow> \<not> addr + 4 \<le> p_sz (myproc s)"
    by (cases "addr < p_sz (myproc s)") auto
  then show ?thesis using uload_run [OF assms, of addr 4] by (auto simp: fetchint_def kernel_defs)
qed

lemma fetchstr_loop_run:
  "user_mapped s \<Longrightarrow> a + k = p_sz (myproc s) \<Longrightarrow> 0 \<notin> set acc \<Longrightarrow>
   \<exists>r. fetchstr_loop k a acc s = Done r s \<and> (\<forall>str. r = Some str \<longrightarrow> (\<exists>n. a + n < p_sz (myproc s) \<and> user_byte s (a + n) = 0 \<and>
     str = acc @ map (user_byte s) [a..<a + n] \<and> 0 \<notin> set str))"
proof (induction k arbitrary: a acc)
  case (Suc k)
  have b: "ubyte a s = Done (user_byte s a) s" using ubyte_run [of s a] Suc.prems by simp
  show ?case
  proof (cases "user_byte s a = 0")
    case True
    then show ?thesis using b Suc.prems by (auto simp: kernel_defs intro!: exI [of _ 0])
  next
    case False
    from Suc.IH [of "a + 1" "acc @ [user_byte s a]"] False Suc.prems obtain r where
      r: "fetchstr_loop k (a + 1) (acc @ [user_byte s a]) s = Done r s"
      "\<forall>str. r = Some str \<longrightarrow> (\<exists>n. a + 1 + n < p_sz (myproc s) \<and> user_byte s (a + 1 + n) = 0 \<and>
        str = (acc @ [user_byte s a]) @ map (user_byte s) [a + 1..<a + 1 + n] \<and> 0 \<notin> set str)" by auto
    have "\<exists>n. a + n < p_sz (myproc s) \<and> user_byte s (a + n) = 0 \<and> str = acc @ map (user_byte s) [a..<a + n] \<and> 0 \<notin> set str"
      if "r = Some str" for str
    proof -
      from r(2) that obtain n where "a + 1 + n < p_sz (myproc s)" "user_byte s (a + 1 + n) = 0"
        "str = (acc @ [user_byte s a]) @ map (user_byte s) [a + 1..<a + 1 + n]" "0 \<notin> set str" by blast
      then show ?thesis by (intro exI [of _ "Suc n"]) (simp add: upt_conv_Cons del: upt_Suc)
    qed
    then show ?thesis using b False r(1) by (auto simp: kernel_defs)
  qed
qed (simp add: kernel_defs)

lemma fetchstr_run:
  assumes "user_mapped s"
  shows "\<exists>r. fetchstr addr s = Done r s \<and> (\<forall>str. r = Some str \<longrightarrow> addr + length str < p_sz (myproc s) \<and>
    user_byte s (addr + length str) = 0 \<and> str = map (user_byte s) [addr..<addr + length str] \<and> 0 \<notin> set str)"
proof (cases "addr < p_sz (myproc s)")
  case True
  then show ?thesis using fetchstr_loop_run [OF assms, of addr "p_sz (myproc s) - addr" "[]"]
    by (auto simp: fetchstr_def kernel_defs)
qed (simp add: fetchstr_def kernel_defs)

text \<open>C36: System-call arguments are safe.  For a process whose memory below its size is mapped and at most 2 GB, whatever its stack pointer and
  its stack hold, fetching an argument never faults and changes nothing.  A buffer that \<open>argptr\<close> accepts lies entirely below the size of
  the process, because the sum it checks cannot wrap around; a string that \<open>argstr\<close> accepts is terminated below it and is exactly
  the bytes up to the terminator.\<close>

theorem syscall_arguments_safe:
  fixes s :: "'a proc_state_scheme"
  assumes m: "user_mapped s" and len: "len < 2 ^ 31"
  shows "wp (argint n) (\<lambda>r t. t = s) s \<and>
    wp (argptr n len) (\<lambda>r t. t = s \<and> (\<forall>a. r = Some a \<longrightarrow> 0 \<le> len \<and> a + nat len \<le> p_sz (myproc s))) s \<and>
    wp (argstr n) (\<lambda>r t. t = s \<and> (\<forall>str. r = Some str \<longrightarrow> 0 \<notin> set str \<and> (\<exists>a. a + length str < p_sz (myproc s) \<and>
      user_byte s (a + length str) = 0 \<and> str = map (user_byte s) [a..<a + length str]))) s"
proof -
  obtain r where r: "argint n s = Done r s" using fetchint_run [OF m] by (simp add: argint_def kernel_defs)
  have sz: "p_sz (myproc s) \<le> KERNBASE" using m by (simp add: user_mapped_def)
  have int: "wp (argint n) (\<lambda>r t. t = s) s" using r by (simp add: wp_iff)
  have ptr: "a + nat len \<le> p_sz (myproc s)" if "0 \<le> len" "a < p_sz (myproc s)" "nat ((int a + len) mod 2 ^ 32) \<le> p_sz (myproc s)" for a
  proof -
    have "0 \<le> int a + len" "int a + len < 2 ^ 32" using that sz len by simp_all
    then have "(int a + len) mod 2 ^ 32 = int a + len" by (rule mod_pos_pos_trivial)
    then show ?thesis using that by simp
  qed
  have "wp (argptr n len) (\<lambda>r t. t = s \<and> (\<forall>a. r = Some a \<longrightarrow> 0 \<le> len \<and> a + nat len \<le> p_sz (myproc s))) s"
    using r ptr by (auto simp: argptr_def wp_iff kernel_defs Let_def not_less not_le split: option.splits)
  moreover have "wp (argstr n) (\<lambda>r t. t = s \<and> (\<forall>str. r = Some str \<longrightarrow> 0 \<notin> set str \<and> (\<exists>a. a + length str < p_sz (myproc s) \<and>
      user_byte s (a + length str) = 0 \<and> str = map (user_byte s) [a..<a + length str]))) s"
  proof (cases r)
    case None
    then show ?thesis using r by (simp add: argstr_def wp_iff kernel_defs)
  next
    case (Some i)
    from fetchstr_run [OF m, of "nat (i mod 2 ^ 32)"] obtain q where q: "fetchstr (nat (i mod 2 ^ 32)) s = Done q s"
      "\<forall>str. q = Some str \<longrightarrow> nat (i mod 2 ^ 32) + length str < p_sz (myproc s) \<and> user_byte s (nat (i mod 2 ^ 32) + length str) = 0 \<and>
        str = map (user_byte s) [nat (i mod 2 ^ 32)..<nat (i mod 2 ^ 32) + length str] \<and> 0 \<notin> set str" by blast
    then show ?thesis using r Some by (auto simp: argstr_def wp_iff kernel_defs)
  qed
  ultimately show ?thesis using int by blast
qed

text \<open>A process with one page, whose stack pointer is near the end of the address space.\<close>

definition demo_user :: proc_state where
  "demo_user = \<lparr>km_mem = km_mem demo_space, km_freelist = 0x80404000, km_use_lock = True, km_end = 0x80400000,
     ptable = (\<lambda>_. zero_proc\<lparr>p_sz := PGSIZE, p_pgdir := 0x80401000\<rparr>), nextpid = 2, curproc = 0, initproc = 0,
     sym_trapret = 0, sym_forkret = 0\<rparr>"

theorem syscall_arguments_safe_witness:
  "wp (argptr 1 8) (\<lambda>r t. t = demo_user \<and> (\<forall>a. r = Some a \<longrightarrow> a + 8 \<le> PGSIZE)) demo_user"
proof -
  have "pt_entry (km_mem demo_user) 0x80401000 v \<noteq> None" if "v * PGSIZE < PGSIZE" for v
    using demo_space_ok(2) that by (simp add: demo_user_def)
  then have "user_mapped demo_user" by (simp add: user_mapped_def myproc_def demo_user_def)
  then have "wp (argptr 1 8) (\<lambda>r t. t = demo_user \<and> (\<forall>a. r = Some a \<longrightarrow> 0 \<le> (8 :: int) \<and> a + nat 8 \<le> p_sz (myproc demo_user))) demo_user"
    using syscall_arguments_safe [of demo_user 8 1] by (simp del: nat_numeral)
  then show ?thesis by (rule wp_mono) (simp add: myproc_def demo_user_def)
qed

end
