(* ===== verification/Sysfile.thy ===== *)
theory Sysfile
  imports Uaccess
begin

text \<open>
  The file system calls of \<^verbatim>\<open>sysfile.c\<close>.  Every call reads its arguments from the user stack, in the order of the code, and
  returns its result as an integer; data goes to and from user memory.  \<open>create\<close> returns the inode, locked, or \<open>None\<close>.
\<close>

section \<open>Descriptors\<close>

definition fdalloc :: "nat \<Rightarrow> ('a proc_state_scheme, int) kernel" where
  "fdalloc f = kbind (kget (\<lambda>s. (curproc s, myproc s))) (\<lambda>(c, p).
     case List.find (\<lambda>fd. p_ofile p fd = None) [0..<NOFILE] of
       None \<Rightarrow> kreturn (-1)
     | Some fd \<Rightarrow> kseq (kmodify (upd_proc c (\<lambda>p. p\<lparr>p_ofile := (p_ofile p)(fd := Some f)\<rparr>))) (kreturn (int fd)))"

definition set_ofile :: "nat \<Rightarrow> nat option \<Rightarrow> ('a proc_state_scheme, unit) kernel" where
  "set_ofile fd fo = kmodify (\<lambda>s. upd_proc (curproc s) (\<lambda>p. p\<lparr>p_ofile := (p_ofile p)(fd := fo)\<rparr>) s)"

definition sys_dup :: "('a file_state_scheme, int) kernel" where
  "sys_dup = with_arg (argfd 0) (\<lambda>(_, f). kbind (fdalloc f) (\<lambda>fd.
     if fd < 0 then kreturn (-1) else kseq (filedup f) (kreturn fd)))"

definition sys_read :: "('a file_state_scheme, int) kernel" where
  "sys_read = with_arg (argfd 0) (\<lambda>(_, f). with_arg (argint 2) (\<lambda>n. with_arg (argptr 1 n) (\<lambda>p.
     kbind (fileread f (nat n)) (\<lambda>(r, bs). kseq (ustore p bs) (kreturn r)))))"

definition sys_write :: "('a file_state_scheme, int) kernel" where
  "sys_write = with_arg (argfd 0) (\<lambda>(_, f). with_arg (argint 2) (\<lambda>n. with_arg (argptr 1 n) (\<lambda>p.
     kbind (uload p (nat n)) (\<lambda>bs. filewrite f bs))))"

definition sys_close :: "('a file_state_scheme, int) kernel" where
  "sys_close = with_arg (argfd 0) (\<lambda>(fd, f). kseq (set_ofile fd None) (kseq (fileclose f) (kreturn 0)))"

text \<open>The bytes of a \<^verbatim>\<open>struct stat\<close>; the two padding gaps are written as zeros.\<close>

abbreviation sizeof_stat :: int where "sizeof_stat \<equiv> 24"

definition encode_stat :: "stat \<Rightarrow> byte list" where
  "encode_stat st = enc_s16 (st_type st) @ [0, 0] @ le_enc 4 (st_dev st) @ le_enc 4 (st_ino st) @
     enc_s16 (st_nlink st) @ [0, 0] @ le_enc 4 (st_size st) @ le_enc 4 (st_mode st)"

definition sys_fstat :: "('a file_state_scheme, int) kernel" where
  "sys_fstat = with_arg (argfd 0) (\<lambda>(_, f). with_arg (argptr 1 sizeof_stat) (\<lambda>p.
     with_arg (filestat f) (\<lambda>st. kseq (ustore p (encode_stat st)) (kreturn 0))))"

section \<open>Links\<close>

definition add_nlink :: "nat \<Rightarrow> int \<Rightarrow> ('a fs_state_scheme, unit) kernel" where
  "add_nlink i k = kseq (kmodify (upd_inode i (upd_din (\<lambda>d. d\<lparr>d_nlink := d_nlink d + k\<rparr>)))) (iupdate i)"

definition fail_op :: "('a log_state_scheme, int) kernel" where
  "fail_op = kseq end_op (kreturn (-1))"

definition sys_link_bad :: "nat \<Rightarrow> ('a file_state_scheme, int) kernel" where
  "sys_link_bad ip = kseq (ilock ip) (kseq (add_nlink ip (-1)) (kseq (iunlockput ip) fail_op))"

definition sys_link :: "('a file_state_scheme, int) kernel" where
  "sys_link = with_arg (argstr 0) (\<lambda>old. with_arg (argstr 1) (\<lambda>new.
     kseq begin_op
     (kbind (namei old) (\<lambda>r. case r of None \<Rightarrow> fail_op | Some ip \<Rightarrow>
      kseq (ilock ip)
      (kbind (kget (\<lambda>s. icache s ip)) (\<lambda>e.
       if d_type (i_din e) = T_DIR then kseq (iunlockput ip) fail_op
       else
         kseq (add_nlink ip 1)
         (kseq (iunlock ip)
         (kbind (nameiparent new) (\<lambda>r. case r of None \<Rightarrow> sys_link_bad ip | Some (dp, name) \<Rightarrow>
          kseq (ilock dp)
          (kbind (kget (\<lambda>s. (i_dev (icache s dp), icache s ip))) (\<lambda>(dev, e).
           kbind (if dev \<noteq> i_dev e then kreturn (-1) else dirlink dp name (i_inum e)) (\<lambda>r.
             if r < 0 then kseq (iunlockput dp) (sys_link_bad ip)
             else kseq (iunlockput dp) (kseq (iput ip) (kseq end_op (kreturn 0)))))))))))))))"

text \<open>Whether the entries from the third on are all free.\<close>

definition isdirempty :: "nat \<Rightarrow> ('a cons_state_scheme, bool) kernel" where
  "isdirempty dp = kbind (kget (\<lambda>s. d_size (i_din (icache s dp)))) (\<lambda>sz.
     kbind (dir_scan ''isdirempty: readi'' dp (\<lambda>de. de_inum de \<noteq> 0) sz (2 * sizeof_dirent)) (\<lambda>(_, r).
       kreturn (r = None)))"

definition sys_unlink :: "('a file_state_scheme, int) kernel" where
  "sys_unlink = with_arg (argstr 0) (\<lambda>path.
     kseq begin_op
     (kbind (nameiparent path) (\<lambda>r. case r of None \<Rightarrow> fail_op | Some (dp, name) \<Rightarrow>
      kseq (ilock dp)
      (if namecmp name [46] \<or> namecmp name [46, 46] then kseq (iunlockput dp) fail_op
       else kbind (dirlookup dp name) (\<lambda>r. case r of None \<Rightarrow> kseq (iunlockput dp) fail_op | Some (ip, off) \<Rightarrow>
         kseq (ilock ip)
         (kbind (kget (\<lambda>s. i_din (icache s ip))) (\<lambda>d.
          if d_nlink d < 1 then kpanic ''unlink: nlink < 1''
          else kbind (if d_type d = T_DIR then isdirempty ip else kreturn True) (\<lambda>empty.
            if \<not> empty then kseq (iunlockput ip) (kseq (iunlockput dp) fail_op)
            else
              kbind (writei dp off (replicate sizeof_dirent 0)) (\<lambda>n.
              if n \<noteq> int sizeof_dirent then kpanic ''unlink: writei''
              else
                kseq (kwhen (d_type d = T_DIR) (add_nlink dp (-1)))
                (kseq (iunlockput dp)
                (kseq (add_nlink ip (-1))
                (kseq (iunlockput ip)
                (kseq end_op (kreturn 0))))))))))))))"

section \<open>Creating and opening\<close>

definition create :: "byte list \<Rightarrow> int \<Rightarrow> int \<Rightarrow> int \<Rightarrow> ('a cons_state_scheme, nat option) kernel" where
  "create path ty major minor = kbind (nameiparent path) (\<lambda>r. case r of None \<Rightarrow> kreturn None | Some (dp, name) \<Rightarrow>
     kseq (ilock dp)
     (kbind (dirlookup dp name) (\<lambda>r. case r of
        Some (ip, _) \<Rightarrow>
          kseq (iunlockput dp)
          (kseq (ilock ip)
          (kbind (kget (\<lambda>s. d_type (i_din (icache s ip)))) (\<lambda>t.
           if ty = T_FILE \<and> t = T_FILE then kreturn (Some ip)
           else kseq (iunlockput ip) (kreturn None))))
      | None \<Rightarrow>
          kbind (kget (\<lambda>s. i_dev (icache s dp))) (\<lambda>dev.
          kbind (ialloc dev ty) (\<lambda>ip.
          kseq (ilock ip)
          (kseq (kmodify (upd_inode ip (upd_din (\<lambda>d. d\<lparr>d_major := major, d_minor := minor, d_nlink := 1\<rparr>))))
          (kseq (iupdate ip)
          (kbind (kget (\<lambda>s. (i_inum (icache s ip), i_inum (icache s dp)))) (\<lambda>(inum, dnum).
           kseq (kwhen (ty = T_DIR)
             (kseq (add_nlink dp 1)
             (kbind (dirlink ip [46] inum) (\<lambda>r.
              kbind (if r < 0 then kreturn r else dirlink ip [46, 46] dnum) (\<lambda>r.
               if r < 0 then kpanic ''create dots'' else kreturn ())))))
           (kbind (dirlink dp name inum) (\<lambda>r.
            if r < 0 then kpanic ''create: dirlink''
            else kseq (iunlockput dp) (kreturn (Some ip)))))))))))))"

abbreviation O_RDONLY :: int where "O_RDONLY \<equiv> 0"
abbreviation O_WRONLY :: int where "O_WRONLY \<equiv> 1"
abbreviation O_RDWR :: int where "O_RDWR \<equiv> 2"
abbreviation O_CREATE :: int where "O_CREATE \<equiv> 0x200"

text \<open>The part of \<open>sys_open\<close> that finds the inode: locked, or \<open>None\<close>.\<close>

definition open_inode :: "byte list \<Rightarrow> int \<Rightarrow> ('a cons_state_scheme, nat option) kernel" where
  "open_inode path omode =
     (if omode AND O_CREATE \<noteq> 0 then create path T_FILE 0 0
      else kbind (namei path) (\<lambda>r. case r of None \<Rightarrow> kreturn None | Some ip \<Rightarrow>
        kseq (ilock ip)
        (kbind (kget (\<lambda>s. d_type (i_din (icache s ip)))) (\<lambda>t.
         if t = T_DIR \<and> omode \<noteq> O_RDONLY then kseq (iunlockput ip) (kreturn None) else kreturn (Some ip)))))"

definition sys_open :: "('a file_state_scheme, int) kernel" where
  "sys_open = with_arg (argstr 0) (\<lambda>path. with_arg (argint 1) (\<lambda>omode.
     kseq begin_op
     (kbind (open_inode path omode) (\<lambda>r. case r of None \<Rightarrow> fail_op | Some ip \<Rightarrow>
      kbind filealloc (\<lambda>fo.
      kbind (case fo of None \<Rightarrow> kreturn (-1) | Some f \<Rightarrow> fdalloc f) (\<lambda>fd.
       if fd < 0 then
         kseq (case fo of None \<Rightarrow> kreturn () | Some f \<Rightarrow> fileclose f) (kseq (iunlockput ip) fail_op)
       else
         kseq (iunlock ip)
         (kseq end_op
         (kseq (case fo of None \<Rightarrow> kreturn () | Some f \<Rightarrow>
            kmodify (upd_file f (\<lambda>e. e\<lparr>f_type := FD_INODE, f_ip := ip, f_off := 0,
              f_readable := (omode AND O_WRONLY = 0),
              f_writable := (omode AND O_WRONLY \<noteq> 0 \<or> omode AND O_RDWR \<noteq> 0)\<rparr>)))
               (kreturn fd)))))))))"

definition finish_create :: "nat option \<Rightarrow> ('a fs_state_scheme, int) kernel" where
  "finish_create r = (case r of None \<Rightarrow> fail_op | Some ip \<Rightarrow> kseq (iunlockput ip) (kseq end_op (kreturn 0)))"

definition sys_mkdir :: "('a file_state_scheme, int) kernel" where
  "sys_mkdir = kseq begin_op (kbind (argstr 0) (\<lambda>r. case r of None \<Rightarrow> fail_op | Some path \<Rightarrow>
     kbind (create path T_DIR 0 0) finish_create))"

text \<open>The device numbers are cut to 16 bits by the call of \<open>create\<close>.\<close>

definition to_s16 :: "int \<Rightarrow> int" where
  "to_s16 x = (x + 2 ^ 15) mod 2 ^ 16 - 2 ^ 15"

definition sys_mknod :: "('a file_state_scheme, int) kernel" where
  "sys_mknod = kseq begin_op (kbind (argstr 0) (\<lambda>r. case r of None \<Rightarrow> fail_op | Some path \<Rightarrow>
     kbind (argint 1) (\<lambda>r. case r of None \<Rightarrow> fail_op | Some major \<Rightarrow>
     kbind (argint 2) (\<lambda>r. case r of None \<Rightarrow> fail_op | Some minor \<Rightarrow>
     kbind (create path T_DEV (to_s16 major) (to_s16 minor)) finish_create))))"

definition sys_chdir :: "('a file_state_scheme, int) kernel" where
  "sys_chdir = kseq begin_op (kbind (argstr 0) (\<lambda>r. case r of None \<Rightarrow> fail_op | Some path \<Rightarrow>
     kbind (namei path) (\<lambda>r. case r of None \<Rightarrow> fail_op | Some ip \<Rightarrow>
     kseq (ilock ip)
     (kbind (kget (\<lambda>s. d_type (i_din (icache s ip)))) (\<lambda>t.
      if t \<noteq> T_DIR then kseq (iunlockput ip) fail_op
      else
        kseq (iunlock ip)
        (kbind (kget (\<lambda>s. p_cwd (myproc s))) (\<lambda>old.
         kseq (case old of None \<Rightarrow> kpanic ''trap'' | Some d \<Rightarrow> iput d)
         (kseq end_op
         (kseq (kmodify (\<lambda>s. upd_proc (curproc s) (\<lambda>p. p\<lparr>p_cwd := Some ip\<rparr>) s)) (kreturn 0))))))))))"

definition sys_pipe :: "('a file_state_scheme, int) kernel" where
  "sys_pipe = with_arg (argptr 0 8) (\<lambda>p. with_arg pipealloc (\<lambda>(rf, wf).
     kbind (fdalloc rf) (\<lambda>fd0.
     kbind (if fd0 < 0 then kreturn (-1) else fdalloc wf) (\<lambda>fd1.
       if fd0 < 0 \<or> fd1 < 0 then
         kseq (kwhen (fd0 \<ge> 0) (set_ofile (nat fd0) None))
         (kseq (fileclose rf) (kseq (fileclose wf) (kreturn (-1))))
       else kseq (ustore p (le_enc 4 (nat fd0) @ le_enc 4 (nat fd1))) (kreturn 0)))))"

definition sys_chmod :: "('a file_state_scheme, int) kernel" where
  "sys_chmod = with_arg (argstr 0) (\<lambda>path. with_arg (argint 1) (\<lambda>mode.
     with_arg (namei path) (\<lambda>ip. chmod ip mode)))"

end
