(* ===== verification/Exec.thy ===== *)
theory Exec
  imports Uaccess
begin

text \<open>
  \<^verbatim>\<open>exec.c\<close> with \<open>loaduvm\<close> (vm.c) and \<open>sys_exec\<close> (sysfile.c).  The arguments are a list of strings.  Headers are read
  from the bytes of the file at their offsets in \<^verbatim>\<open>elf.h\<close>.  A failure goes through one common exit, as with the code's
  label \<^verbatim>\<open>bad\<close>.
\<close>

section \<open>Headers (elf.h)\<close>

abbreviation ELF_MAGIC :: nat where "ELF_MAGIC \<equiv> 0x464C457F"
abbreviation sizeof_elfhdr :: nat where "sizeof_elfhdr \<equiv> 52"
abbreviation sizeof_proghdr :: nat where "sizeof_proghdr \<equiv> 32"
abbreviation MAXARG :: nat where "MAXARG \<equiv> 32"

record elfhdr =
  e_magic :: nat
  e_entry :: nat
  e_phoff :: nat
  e_phnum :: nat

record proghdr =
  ph_type :: nat
  ph_off :: nat
  ph_vaddr :: nat
  ph_filesz :: nat
  ph_memsz :: nat

definition decode_elfhdr :: "byte list \<Rightarrow> elfhdr" where
  "decode_elfhdr bs = \<lparr>e_magic = u32_at bs 0, e_entry = u32_at bs 6, e_phoff = u32_at bs 7, e_phnum = le_dec (bslice 44 2 bs)\<rparr>"

definition decode_proghdr :: "byte list \<Rightarrow> proghdr" where
  "decode_proghdr bs = \<lparr>ph_type = u32_at bs 0, ph_off = u32_at bs 1, ph_vaddr = u32_at bs 2, ph_filesz = u32_at bs 4,
     ph_memsz = u32_at bs 5\<rparr>"

section \<open>Loading\<close>

function loaduvm_loop :: "nat \<Rightarrow> nat \<Rightarrow> nat \<Rightarrow> nat \<Rightarrow> nat \<Rightarrow> nat \<Rightarrow> ('a cons_state_scheme, int) kernel" where
  "loaduvm_loop pgdir addr ip off sz i =
     (if i < sz then
        kbind (walkpgdir pgdir ((addr + i) mod 2 ^ 32) False) (\<lambda>pte.
          if pte = 0 then kpanic ''loaduvm: address should exist''
          else kbind (load_u32 pte) (\<lambda>v.
            let n = min (sz - i) PGSIZE in
            kbind (readi ip ((off + i) mod 2 ^ 32) n) (\<lambda>(r, bs).
              kseq (kmodify (\<lambda>s. s\<lparr>km_mem := mem_write (P2V (PTE_ADDR v)) bs (km_mem s)\<rparr>))
              (if r \<noteq> int n then kreturn (-1) else loaduvm_loop pgdir addr ip off sz (i + PGSIZE)))))
      else kreturn 0)"
  by pat_completeness auto
termination
  by (relation "measure (\<lambda>(pgdir, addr, ip, off, sz, i). sz - i)") auto

declare loaduvm_loop.simps [simp del]

definition loaduvm :: "nat \<Rightarrow> nat \<Rightarrow> nat \<Rightarrow> nat \<Rightarrow> nat \<Rightarrow> ('a cons_state_scheme, int) kernel" where
  "loaduvm pgdir addr ip off sz =
     (if addr mod PGSIZE \<noteq> 0 then kpanic ''loaduvm: addr must be page aligned''
      else loaduvm_loop pgdir addr ip off sz 0)"

text \<open>The loop over the program headers, with \<open>k\<close> headers to go: the size of the image, or \<open>None\<close>.\<close>

primrec load_segments ::
  "(string \<Rightarrow> ('a cons_state_scheme, unit) kernel) \<Rightarrow> nat \<Rightarrow> nat \<Rightarrow> nat \<Rightarrow> nat \<Rightarrow> nat \<Rightarrow> ('a cons_state_scheme, nat option) kernel"
where
  "load_segments cprint pgdir ip 0 off sz = kreturn (Some sz)"
| "load_segments cprint pgdir ip (Suc k) off sz =
     kbind (readi ip off sizeof_proghdr) (\<lambda>(r, bs).
       if r \<noteq> int sizeof_proghdr then kreturn None
       else
         let ph = decode_proghdr bs; off = (off + sizeof_proghdr) mod 2 ^ 32 in
         if ph_type ph \<noteq> 1 then load_segments cprint pgdir ip k off sz
         else if ph_memsz ph < ph_filesz ph then kreturn None
         else if (ph_vaddr ph + ph_memsz ph) mod 2 ^ 32 < ph_vaddr ph then kreturn None
         else kbind (allocuvm cprint pgdir sz (ph_vaddr ph + ph_memsz ph)) (\<lambda>sz.
           if sz = 0 then kreturn None
           else if ph_vaddr ph mod PGSIZE \<noteq> 0 then kreturn None
           else kbind (loaduvm pgdir (ph_vaddr ph) ip (ph_off ph) (ph_filesz ph)) (\<lambda>r.
             if r < 0 then kreturn None else load_segments cprint pgdir ip k off sz)))"

section \<open>The stack of the new program\<close>

text \<open>The argument strings are pushed one after the other; the result is the stack pointer and the addresses of the
  strings.\<close>

primrec push_args :: "nat \<Rightarrow> byte list list \<Rightarrow> nat \<Rightarrow> nat list \<Rightarrow> ('a kmem_state_scheme, (nat \<times> nat list) option) kernel" where
  "push_args pgdir [] sp ptrs = kreturn (Some (sp, ptrs))"
| "push_args pgdir (a # as) sp ptrs =
     (if length ptrs \<ge> MAXARG then kreturn None
      else
        let sp = (sp + 2 ^ 32 - (length a + 1)) mod 2 ^ 32 div 4 * 4 in
        kbind (copyout pgdir sp (a @ [0])) (\<lambda>r.
          if r < 0 then kreturn None else push_args pgdir as sp (ptrs @ [sp])))"

definition ustack :: "nat \<Rightarrow> nat list \<Rightarrow> nat list" where
  "ustack sp ptrs = [0xffffffff, length ptrs, (sp + 2 ^ 32 - (length ptrs + 1) * 4) mod 2 ^ 32] @ ptrs @ [0]"

text \<open>The image after the segments are loaded: two more pages, the lower one out of reach of the program, and the
  arguments; the result is the new size and the stack pointer.\<close>

definition build_stack ::
  "(string \<Rightarrow> ('a kmem_state_scheme, unit) kernel) \<Rightarrow> nat \<Rightarrow> nat \<Rightarrow> byte list list \<Rightarrow> ('a kmem_state_scheme, (nat \<times> nat) option) kernel"
where
  "build_stack cprint pgdir sz argv =
     (let sz = PGROUNDUP sz in
      kbind (allocuvm cprint pgdir sz ((sz + 2 * PGSIZE) mod 2 ^ 32)) (\<lambda>sz.
        if sz = 0 then kreturn None
        else kseq (clearpteu pgdir (sz - 2 * PGSIZE))
          (kbind (push_args pgdir argv sz []) (\<lambda>r. case r of None \<Rightarrow> kreturn None | Some (sp, ptrs) \<Rightarrow>
             let us = ustack sp ptrs; sp = (sp + 2 ^ 32 - length us * 4) mod 2 ^ 32 in
             kbind (copyout pgdir sp (concat (map (le_enc 4) us))) (\<lambda>r.
               kreturn (if r < 0 then None else Some (sz, sp)))))))"

text \<open>The name of the program: what follows the last slash.\<close>

definition last_elem :: "byte list \<Rightarrow> byte list" where
  "last_elem path = rev (takeWhile (\<lambda>c. c \<noteq> 47) (rev path))"

section \<open>\<open>exec\<close>\<close>

definition exec_bad :: "nat \<Rightarrow> nat option \<Rightarrow> ('a cons_state_scheme, int) kernel" where
  "exec_bad pgdir ipo =
     kseq (kwhen (pgdir \<noteq> 0) (freevm pgdir))
     (kseq (case ipo of None \<Rightarrow> kreturn () | Some ip \<Rightarrow> kseq (iunlockput ip) end_op) (kreturn (-1)))"

definition exec_commit :: "nat \<Rightarrow> nat \<Rightarrow> nat \<Rightarrow> nat \<Rightarrow> byte list \<Rightarrow> ('a proc_state_scheme, int) kernel" where
  "exec_commit pgdir sz entry sp path = kbind (kget (\<lambda>s. (curproc s, p_pgdir (myproc s)))) (\<lambda>(c, old).
     kseq (set_name c (last_elem path))
     (kseq (kmodify (upd_proc c (\<lambda>p. p\<lparr>p_pgdir := pgdir, p_sz := sz, p_tf := (p_tf p)\<lparr>tf_eip := entry, tf_esp := sp\<rparr>\<rparr>)))
     (kseq (switchuvm c)
     (kseq (freevm old) (kreturn 0)))))"

definition exec ::
  "nat \<Rightarrow> (string \<Rightarrow> ('a cons_state_scheme, unit) kernel) \<Rightarrow> byte list \<Rightarrow> byte list list \<Rightarrow> ('a cons_state_scheme, int) kernel"
where
  "exec data_sym cprint path argv =
     kseq begin_op
     (kbind (namei path) (\<lambda>r. case r of
        None \<Rightarrow> kseq end_op (kseq (cprint (''exec: fail'' @ [CHR 0x0A])) (kreturn (-1)))
      | Some ip \<Rightarrow>
          kseq (ilock ip)
          (kbind (readi ip 0 sizeof_elfhdr) (\<lambda>(r, bs).
           let elf = decode_elfhdr bs in
           if r \<noteq> int sizeof_elfhdr \<or> e_magic elf \<noteq> ELF_MAGIC then exec_bad 0 (Some ip)
           else kbind (setupkvm data_sym) (\<lambda>pgdir.
             if pgdir = 0 then exec_bad 0 (Some ip)
             else kbind (load_segments cprint pgdir ip (e_phnum elf) (e_phoff elf) 0) (\<lambda>r. case r of
               None \<Rightarrow> exec_bad pgdir (Some ip)
             | Some sz \<Rightarrow>
                 kseq (iunlockput ip)
                 (kseq end_op
                 (kbind (build_stack cprint pgdir sz argv) (\<lambda>r. case r of
                    None \<Rightarrow> exec_bad pgdir None
                  | Some (sz, sp) \<Rightarrow> exec_commit pgdir sz (e_entry elf) sp path)))))))))"

text \<open>The loop of \<open>sys_exec\<close> that collects the arguments, from number \<open>MAXARG - k\<close> on.\<close>

primrec fetch_argv :: "nat \<Rightarrow> nat \<Rightarrow> byte list list \<Rightarrow> ('a proc_state_scheme, byte list list option) kernel" where
  "fetch_argv 0 uargv acc = kreturn None"
| "fetch_argv (Suc k) uargv acc =
     kbind (fetchint ((uargv + 4 * length acc) mod 2 ^ 32)) (\<lambda>r. case r of None \<Rightarrow> kreturn None | Some uarg \<Rightarrow>
       if uarg = 0 then kreturn (Some acc)
       else kbind (fetchstr (nat (uarg mod 2 ^ 32))) (\<lambda>r. case r of None \<Rightarrow> kreturn None | Some a \<Rightarrow>
         fetch_argv k uargv (acc @ [a])))"

definition sys_exec ::
  "nat \<Rightarrow> (string \<Rightarrow> ('a cons_state_scheme, unit) kernel) \<Rightarrow> ('a cons_state_scheme, int) kernel" where
  "sys_exec data_sym cprint = with_arg (argstr 0) (\<lambda>path. with_arg (argint 1) (\<lambda>uargv.
     with_arg (fetch_argv MAXARG (nat (uargv mod 2 ^ 32)) []) (\<lambda>argv. exec data_sym cprint path argv)))"

end
