(* ===== verification/Syscall.thy ===== *)
theory Syscall
  imports Sysfile Exec Printf
begin

text \<open>
  The process system calls (\<^verbatim>\<open>sysproc.c\<close>), the dispatch of system calls (\<^verbatim>\<open>syscall.c\<close>) and the trap handler
  (\<^verbatim>\<open>trap.c\<close>) for traps that happen while a process runs.  Messages go to the console.  Hardware input is a parameter of a trap:
  the number of the processor and the characters that the keyboard or the serial line delivers; acknowledging an interrupt
  does not change the state.
\<close>

section \<open>State\<close>

record sys_state = file_state +
  ticks :: "32 word"

definition cons_print :: "byte list \<Rightarrow> ('a cons_state_scheme, unit) kernel" where
  "cons_print bs = kfor bs (\<lambda>b. consputc (unat b))"

definition cprint :: "string \<Rightarrow> ('a cons_state_scheme, unit) kernel" where
  "cprint msg = cons_print (bytes_of msg)"

section \<open>Processes (sysproc.c)\<close>

definition sys_kill :: "('a proc_state_scheme, int) kernel" where
  "sys_kill = with_arg (argint 0) kill"

definition sys_getpid :: "('a proc_state_scheme, int) kernel" where
  "sys_getpid = kget (\<lambda>s. p_pid (myproc s))"

definition sys_sbrk :: "('a cons_state_scheme, int) kernel" where
  "sys_sbrk = with_arg (argint 0) (\<lambda>n. kbind (kget (\<lambda>s. p_sz (myproc s))) (\<lambda>addr.
     kbind (growproc cprint n) (\<lambda>r. kreturn (if r < 0 then -1 else to_s32 (int addr)))))"

text \<open>The loop of \<open>sys_sleep\<close> that started at \<open>ticks0\<close>; a woken process runs it again.  The comparison is unsigned.\<close>

definition sys_sleep_loop :: "32 word \<Rightarrow> int \<Rightarrow> ('a sys_state_scheme, int) kernel" where
  "sys_sleep_loop ticks0 n = kbind (kget id) (\<lambda>s.
     if int (unat (ticks s - ticks0)) < n mod 2 ^ 32 then
       if p_killed (myproc s) then kreturn (-1) else sleep Chan_ticks
     else kreturn 0)"

definition sys_sleep :: "('a sys_state_scheme, int) kernel" where
  "sys_sleep = with_arg (argint 0) (\<lambda>n. kbind (kget ticks) (\<lambda>ticks0. sys_sleep_loop ticks0 n))"

definition sys_uptime :: "('a sys_state_scheme, int) kernel" where
  "sys_uptime = kget (\<lambda>s. to_s32 (int (unat (ticks s))))"

section \<open>Dispatch\<close>

definition returns :: "('s, int) kernel \<Rightarrow> ('s, int option) kernel" where
  "returns f = kbind f (\<lambda>r. kreturn (Some r))"

text \<open>The table \<^verbatim>\<open>syscalls\<close>.  The result of \<open>exit\<close>, which does not return, is \<open>None\<close>.\<close>

definition syscalls :: "nat \<Rightarrow> int \<Rightarrow> ('a sys_state_scheme, int option) kernel option" where
  "syscalls data_sym num =
     (if num = 1 then Some (returns (fork data_sym))
      else if num = 2 then Some (kseq exit (kreturn None))
      else if num = 3 then Some (returns wait)
      else if num = 4 then Some (returns sys_pipe)
      else if num = 5 then Some (returns sys_read)
      else if num = 6 then Some (returns sys_kill)
      else if num = 7 then Some (returns (sys_exec data_sym cprint))
      else if num = 8 then Some (returns sys_fstat)
      else if num = 9 then Some (returns sys_chdir)
      else if num = 10 then Some (returns sys_dup)
      else if num = 11 then Some (returns sys_getpid)
      else if num = 12 then Some (returns sys_sbrk)
      else if num = 13 then Some (returns sys_sleep)
      else if num = 14 then Some (returns sys_uptime)
      else if num = 15 then Some (returns sys_open)
      else if num = 16 then Some (returns sys_write)
      else if num = 17 then Some (returns sys_mknod)
      else if num = 18 then Some (returns sys_unlink)
      else if num = 19 then Some (returns sys_link)
      else if num = 20 then Some (returns sys_mkdir)
      else if num = 21 then Some (returns sys_close)
      else if num = 22 then Some (returns sys_chmod)
      else None)"

definition set_eax :: "int \<Rightarrow> ('a proc_state_scheme, unit) kernel" where
  "set_eax r = kmodify (\<lambda>s. upd_proc (curproc s) (\<lambda>p. p\<lparr>p_tf := (p_tf p)\<lparr>tf_eax := r\<rparr>\<rparr>) s)"

text \<open>Whether the process goes on after the call.\<close>

definition syscall :: "nat \<Rightarrow> ('a sys_state_scheme, bool) kernel" where
  "syscall data_sym = kbind (kget myproc) (\<lambda>p. let num = tf_eax (p_tf p) in
     case syscalls data_sym num of
       Some f \<Rightarrow> kbind f (\<lambda>r. case r of None \<Rightarrow> kreturn False | Some r \<Rightarrow> kseq (set_eax r) (kreturn True))
     | None \<Rightarrow>
         kseq (cons_print (cons_printint (p_pid p) 10 True @ [32] @ p_name p @ bytes_of '': unknown sys call '' @
                 cons_printint num 10 True @ [10]))
         (kseq (set_eax (-1)) (kreturn True)))"

section \<open>Traps\<close>

abbreviation T_SYSCALL :: nat where "T_SYSCALL \<equiv> 64"
abbreviation T_IRQ0 :: nat where "T_IRQ0 \<equiv> 32"

definition hex :: "nat \<Rightarrow> byte list" where
  "hex n = cons_printint (to_s32 (int n)) 16 False"

definition dec :: "nat \<Rightarrow> byte list" where
  "dec n = cons_printint (to_s32 (int n)) 10 True"

text \<open>The \<^verbatim>\<open>switch\<close> of the handler.  \<open>err\<close> and \<open>cr2\<close> are the error code and the faulting address; \<open>keys\<close> and \<open>serial\<close> are what
  the two devices deliver; \<open>dump\<close> is the process listing.\<close>

record trap_input =
  ti_cpu :: nat
  ti_err :: nat
  ti_cr2 :: nat
  ti_keys :: "nat list"
  ti_serial :: "nat list"

definition interrupt ::
  "('a sys_state_scheme, unit) kernel \<Rightarrow> trap_input \<Rightarrow> trapframe \<Rightarrow> ('a sys_state_scheme, unit) kernel" where
  "interrupt dump inp tf =
     (if tf_trapno tf = T_IRQ0 + 0 then
        kwhen (ti_cpu inp = 0) (kseq (kmodify (\<lambda>s. s\<lparr>ticks := ticks s + 1\<rparr>)) (wakeup Chan_ticks))
      else if tf_trapno tf = T_IRQ0 + 14 then ideintr
      else if tf_trapno tf = T_IRQ0 + 15 then kreturn ()
      else if tf_trapno tf = T_IRQ0 + 1 then consoleintr dump (ti_keys inp)
      else if tf_trapno tf = T_IRQ0 + 4 then consoleintr dump (ti_serial inp)
      else if tf_trapno tf = T_IRQ0 + 7 \<or> tf_trapno tf = T_IRQ0 + 31 then
        cons_print (bytes_of ''cpu'' @ dec (ti_cpu inp) @ bytes_of '': spurious interrupt at '' @ hex (tf_cs tf) @ [58] @
          hex (tf_eip tf) @ [10])
      else if tf_cs tf mod 4 = 0 then
        kseq (cons_print (bytes_of ''unexpected trap '' @ dec (tf_trapno tf) @ bytes_of '' from cpu '' @ dec (ti_cpu inp) @
          bytes_of '' eip '' @ hex (tf_eip tf) @ bytes_of '' (cr2=0x'' @ hex (ti_cr2 inp) @ [41, 10]))
        (kpanic ''trap'')
      else
        kbind (kget myproc) (\<lambda>p.
        kseq (cons_print (bytes_of ''pid '' @ cons_printint (p_pid p) 10 True @ [32] @ p_name p @ bytes_of '': trap '' @
          dec (tf_trapno tf) @ bytes_of '' err '' @ dec (ti_err inp) @ bytes_of '' on cpu '' @ dec (ti_cpu inp) @
          bytes_of '' eip 0x'' @ hex (tf_eip tf) @ bytes_of '' addr 0x'' @ hex (ti_cr2 inp) @ bytes_of ''--kill proc'' @ [10]))
        (kmodify (\<lambda>s. upd_proc (curproc s) (\<lambda>p. p\<lparr>p_killed := True\<rparr>) s))))"

text \<open>The test for a killed process that is about to return to its program; whether it goes on.\<close>

definition exit_if_killed :: "trapframe \<Rightarrow> ('a file_state_scheme, bool) kernel" where
  "exit_if_killed tf = kbind (kget myproc) (\<lambda>p.
     if p_killed p \<and> tf_cs tf mod 4 = DPL_USER then kseq exit (kreturn False) else kreturn True)"

text \<open>The handler, with the code after \<^verbatim>\<open>yield\<close> in place; the result says if the process goes on.\<close>

definition trap ::
  "nat \<Rightarrow> ('a sys_state_scheme, unit) kernel \<Rightarrow> trap_input \<Rightarrow> trapframe \<Rightarrow> ('a sys_state_scheme, bool) kernel" where
  "trap data_sym dump inp tf =
     (if tf_trapno tf = T_SYSCALL then
        kbind (kget (\<lambda>s. p_killed (myproc s))) (\<lambda>k.
        if k then kseq exit (kreturn False)
        else
          kseq (kmodify (\<lambda>s. upd_proc (curproc s) (\<lambda>p. p\<lparr>p_tf := tf\<rparr>) s))
          (kbind (syscall data_sym) (\<lambda>go.
           if \<not> go then kreturn False
           else kbind (kget (\<lambda>s. p_killed (myproc s))) (\<lambda>k.
             if k then kseq exit (kreturn False) else kreturn True))))
      else
        kseq (interrupt dump inp tf)
        (kbind (exit_if_killed tf) (\<lambda>go.
         if \<not> go then kreturn False
         else
           kseq (kbind (kget (\<lambda>s. p_state (myproc s))) (\<lambda>st. kwhen (st = RUNNING \<and> tf_trapno tf = T_IRQ0 + 0) yield))
                (exit_if_killed tf))))"

end
