(* ===== verification/Spinlock.thy ===== *)
theory Spinlock
  imports Kalloc
begin

text \<open>
  Spin locks, \<^verbatim>\<open>spinlock.c\<close>, on several processors.  A processor has its nesting depth of \<open>pushcli\<close>, the saved interrupt flag and
  the flag itself.  The code between two accesses to shared memory is one step; the steps of the processors interleave in
  any order.  The main result is mutual exclusion, and that a processor holding locks cannot be interrupted.
\<close>

section \<open>State and operations\<close>

record cpu =
  ncli :: int
  intena :: bool
  fl_if :: bool                 \<comment> \<open>the interrupt flag of \<^verbatim>\<open>eflags\<close>\<close>

record spinlock =
  locked :: bool
  lk_name :: string
  lk_cpu :: "nat option"
  lk_pcs :: "nat list"          \<comment> \<open>the call stack that locked the lock\<close>

record machine =
  cpus :: "nat \<Rightarrow> cpu"
  slocks :: "nat \<Rightarrow> spinlock"

definition upd_cpu :: "nat \<Rightarrow> (cpu \<Rightarrow> cpu) \<Rightarrow> machine \<Rightarrow> machine" where
  "upd_cpu c f s = s\<lparr>cpus := (cpus s)(c := f (cpus s c))\<rparr>"

definition upd_lock :: "nat \<Rightarrow> (spinlock \<Rightarrow> spinlock) \<Rightarrow> machine \<Rightarrow> machine" where
  "upd_lock l f s = s\<lparr>slocks := (slocks s)(l := f (slocks s l))\<rparr>"

definition initlock :: "nat \<Rightarrow> string \<Rightarrow> (machine, unit) kernel" where
  "initlock l name = kmodify (upd_lock l (\<lambda>k. k\<lparr>lk_name := name, locked := False, lk_cpu := None\<rparr>))"

definition pushcli :: "nat \<Rightarrow> (machine, unit) kernel" where
  "pushcli c = kmodify (upd_cpu c (\<lambda>p. p\<lparr>fl_if := False, intena := (if ncli p = 0 then fl_if p else intena p), ncli := ncli p + 1\<rparr>))"

definition popcli :: "nat \<Rightarrow> (machine, unit) kernel" where
  "popcli c = kbind (kget (\<lambda>s. cpus s c)) (\<lambda>p.
     if fl_if p then kpanic ''popcli - interruptible''
     else if ncli p - 1 < 0 then kpanic ''popcli''
     else kmodify (upd_cpu c (\<lambda>p. p\<lparr>ncli := ncli p - 1, fl_if := (ncli p - 1 = 0 \<and> intena p)\<rparr>)))"

definition holding :: "nat \<Rightarrow> nat \<Rightarrow> (machine, bool) kernel" where
  "holding c l = kseq (pushcli c) (kbind (kget (\<lambda>s. locked (slocks s l) \<and> lk_cpu (slocks s l) = Some c)) (\<lambda>r.
     kseq (popcli c) (kreturn r)))"

text \<open>\<open>acquire\<close> in three steps: up to the loop, one exchange (whether it got the lock), and after the loop.
  What \<open>getcallerpcs\<close> (below) finds is the argument \<open>pcs\<close>.\<close>

definition acquire_enter :: "nat \<Rightarrow> nat \<Rightarrow> (machine, unit) kernel" where
  "acquire_enter c l = kseq (pushcli c) (kbind (holding c l) (\<lambda>h. if h then kpanic ''acquire'' else kreturn ()))"

definition acquire_xchg :: "nat \<Rightarrow> nat \<Rightarrow> (machine, bool) kernel" where
  "acquire_xchg c l = kbind (kget (\<lambda>s. locked (slocks s l))) (\<lambda>old.
     kseq (kmodify (upd_lock l (\<lambda>k. k\<lparr>locked := True\<rparr>))) (kreturn (\<not> old)))"

definition acquire_exit :: "nat list \<Rightarrow> nat \<Rightarrow> nat \<Rightarrow> (machine, unit) kernel" where
  "acquire_exit pcs c l = kmodify (upd_lock l (\<lambda>k. k\<lparr>lk_cpu := Some c, lk_pcs := pcs\<rparr>))"

text \<open>\<open>release\<close> in two steps: the check with clearing the owner, and clearing the lock word.\<close>

definition release_enter :: "nat \<Rightarrow> nat \<Rightarrow> (machine, unit) kernel" where
  "release_enter c l = kbind (holding c l) (\<lambda>h.
     if \<not> h then kpanic ''release'' else kmodify (upd_lock l (\<lambda>k. k\<lparr>lk_pcs := (lk_pcs k)[0 := 0], lk_cpu := None\<rparr>)))"

definition release_exit :: "nat \<Rightarrow> nat \<Rightarrow> (machine, unit) kernel" where
  "release_exit c l = kseq (kmodify (upd_lock l (\<lambda>k. k\<lparr>locked := False\<rparr>))) (popcli c)"

text \<open>The return addresses on the stack, following the saved frame pointers.\<close>

primrec callerpcs :: "nat \<Rightarrow> memory \<Rightarrow> nat \<Rightarrow> nat list" where
  "callerpcs 0 m ebp = []"
| "callerpcs (Suc k) m ebp =
     (if ebp = 0 \<or> ebp < KERNBASE \<or> ebp = 0xffffffff then replicate (Suc k) 0
      else read_u32 (ebp + 4) m # callerpcs k m (read_u32 ebp m))"

definition getcallerpcs :: "memory \<Rightarrow> nat \<Rightarrow> nat list" where
  "getcallerpcs m v = callerpcs 10 m ((v + 2 ^ 32 - 8) mod 2 ^ 32)"

section \<open>Processors that take and give back locks\<close>

text \<open>What a processor is doing with locks: besides the locks it holds, it may be in the loop of \<open>acquire\<close>, past
  the loop but not yet recorded as the owner, or in the middle of \<open>release\<close>.\<close>

datatype lock_pc = Calm | Spinning nat | Taken nat | Leaving nat

record lock_sys =
  mach :: machine
  pc :: "nat \<Rightarrow> lock_pc"
  own :: "nat \<Rightarrow> nat set"

inductive lock_step :: "lock_sys \<Rightarrow> lock_sys \<Rightarrow> bool" where
  enter: "pc x c = Calm \<Longrightarrow> l \<notin> own x c \<Longrightarrow> acquire_enter c l (mach x) = Done () m \<Longrightarrow>
    lock_step x (x\<lparr>mach := m, pc := (pc x)(c := Spinning l)\<rparr>)"
| xchg: "pc x c = Spinning l \<Longrightarrow> acquire_xchg c l (mach x) = Done got m \<Longrightarrow>
    lock_step x (x\<lparr>mach := m, pc := (pc x)(c := if got then Taken l else Spinning l)\<rparr>)"
| exit: "pc x c = Taken l \<Longrightarrow> acquire_exit pcs c l (mach x) = Done () m \<Longrightarrow>
    lock_step x (x\<lparr>mach := m, pc := (pc x)(c := Calm), own := (own x)(c := insert l (own x c))\<rparr>)"
| leave: "pc x c = Calm \<Longrightarrow> l \<in> own x c \<Longrightarrow> release_enter c l (mach x) = Done () m \<Longrightarrow>
    lock_step x (x\<lparr>mach := m, pc := (pc x)(c := Leaving l), own := (own x)(c := own x c - {l})\<rparr>)"
| left: "pc x c = Leaving l \<Longrightarrow> release_exit c l (mach x) = Done () m \<Longrightarrow>
    lock_step x (x\<lparr>mach := m, pc := (pc x)(c := Calm)\<rparr>)"

text \<open>The locks whose word a processor has set, and its depth of \<open>pushcli\<close>.\<close>

definition has :: "lock_sys \<Rightarrow> nat \<Rightarrow> nat \<Rightarrow> bool" where
  "has x c l \<longleftrightarrow> l \<in> own x c \<or> pc x c = Taken l \<or> pc x c = Leaving l"

definition depth :: "lock_sys \<Rightarrow> nat \<Rightarrow> nat" where
  "depth x c = card (own x c) + (if pc x c = Calm then 0 else 1)"

definition cpu_ok :: "(nat \<Rightarrow> bool) \<Rightarrow> nat \<Rightarrow> nat \<Rightarrow> cpu \<Rightarrow> bool" where
  "cpu_ok int0 c n p \<longleftrightarrow> ncli p = int n \<and> (if n = 0 then fl_if p = int0 c else \<not> fl_if p \<and> intena p = int0 c)"

definition lock_inv :: "(nat \<Rightarrow> bool) \<Rightarrow> lock_sys \<Rightarrow> bool" where
  "lock_inv int0 x \<longleftrightarrow>
     (\<forall>l. locked (slocks (mach x) l) \<longleftrightarrow> (\<exists>c. has x c l)) \<and>
     (\<forall>c c' l. has x c l \<longrightarrow> has x c' l \<longrightarrow> c = c') \<and>
     (\<forall>c l. lk_cpu (slocks (mach x) l) = Some c \<longleftrightarrow> l \<in> own x c) \<and>
     (\<forall>c l. pc x c = Taken l \<or> pc x c = Leaving l \<longrightarrow> l \<notin> own x c) \<and>
     (\<forall>c. finite (own x c)) \<and> (\<forall>c. cpu_ok int0 c (depth x c) (cpus (mach x) c))"

lemma pushcli_run: "pushcli c s = Done () (upd_cpu c (\<lambda>p. p\<lparr>fl_if := False, intena := (if ncli p = 0 then fl_if p else intena p), ncli := ncli p + 1\<rparr>) s)"
  by (simp add: pushcli_def kmodify_def)

lemma popcli_run:
  "\<not> fl_if (cpus s c) \<Longrightarrow> 0 < ncli (cpus s c) \<Longrightarrow>
   popcli c s = Done () (upd_cpu c (\<lambda>p. p\<lparr>ncli := ncli p - 1, fl_if := (ncli p - 1 = 0 \<and> intena p)\<rparr>) s)"
  by (simp add: popcli_def kernel_defs)

lemma upd_cpu_upd_cpu: "upd_cpu c f (upd_cpu c g s) = upd_cpu c (f \<circ> g) s"
  by (simp add: upd_cpu_def)

lemma upd_cpu_sel [simp]:
  "cpus (upd_cpu c f s) = (cpus s)(c := f (cpus s c))" "slocks (upd_cpu c f s) = slocks s"
  "cpus (upd_lock l g s) = cpus s" "slocks (upd_lock l g s) = (slocks s)(l := g (slocks s l))"
  by (simp_all add: upd_cpu_def upd_lock_def)

text \<open>A balanced pair leaves a processor as it was, if its interrupts are consistent with its depth.\<close>

lemma holding_run:
  assumes "cpu_ok int0 c n (cpus s c)"
  shows "\<exists>t. holding c l s = Done (locked (slocks s l) \<and> lk_cpu (slocks s l) = Some c) t \<and>
    slocks t = slocks s \<and> (\<forall>c'. c' \<noteq> c \<longrightarrow> cpus t c' = cpus s c') \<and> cpu_ok int0 c n (cpus t c)"
proof -
  let ?s1 = "upd_cpu c (\<lambda>p. p\<lparr>fl_if := False, intena := (if ncli p = 0 then fl_if p else intena p), ncli := ncli p + 1\<rparr>) s"
  have "\<not> fl_if (cpus ?s1 c)" "0 < ncli (cpus ?s1 c)" using assms by (simp_all add: cpu_ok_def)
  note pop = popcli_run [OF this]
  have "holding c l s = Done (locked (slocks s l) \<and> lk_cpu (slocks s l) = Some c)
      (upd_cpu c (\<lambda>p. p\<lparr>ncli := ncli p - 1, fl_if := (ncli p - 1 = 0 \<and> intena p)\<rparr>) ?s1)"
    using pop by (simp add: holding_def pushcli_run kernel_defs)
  then show ?thesis using assms by (auto simp: cpu_ok_def)
qed

lemma push_ok:
  "cpu_ok int0 c n p \<Longrightarrow>
   cpu_ok int0 c (Suc n) (p\<lparr>fl_if := False, intena := (if ncli p = 0 then fl_if p else intena p), ncli := ncli p + 1\<rparr>)"
  by (auto simp: cpu_ok_def split: if_splits)

lemma acquire_enter_run:
  assumes "cpu_ok int0 c n (cpus s c)" "lk_cpu (slocks s l) \<noteq> Some c"
  shows "\<exists>t. acquire_enter c l s = Done () t \<and> slocks t = slocks s \<and> (\<forall>c'. c' \<noteq> c \<longrightarrow> cpus t c' = cpus s c') \<and>
    cpu_ok int0 c (Suc n) (cpus t c)"
proof -
  let ?s1 = "upd_cpu c (\<lambda>p. p\<lparr>fl_if := False, intena := (if ncli p = 0 then fl_if p else intena p), ncli := ncli p + 1\<rparr>) s"
  have "cpu_ok int0 c (Suc n) (cpus ?s1 c)" using push_ok [OF assms(1)] by simp
  from holding_run [OF this, of l] obtain t where "holding c l ?s1 = Done False t" "slocks t = slocks s"
    "\<forall>c'. c' \<noteq> c \<longrightarrow> cpus t c' = cpus ?s1 c'" "cpu_ok int0 c (Suc n) (cpus t c)" using assms(2) by auto
  then show ?thesis by (simp add: acquire_enter_def pushcli_run kernel_defs)
qed

lemma release_enter_run:
  assumes "cpu_ok int0 c n (cpus s c)" "locked (slocks s l)" "lk_cpu (slocks s l) = Some c"
  shows "\<exists>t. release_enter c l s = Done () t \<and> slocks t = (slocks s)(l := (slocks s l)\<lparr>lk_pcs := (lk_pcs (slocks s l))[0 := 0], lk_cpu := None\<rparr>) \<and>
    (\<forall>c'. c' \<noteq> c \<longrightarrow> cpus t c' = cpus s c') \<and> cpu_ok int0 c n (cpus t c)"
proof -
  from holding_run [OF assms(1), of l] assms(2,3) obtain t where "holding c l s = Done True t" "slocks t = slocks s"
    "\<forall>c'. c' \<noteq> c \<longrightarrow> cpus t c' = cpus s c'" "cpu_ok int0 c n (cpus t c)" by auto
  then show ?thesis by (simp add: release_enter_def kernel_defs)
qed

lemma release_exit_run:
  assumes "cpu_ok int0 c (Suc n) (cpus s c)"
  shows "\<exists>t. release_exit c l s = Done () t \<and> slocks t = (slocks s)(l := (slocks s l)\<lparr>locked := False\<rparr>) \<and>
    (\<forall>c'. c' \<noteq> c \<longrightarrow> cpus t c' = cpus s c') \<and> cpu_ok int0 c n (cpus t c)"
proof -
  let ?s1 = "upd_lock l (\<lambda>k. k\<lparr>locked := False\<rparr>) s"
  have "\<not> fl_if (cpus ?s1 c)" "0 < ncli (cpus ?s1 c)" using assms by (simp_all add: cpu_ok_def)
  from popcli_run [OF this] show ?thesis using assms by (auto simp: release_exit_def kernel_defs cpu_ok_def)
qed

text \<open>Before a step a processor's cpu record agrees with its depth; what a step needs of the invariant.\<close>

lemma lock_inv_cpu: "lock_inv int0 x \<Longrightarrow> cpu_ok int0 c (depth x c) (cpus (mach x) c)"
  and lock_inv_owner: "lock_inv int0 x \<Longrightarrow> lk_cpu (slocks (mach x) l) = Some c \<longleftrightarrow> l \<in> own x c"
  and lock_inv_locked: "lock_inv int0 x \<Longrightarrow> locked (slocks (mach x) l) \<longleftrightarrow> (\<exists>c. has x c l)"
  and lock_inv_unique: "lock_inv int0 x \<Longrightarrow> has x c l \<Longrightarrow> has x c' l \<Longrightarrow> c = c'"
  and lock_inv_out: "lock_inv int0 x \<Longrightarrow> pc x c = Taken l \<or> pc x c = Leaving l \<Longrightarrow> l \<notin> own x c"
  and lock_inv_finite: "lock_inv int0 x \<Longrightarrow> finite (own x c)"
  by (simp_all add: lock_inv_def; blast)+

lemma lock_invI:
  assumes "\<And>l. locked (slocks (mach x) l) \<longleftrightarrow> (\<exists>c. has x c l)"
    and "\<And>c c' l. has x c l \<Longrightarrow> has x c' l \<Longrightarrow> c = c'"
    and "\<And>c l. lk_cpu (slocks (mach x) l) = Some c \<longleftrightarrow> l \<in> own x c"
    and "\<And>c l. pc x c = Taken l \<or> pc x c = Leaving l \<Longrightarrow> l \<notin> own x c"
    and "\<And>c. finite (own x c)" and "\<And>c. cpu_ok int0 c (depth x c) (cpus (mach x) c)"
  shows "lock_inv int0 x"
  using assms by (simp add: lock_inv_def)

lemma has_update:
  "has (x\<lparr>mach := m, pc := (pc x)(c := q)\<rparr>) c' l \<longleftrightarrow>
     (if c' = c then l \<in> own x c \<or> q = Taken l \<or> q = Leaving l else has x c' l)"
  "has (x\<lparr>mach := m, pc := (pc x)(c := q), own := (own x)(c := A)\<rparr>) c' l \<longleftrightarrow>
     (if c' = c then l \<in> A \<or> q = Taken l \<or> q = Leaving l else has x c' l)"
  by (auto simp: has_def)

lemma depth_update:
  "depth (x\<lparr>mach := m, pc := (pc x)(c := q)\<rparr>) c' = (if c' = c then card (own x c) + (if q = Calm then 0 else 1) else depth x c')"
  "depth (x\<lparr>mach := m, pc := (pc x)(c := q), own := (own x)(c := A)\<rparr>) c' =
     (if c' = c then card A + (if q = Calm then 0 else 1) else depth x c')"
  by (auto simp: depth_def)

lemmas lock_facts = lock_inv_cpu lock_inv_owner lock_inv_locked lock_inv_out lock_inv_finite

lemma enter_inv:
  assumes inv: "lock_inv int0 x" and pc: "pc x c = Calm" "l \<notin> own x c" and run: "acquire_enter c l (mach x) = Done () m"
  shows "lock_inv int0 (x\<lparr>mach := m, pc := (pc x)(c := Spinning l)\<rparr>)"
proof -
  have "lk_cpu (slocks (mach x) l) \<noteq> Some c" using lock_inv_owner [OF inv] pc by blast
  from acquire_enter_run [OF lock_inv_cpu [OF inv] this] run
  have t: "slocks m = slocks (mach x)" "\<And>c'. c' \<noteq> c \<Longrightarrow> cpus m c' = cpus (mach x) c'" "cpu_ok int0 c (Suc (depth x c)) (cpus m c)"
    by auto
  have same: "has (x\<lparr>mach := m, pc := (pc x)(c := Spinning l)\<rparr>) c' k \<longleftrightarrow> has x c' k" for c' k
    using pc by (auto simp: has_update) (auto simp: has_def)
  show ?thesis
  proof (rule lock_invI, goal_cases)
    case (6 c')
    then show ?case using t lock_inv_cpu [OF inv, of c'] pc by (auto simp: depth_update depth_def)
  qed (use inv pc in \<open>auto simp: same t lock_inv_owner lock_inv_locked lock_inv_out lock_inv_finite dest: lock_inv_unique split: if_splits\<close>)
qed

lemma exit_inv:
  assumes inv: "lock_inv int0 x" and pc: "pc x c = Taken l" and run: "acquire_exit pcs c l (mach x) = Done () m"
  shows "lock_inv int0 (x\<lparr>mach := m, pc := (pc x)(c := Calm), own := (own x)(c := insert l (own x c))\<rparr>)" (is "lock_inv _ ?y")
proof -
  have m: "m = upd_lock l (\<lambda>k. k\<lparr>lk_cpu := Some c, lk_pcs := pcs\<rparr>) (mach x)" using run by (simp add: acquire_exit_def kmodify_def)
  have same: "has ?y c' k \<longleftrightarrow> has x c' k" for c' k using pc by (auto simp: has_update) (auto simp: has_def)
  have hl: "has x c l" using pc by (simp add: has_def)
  have only: "l \<in> own x c' \<Longrightarrow> c' = c" for c' using lock_inv_unique [OF inv hl, of c'] by (auto simp: has_def)
  have out: "l \<notin> own x c" using lock_inv_out [OF inv] pc by blast
  show ?thesis
  proof (rule lock_invI, goal_cases)
    case (1 k) then show ?case using lock_inv_locked [OF inv, of k] unfolding same by (auto simp: m)
  next
    case (2 c1 c2 k) then show ?case unfolding same by (rule lock_inv_unique [OF inv])
  next
    case (3 c' k) then show ?case using lock_inv_owner [OF inv, of k c'] only [of c'] by (auto simp: m)
  next
    case (4 c' k) then show ?case using lock_inv_out [OF inv, of c' k] by (auto split: if_splits)
  next
    case (5 c') then show ?case using lock_inv_finite [OF inv] by simp
  next
    case (6 c') then show ?case using lock_inv_cpu [OF inv, of c'] pc out lock_inv_finite [OF inv, of c]
      by (auto simp: depth_update depth_def m)
  qed
qed

lemma xchg_inv:
  assumes inv: "lock_inv int0 x" and pc: "pc x c = Spinning l" and run: "acquire_xchg c l (mach x) = Done got m"
  shows "lock_inv int0 (x\<lparr>mach := m, pc := (pc x)(c := if got then Taken l else Spinning l)\<rparr>)" (is "lock_inv _ ?y")
proof -
  have m: "m = upd_lock l (\<lambda>k. k\<lparr>locked := True\<rparr>) (mach x)" and got: "got \<longleftrightarrow> \<not> locked (slocks (mach x) l)"
    using run by (simp_all add: acquire_xchg_def kernel_defs)
  have same: "has ?y c' k \<longleftrightarrow> has x c' k \<or> got \<and> c' = c \<and> k = l" for c' k
    using pc by (auto simp: has_update) (auto simp: has_def)
  have free: "got \<Longrightarrow> \<not> has x c' l" for c' using got lock_inv_locked [OF inv, of l] by blast
  show ?thesis
  proof (rule lock_invI, goal_cases)
    case (1 k) then show ?case using lock_inv_locked [OF inv, of k] got unfolding same by (auto simp: m)
  next
    case (2 c1 c2 k) then show ?case unfolding same using lock_inv_unique [OF inv, of c1 k c2] free by blast
  next
    case (3 c' k) then show ?case using lock_inv_owner [OF inv, of k c'] by (auto simp: m)
  next
    case (4 c' k) then show ?case using lock_inv_out [OF inv, of c' k] free [of c] by (auto simp: has_def split: if_splits)
  next
    case (5 c') then show ?case using lock_inv_finite [OF inv] by simp
  next
    case (6 c') then show ?case using lock_inv_cpu [OF inv, of c'] pc by (auto simp: depth_update depth_def m)
  qed
qed

lemma leave_inv:
  assumes inv: "lock_inv int0 x" and pc: "pc x c = Calm" "l \<in> own x c" and run: "release_enter c l (mach x) = Done () m"
  shows "lock_inv int0 (x\<lparr>mach := m, pc := (pc x)(c := Leaving l), own := (own x)(c := own x c - {l})\<rparr>)" (is "lock_inv _ ?y")
proof -
  have hl: "has x c l" using pc by (simp add: has_def)
  then have lk: "locked (slocks (mach x) l)" "lk_cpu (slocks (mach x) l) = Some c"
    using lock_inv_locked [OF inv, of l] lock_inv_owner [OF inv, of l c] pc by blast+
  from release_enter_run [OF lock_inv_cpu [OF inv] lk] run
  have t: "slocks m = (slocks (mach x))(l := (slocks (mach x) l)\<lparr>lk_pcs := (lk_pcs (slocks (mach x) l))[0 := 0], lk_cpu := None\<rparr>)"
    "\<And>c'. c' \<noteq> c \<Longrightarrow> cpus m c' = cpus (mach x) c'" "cpu_ok int0 c (depth x c) (cpus m c)" by auto
  have same: "has ?y c' k \<longleftrightarrow> has x c' k" for c' k using pc by (auto simp: has_update) (auto simp: has_def)
  have only: "l \<in> own x c' \<Longrightarrow> c' = c" for c' using lock_inv_unique [OF inv hl, of c'] by (auto simp: has_def)
  have dep: "depth ?y c' = depth x c'" for c'
    using pc lock_inv_finite [OF inv, of c] card_Suc_Diff1 [of "own x c" l] by (auto simp: depth_update depth_def)
  show ?thesis
  proof (rule lock_invI, goal_cases)
    case (1 k) then show ?case using lock_inv_locked [OF inv, of k] unfolding same by (auto simp: t)
  next
    case (2 c1 c2 k) then show ?case unfolding same by (rule lock_inv_unique [OF inv])
  next
    case (3 c' k) then show ?case using lock_inv_owner [OF inv, of k c'] only [of c'] by (auto simp: t)
  next
    case (4 c' k) then show ?case using lock_inv_out [OF inv, of c' k] by (auto split: if_splits)
  next
    case (5 c') then show ?case using lock_inv_finite [OF inv] by simp
  next
    case (6 c') then show ?case unfolding dep using lock_inv_cpu [OF inv, of c'] t(2) [of c'] t(3) by (cases "c' = c") simp_all
  qed
qed

lemma left_inv:
  assumes inv: "lock_inv int0 x" and pc: "pc x c = Leaving l" and run: "release_exit c l (mach x) = Done () m"
  shows "lock_inv int0 (x\<lparr>mach := m, pc := (pc x)(c := Calm)\<rparr>)" (is "lock_inv _ ?y")
proof -
  have "cpu_ok int0 c (Suc (card (own x c))) (cpus (mach x) c)" using lock_inv_cpu [OF inv, of c] pc by (simp add: depth_def)
  from release_exit_run [OF this, of l] run
  have t: "slocks m = (slocks (mach x))(l := (slocks (mach x) l)\<lparr>locked := False\<rparr>)"
    "\<And>c'. c' \<noteq> c \<Longrightarrow> cpus m c' = cpus (mach x) c'" "cpu_ok int0 c (card (own x c)) (cpus m c)" by auto
  have hl: "has x c l" using pc by (simp add: has_def)
  have same: "has ?y c' k \<longleftrightarrow> has x c' k \<and> k \<noteq> l" for c' k
    using pc lock_inv_unique [OF inv hl, of c'] lock_inv_out [OF inv, of c l] by (auto simp: has_update) (auto simp: has_def)
  show ?thesis
  proof (rule lock_invI, goal_cases)
    case (1 k) then show ?case using lock_inv_locked [OF inv, of k] unfolding same by (auto simp: t)
  next
    case (2 c1 c2 k) then show ?case unfolding same using lock_inv_unique [OF inv, of c1 k c2] by blast
  next
    case (3 c' k) then show ?case using lock_inv_owner [OF inv, of k c'] by (auto simp: t)
  next
    case (4 c' k) then show ?case using lock_inv_out [OF inv, of c' k] by (auto split: if_splits)
  next
    case (5 c') then show ?case using lock_inv_finite [OF inv] by simp
  next
    case (6 c') then show ?case using lock_inv_cpu [OF inv, of c'] t(2) [of c'] t(3) by (auto simp: depth_update)
  qed
qed

lemma lock_step_inv: "lock_step x y \<Longrightarrow> lock_inv int0 x \<Longrightarrow> lock_inv int0 y"
  by (induction rule: lock_step.induct) (simp_all add: enter_inv xchg_inv exit_inv leave_inv left_inv)

text \<open>At the start no lock is held, and interrupts are on or off.\<close>

definition lock_start :: "(nat \<Rightarrow> bool) \<Rightarrow> lock_sys" where
  "lock_start int0 = \<lparr>mach = \<lparr>cpus = \<lambda>c. \<lparr>ncli = 0, intena = False, fl_if = int0 c\<rparr>, slocks = \<lambda>l. \<lparr>locked = False, lk_name = [], lk_cpu = None, lk_pcs = replicate 10 0\<rparr>\<rparr>,
     pc = \<lambda>c. Calm, own = \<lambda>c. {}\<rparr>"

lemma lock_start_inv: "lock_inv int0 (lock_start int0)"
  by (rule lock_invI) (auto simp: lock_start_def has_def depth_def cpu_ok_def)

lemma lock_reach_inv: "lock_step\<^sup>*\<^sup>* (lock_start int0) x \<Longrightarrow> lock_inv int0 x"
  by (induction rule: rtranclp_induct) (auto intro: lock_start_inv lock_step_inv)

text \<open>No operation gets stuck: a processor that calls \<open>acquire\<close> on a lock it does not hold, or \<open>release\<close> on one it holds,
  does not panic.\<close>

lemma lock_runs:
  assumes "lock_inv int0 x"
  shows "(pc x c = Calm \<and> l \<notin> own x c \<longrightarrow> (\<exists>m. acquire_enter c l (mach x) = Done () m)) \<and>
    (pc x c = Calm \<and> l \<in> own x c \<longrightarrow> (\<exists>m. release_enter c l (mach x) = Done () m)) \<and>
    (pc x c = Leaving l \<longrightarrow> (\<exists>m. release_exit c l (mach x) = Done () m))"
proof (intro conjI impI)
  show "\<exists>m. acquire_enter c l (mach x) = Done () m" if "pc x c = Calm \<and> l \<notin> own x c"
    using acquire_enter_run [OF lock_inv_cpu [OF assms]] lock_inv_owner [OF assms] that by blast
  show "\<exists>m. release_enter c l (mach x) = Done () m" if "pc x c = Calm \<and> l \<in> own x c"
    using release_enter_run [OF lock_inv_cpu [OF assms], of l c] lock_inv_owner [OF assms, of l c] lock_inv_locked [OF assms, of l] that
    by (auto simp: has_def)
  show "\<exists>m. release_exit c l (mach x) = Done () m" if "pc x c = Leaving l"
    using release_exit_run [of int0 c "card (own x c)" "mach x" l] lock_inv_cpu [OF assms, of c] that by (auto simp: depth_def)
qed

section \<open>Mutual exclusion\<close>

text \<open>C9: However the steps of the processors interleave, two processors never hold the same spin lock; a processor that holds
  one has its interrupts off, so a handler cannot deadlock on it; when it has given all of them back, its interrupt flag is
  what it was at the start; and \<open>acquire\<close> of a lock it does not hold and \<open>release\<close> of one it holds never panic.\<close>

theorem spinlock_mutual_exclusion:
  assumes "lock_step\<^sup>*\<^sup>* (lock_start int0) x"
  shows "(l \<in> own x c \<and> l \<in> own x c' \<longrightarrow> c = c') \<and>
    (own x c \<noteq> {} \<longrightarrow> \<not> fl_if (cpus (mach x) c)) \<and>
    (pc x c = Calm \<and> own x c = {} \<longrightarrow> fl_if (cpus (mach x) c) = int0 c \<and> ncli (cpus (mach x) c) = 0) \<and>
    (pc x c = Calm \<and> l \<notin> own x c \<longrightarrow> (\<exists>m. acquire_enter c l (mach x) = Done () m)) \<and>
    (pc x c = Calm \<and> l \<in> own x c \<longrightarrow> (\<exists>m. release_enter c l (mach x) = Done () m)) \<and>
    (pc x c = Leaving l \<longrightarrow> (\<exists>m. release_exit c l (mach x) = Done () m))"
proof -
  note inv = lock_reach_inv [OF assms]
  have "own x c \<noteq> {} \<Longrightarrow> depth x c \<noteq> 0" using lock_inv_finite [OF inv, of c] by (simp add: depth_def)
  then have "own x c \<noteq> {} \<longrightarrow> \<not> fl_if (cpus (mach x) c)" using lock_inv_cpu [OF inv, of c] by (auto simp: cpu_ok_def)
  moreover have "l \<in> own x c \<and> l \<in> own x c' \<longrightarrow> c = c'" using lock_inv_unique [OF inv, of c l c'] by (auto simp: has_def)
  moreover have "pc x c = Calm \<and> own x c = {} \<longrightarrow> fl_if (cpus (mach x) c) = int0 c \<and> ncli (cpus (mach x) c) = 0"
    using lock_inv_cpu [OF inv, of c] by (auto simp: cpu_ok_def depth_def)
  ultimately show ?thesis using lock_runs [OF inv, of c l] by blast
qed

text \<open>Processor 1 takes lock 7 and holds it.\<close>

theorem spinlock_mutual_exclusion_witness:
  "\<exists>x. lock_step\<^sup>*\<^sup>* (lock_start (\<lambda>_. True)) x \<and> 7 \<in> own x 1 \<and> \<not> fl_if (cpus (mach x) 1) \<and>
     (\<exists>m. release_enter 1 7 (mach x) = Done () m)"
proof -
  let ?x0 = "lock_start (\<lambda>_. True)"
  obtain m1 where "acquire_enter 1 7 (mach ?x0) = Done () m1" using lock_runs [OF lock_start_inv, of "\<lambda>_. True" 1 7]
    by (auto simp: lock_start_def)
  then obtain x1 where x1: "lock_step ?x0 x1" "pc x1 1 = Spinning 7" "own x1 = own ?x0" "pc x1 c = Calm \<or> c = 1" for c
    using lock_step.enter [of ?x0 1 7 m1] by (fastforce simp: lock_start_def)
  obtain x2 where x2: "lock_step x1 x2" "pc x2 1 = Taken 7"
  proof -
    have "\<not> has x1 c 7" for c using x1(2,3) x1(4) [of c] by (auto simp: has_def lock_start_def)
    then have "\<not> locked (slocks (mach x1) 7)" using lock_inv_locked [OF lock_step_inv [OF x1(1) lock_start_inv], of 7] by blast
    then have "acquire_xchg 1 7 (mach x1) = Done True (upd_lock 7 (\<lambda>k. k\<lparr>locked := True\<rparr>) (mach x1))"
      by (simp add: acquire_xchg_def kernel_defs)
    from lock_step.xchg [OF x1(2) this] show ?thesis by (intro that) auto
  qed
  have "acquire_exit [] 1 7 (mach x2) = Done () (upd_lock 7 (\<lambda>k. k\<lparr>lk_cpu := Some 1, lk_pcs := []\<rparr>) (mach x2))"
    by (simp add: acquire_exit_def kmodify_def)
  from lock_step.exit [OF x2(2) this] obtain x3 where x3: "lock_step x2 x3" "7 \<in> own x3 1" "pc x3 1 = Calm" by auto
  have "lock_step\<^sup>*\<^sup>* ?x0 x3" using x1(1) x2(1) x3(1) by (meson converse_rtranclp_into_rtranclp rtranclp.rtrancl_refl)
  then show ?thesis using spinlock_mutual_exclusion [of "\<lambda>_. True" x3 7 1 1] x3(2,3) by auto
qed

end
