(* ===== verification/Procdump.thy ===== *)
theory Procdump
  imports Syscall Spinlock
begin

text \<open>The process listing that control-P prints (\<open>procdump\<close> of \<^verbatim>\<open>proc.c\<close>), without locks: for a sleeping process it follows the
  frame pointer saved in its context through the kernel stack.\<close>

fun state_name :: "procstate \<Rightarrow> string" where
  "state_name UNUSED = ''unused''"
| "state_name EMBRYO = ''embryo''"
| "state_name SLEEPING = ''sleep ''"
| "state_name RUNNABLE = ''runble''"
| "state_name RUNNING = ''run   ''"
| "state_name ZOMBIE = ''zombie''"

definition procdump_one :: "nat \<Rightarrow> ('a cons_state_scheme, unit) kernel" where
  "procdump_one i = kbind (kget id) (\<lambda>s. let p = ptable s i in
     kwhen (p_state p \<noteq> UNUSED)
       (kseq (cons_print (cons_printint (p_pid p) 10 True @ [32] @ bytes_of (state_name (p_state p)) @ [32] @ p_name p))
       (kseq (kwhen (p_state p = SLEEPING)
                (kfor (takeWhile (\<lambda>pc. pc \<noteq> 0) (getcallerpcs (km_mem s) ((read_u32 (p_context p + 12) (km_mem s) + 8) mod 2 ^ 32)))
                      (\<lambda>pc. cons_print ([32] @ hex pc))))
             (cons_print [10]))))"

definition procdump :: "('a cons_state_scheme, unit) kernel" where
  "procdump = kfor [0..<NPROC] procdump_one"

end
