(* ===== verification/Frame.thy ===== *)
theory Frame
  imports Xv6_Prelude
begin

text \<open>
  Frame reasoning for kernel computations.  \<open>keeps P R f\<close> says that, from every state that satisfies \<open>P\<close>, however \<open>f\<close> ends short of
  a panic, by returning or by putting the process to sleep, the state it leaves is related to the one it started in by \<open>R\<close>.  Unlike the
  weakest preconditions of the prelude it needs nothing else of the state, and so holds of every branch of a computation at once.
\<close>

definition keeps :: "('s \<Rightarrow> bool) \<Rightarrow> ('s \<Rightarrow> 's \<Rightarrow> bool) \<Rightarrow> ('s, 'a) kernel \<Rightarrow> bool" where
  "keeps P R f \<longleftrightarrow> (\<forall>s. P s \<longrightarrow> (case f s of Done a t \<Rightarrow> R s t | Panic _ \<Rightarrow> True | Sleep _ t \<Rightarrow> R s t))"

lemma keepsI:
  "(\<And>s a t. P s \<Longrightarrow> f s = Done a t \<Longrightarrow> R s t) \<Longrightarrow> (\<And>s c t. P s \<Longrightarrow> f s = Sleep c t \<Longrightarrow> R s t) \<Longrightarrow> keeps P R f"
  by (auto simp: keeps_def split: outcome.split)

lemma keeps_Done: "keeps P R f \<Longrightarrow> P s \<Longrightarrow> f s = Done a t \<Longrightarrow> R s t"
  by (auto simp: keeps_def dest: spec [of _ s])

lemma keeps_Sleep: "keeps P R f \<Longrightarrow> P s \<Longrightarrow> f s = Sleep c t \<Longrightarrow> R s t"
  by (auto simp: keeps_def dest: spec [of _ s])

lemma keeps_mono: "keeps P R f \<Longrightarrow> (\<And>s. Q s \<Longrightarrow> P s) \<Longrightarrow> (\<And>s t. Q s \<Longrightarrow> R s t \<Longrightarrow> S s t) \<Longrightarrow> keeps Q S f"
  by (auto simp: keeps_def split: outcome.splits)

text \<open>The rules need a relation that can be chained and keeps the precondition.\<close>

locale frame_rules =
  fixes P :: "'s \<Rightarrow> bool" and R :: "'s \<Rightarrow> 's \<Rightarrow> bool"
  assumes R_refl: "P s \<Longrightarrow> R s s"
    and R_trans: "P s \<Longrightarrow> R s t \<Longrightarrow> R t u \<Longrightarrow> R s u"
    and P_R: "P s \<Longrightarrow> R s t \<Longrightarrow> P t"
begin

lemma keeps_kreturn: "keeps P R (kreturn a)"
  by (simp add: keeps_def kernel_defs R_refl)

lemma keeps_kget: "keeps P R (kget f)"
  by (simp add: keeps_def kernel_defs R_refl)

lemma keeps_kpanic: "keeps P R (kpanic msg)"
  by (simp add: keeps_def kernel_defs)

lemma keeps_ksleep: "keeps P R (ksleep c)"
  by (simp add: keeps_def kernel_defs R_refl)

lemma keeps_kmodify: "(\<And>s. P s \<Longrightarrow> R s (f s)) \<Longrightarrow> keeps P R (kmodify f)"
  by (simp add: keeps_def kernel_defs)

lemma keeps_kbind: "keeps P R f \<Longrightarrow> (\<And>a. keeps P R (g a)) \<Longrightarrow> keeps P R (kbind f g)"
proof (rule keepsI)
  assume f: "keeps P R f" and g: "\<And>a. keeps P R (g a)"
  show "R s t" if "P s" "kbind f g s = Done b t" for s b t
    using that by (auto simp: kbind_def split: outcome.splits intro!: R_trans [OF that(1) keeps_Done [OF f that(1)] keeps_Done [OF g]]
      P_R [OF that(1) keeps_Done [OF f that(1)]])
  show "R s t" if "P s" "kbind f g s = Sleep c t" for s c t
    using that keeps_Sleep [OF f that(1)] by (auto simp: kbind_def split: outcome.splits
      intro!: R_trans [OF that(1) keeps_Done [OF f that(1)] keeps_Sleep [OF g]] P_R [OF that(1) keeps_Done [OF f that(1)]])
qed

lemma keeps_kseq: "keeps P R f \<Longrightarrow> keeps P R g \<Longrightarrow> keeps P R (kseq f g)"
  by (simp add: kseq_def keeps_kbind)

lemma keeps_kwhen: "(b \<Longrightarrow> keeps P R f) \<Longrightarrow> keeps P R (kwhen b f)"
  by (simp add: kwhen_def keeps_kreturn)

lemma keeps_kfor: "(\<And>x. keeps P R (f x)) \<Longrightarrow> keeps P R (kfor xs f)"
  by (induction xs) (simp_all add: keeps_kreturn keeps_kseq)

lemma keeps_if: "(b \<Longrightarrow> keeps P R f) \<Longrightarrow> (\<not> b \<Longrightarrow> keeps P R g) \<Longrightarrow> keeps P R (if b then f else g)"
  by simp

lemma keeps_Let: "(\<And>y. y = x \<Longrightarrow> keeps P R (f y)) \<Longrightarrow> keeps P R (let y = x in f y)"
  by simp

lemma keeps_option:
  "(x = None \<Longrightarrow> keeps P R f) \<Longrightarrow> (\<And>y. x = Some y \<Longrightarrow> keeps P R (g y)) \<Longrightarrow> keeps P R (case x of None \<Rightarrow> f | Some y \<Rightarrow> g y)"
  by (simp split: option.split)

lemma keeps_prod: "(\<And>a b. x = (a, b) \<Longrightarrow> keeps P R (f a b)) \<Longrightarrow> keeps P R (case x of (a, b) \<Rightarrow> f a b)"
  by (simp split: prod.split)

lemma keeps_sum:
  "(\<And>a. x = Inl a \<Longrightarrow> keeps P R (f a)) \<Longrightarrow> (\<And>b. x = Inr b \<Longrightarrow> keeps P R (g b)) \<Longrightarrow>
   keeps P R (case x of Inl a \<Rightarrow> f a | Inr b \<Rightarrow> g b)"
  by (simp split: sum.split)

lemma keeps_list:
  "(xs = [] \<Longrightarrow> keeps P R f) \<Longrightarrow> (\<And>y ys. xs = y # ys \<Longrightarrow> keeps P R (g y ys)) \<Longrightarrow>
   keeps P R (case xs of [] \<Rightarrow> f | y # ys \<Rightarrow> g y ys)"
  by (simp split: list.split)

lemmas keeps_intros = keeps_kreturn keeps_kget keeps_kpanic keeps_ksleep keeps_kmodify keeps_kbind keeps_kseq keeps_kwhen keeps_kfor
  keeps_if keeps_Let keeps_option keeps_prod keeps_sum keeps_list

end

section \<open>Triples\<close>

text \<open>\<open>triple E P f Q\<close>: from a state that satisfies \<open>P\<close>, if \<open>f\<close> returns, its value and the state satisfy \<open>Q\<close>; if it puts the process
  to sleep, the state satisfies \<open>E\<close>.\<close>

definition triple :: "('s \<Rightarrow> bool) \<Rightarrow> ('s \<Rightarrow> bool) \<Rightarrow> ('s, 'a) kernel \<Rightarrow> ('a \<Rightarrow> 's \<Rightarrow> bool) \<Rightarrow> bool" where
  "triple E P f Q \<longleftrightarrow> (\<forall>s. P s \<longrightarrow> (case f s of Done a t \<Rightarrow> Q a t | Panic _ \<Rightarrow> True | Sleep _ t \<Rightarrow> E t))"

lemma triple_Done: "triple E P f Q \<Longrightarrow> P s \<Longrightarrow> f s = Done a t \<Longrightarrow> Q a t"
  by (auto simp: triple_def dest: spec [of _ s])

lemma triple_Sleep: "triple E P f Q \<Longrightarrow> P s \<Longrightarrow> f s = Sleep c t \<Longrightarrow> E t"
  by (auto simp: triple_def dest: spec [of _ s])

lemma triple_kbind: "triple E P f Q \<Longrightarrow> (\<And>a. triple E (Q a) (g a) S) \<Longrightarrow> triple E P (kbind f g) S"
proof -
  assume f: "triple E P f Q" and g: "\<And>a. triple E (Q a) (g a) S"
  have "case kbind f g s of Done a t \<Rightarrow> S a t | Panic _ \<Rightarrow> True | Sleep _ t \<Rightarrow> E t" if "P s" for s
  proof (cases "f s")
    case (Done a t)
    then show ?thesis using g [of a] triple_Done [OF f that Done] by (simp add: triple_def)
  qed (use triple_Sleep [OF f that] in \<open>auto simp: kbind_def\<close>)
  then show ?thesis by (simp add: triple_def)
qed

lemma triple_kseq: "triple E P f (\<lambda>_. Q) \<Longrightarrow> triple E Q g S \<Longrightarrow> triple E P (kseq f g) S"
  by (simp add: kseq_def triple_kbind)

lemma triple_kget: "(\<And>x. triple E (\<lambda>s. P s \<and> x = f s) (g x) Q) \<Longrightarrow> triple E P (kbind (kget f) g) Q"
  by (simp add: triple_def kernel_defs)

lemma triple_kmodify: "(\<And>s. P s \<Longrightarrow> Q () (f s)) \<Longrightarrow> triple E P (kmodify f) Q"
  by (simp add: triple_def kernel_defs)

lemma triple_kreturn: "(\<And>s. P s \<Longrightarrow> Q a s) \<Longrightarrow> triple E P (kreturn a) Q"
  by (simp add: triple_def kernel_defs)

lemma triple_kpanic: "triple E P (kpanic msg) Q"
  by (simp add: triple_def kernel_defs)

lemma triple_pre: "triple E P f Q \<Longrightarrow> (\<And>s. R s \<Longrightarrow> P s) \<Longrightarrow> triple E R f Q"
  by (simp add: triple_def)

lemma triple_post: "triple E P f Q \<Longrightarrow> (\<And>a t. Q a t \<Longrightarrow> S a t) \<Longrightarrow> triple E P f S"
  by (auto simp: triple_def split: outcome.splits)

lemma triple_if: "(b \<Longrightarrow> triple E P f Q) \<Longrightarrow> (\<not> b \<Longrightarrow> triple E P g Q) \<Longrightarrow> triple E P (if b then f else g) Q"
  by simp

lemma triple_option:
  "(x = None \<Longrightarrow> triple E P f Q) \<Longrightarrow> (\<And>y. x = Some y \<Longrightarrow> triple E P (g y) Q) \<Longrightarrow>
   triple E P (case x of None \<Rightarrow> f | Some y \<Rightarrow> g y) Q"
  by (simp split: option.split)

lemma triple_wp:
  assumes "\<And>s. P s \<Longrightarrow> wp f Q s"
  shows "triple E P f Q"
proof (unfold triple_def, intro allI impI)
  fix s
  assume "P s"
  then have "wp f Q s" by (rule assms)
  then show "case f s of Done a t \<Rightarrow> Q a t | Panic _ \<Rightarrow> True | Sleep _ t \<Rightarrow> E t" by (auto simp: wp_iff)
qed

text \<open>An assertion that the relation of a frame carries over is kept by what the frame covers.\<close>

lemma triple_keeps:
  "keeps P R f \<Longrightarrow> (\<And>s. Q s \<Longrightarrow> P s) \<Longrightarrow> (\<And>s t. Q s \<Longrightarrow> R s t \<Longrightarrow> Q t) \<Longrightarrow> (\<And>s. Q s \<Longrightarrow> E s) \<Longrightarrow> triple E Q f (\<lambda>_. Q)"
  by (auto simp: triple_def keeps_def split: outcome.splits)

end
