(* ===== verification/ProcTree.thy ===== *)
theory ProcTree
  imports Procdump Frame
begin

text \<open>
  What the whole kernel, from the allocator to the system calls, does to the process table outside process control: a frame relation
  \<open>tree_step\<close> between process tables, the interpretation of the frame rules for it, and, component by component, that every operation
  keeps it.  Only \<open>fork\<close>, \<open>exit\<close>, \<open>wait\<close> and the scheduler do more, and are treated in the next theory.
\<close>

section \<open>What the kernel does to the process table outside process control\<close>

definition alive :: "proc \<Rightarrow> bool" where
  "alive p \<longleftrightarrow> p_state p = SLEEPING \<or> p_state p = RUNNABLE \<or> p_state p = RUNNING"

text \<open>A slot keeps its identifier and its parent; a live process may fall asleep on a channel or become runnable.\<close>

definition slot_step :: "proc \<Rightarrow> proc \<Rightarrow> bool" where
  "slot_step p q \<longleftrightarrow> p_pid q = p_pid p \<and> p_parent q = p_parent p \<and>
     (p_state q = p_state p \<and> p_chan q = p_chan p \<or>
      alive p \<and> (p_state q = RUNNABLE \<or> p_state q = SLEEPING \<and> p_chan q \<noteq> None))"

definition tree_step :: "'a proc_state_scheme \<Rightarrow> 'a proc_state_scheme \<Rightarrow> bool" where
  "tree_step s t \<longleftrightarrow> curproc t = curproc s \<and> nextpid t = nextpid s \<and> initproc t = initproc s \<and>
     (\<forall>i. slot_step (ptable s i) (ptable t i))"

abbreviation cur_alive :: "'a proc_state_scheme \<Rightarrow> bool" where "cur_alive s \<equiv> alive (myproc s)"

lemma slot_step_refl [simp]: "slot_step p p"
  by (simp add: slot_step_def)

lemma slot_step_trans: "slot_step p q \<Longrightarrow> slot_step q r \<Longrightarrow> slot_step p r"
  by (auto simp: slot_step_def alive_def)

lemma slot_step_alive: "slot_step p q \<Longrightarrow> alive q = alive p"
  by (auto simp: slot_step_def alive_def)

interpretation tree: frame_rules cur_alive tree_step
proof
  show "tree_step s s" for s :: "'a proc_state_scheme" by (simp add: tree_step_def)
  show "tree_step s u" if "tree_step s t" "tree_step t u" for s t u :: "'a proc_state_scheme"
    using that by (auto simp: tree_step_def intro: slot_step_trans)
  show "cur_alive t" if "cur_alive s" "tree_step s t" for s t :: "'a proc_state_scheme"
    using that slot_step_alive by (auto simp: tree_step_def myproc_def)
qed

abbreviation keeps_tree :: "('a proc_state_scheme, 'b) kernel \<Rightarrow> bool" where
  "keeps_tree \<equiv> keeps cur_alive tree_step"

named_theorems frame \<open>the operations that keep the process tree\<close>

lemmas tree_intros [frame] = tree.keeps_intros

lemma call_frames [frame]:
  "keeps_tree f \<Longrightarrow> (\<And>a. keeps_tree (g a)) \<Longrightarrow> keeps_tree (with_arg f g)"
  "keeps_tree h \<Longrightarrow> keeps_tree (returns h)"
  unfolding with_arg_def returns_def by (intro frame; simp)+

lemma case_frames [frame]:
  "keeps_tree f \<Longrightarrow> keeps_tree g \<Longrightarrow> keeps_tree h \<Longrightarrow> keeps_tree (case ty of FD_NONE \<Rightarrow> f | FD_PIPE \<Rightarrow> g | FD_INODE \<Rightarrow> h)"
  "keeps_tree f \<Longrightarrow> keeps_tree g \<Longrightarrow> keeps_tree (case b of True \<Rightarrow> f | False \<Rightarrow> g)"
  by (cases ty; simp) (cases b; simp)

lemmas tree_simps = tree_step_def slot_step_def myproc_def alive_def upd_proc_def wake_all_def wake_table_def wakeup1_proc_def
  upd_buf_def set_buf_lock_def disk_write_def upd_inode_def set_inode_lock_def upd_pipe_def upd_file_def

subsection \<open>Memory\<close>

lemma kalloc_frames1 [frame]:
  "keeps_tree (kfree v)" "keeps_tree kalloc"
  unfolding kfree_def kalloc_def
  by (intro frame; simp add: tree_simps)+

lemma vm_frames1 [frame]:
  "keeps_tree (store_u32 a v)" "keeps_tree (load_u32 a)" "keeps_tree (zero_page a)"
  unfolding store_u32_def load_u32_def zero_page_def
  by (intro frame; simp add: tree_simps)+

lemma walkpgdir_frame [frame]: "keeps_tree (walkpgdir pgdir va alloc)"
  unfolding walkpgdir_def by (intro frame; simp add: tree_simps)

lemma map_one_frame [frame]: "keeps_tree (map_one pgdir perm a pa)"
  unfolding map_one_def by (intro frame; simp add: tree_simps)

lemma mappages_loop_frame [frame]: "keeps_tree (mappages_loop pgdir perm k a pa)"
proof (induction k arbitrary: a pa)
  case (Suc k)
  then show ?case unfolding mappages_loop.simps by (intro frame Suc; simp add: tree_simps)
qed (simp only: mappages_loop.simps, intro frame)

lemma mappages_frame [frame]: "keeps_tree (mappages pgdir va sz pa perm)"
  unfolding mappages_def by (intro frame; simp add: tree_simps)

lemma dealloc_loop_frame [frame]: "keeps_tree (dealloc_loop pgdir oldsz a)"
proof (induction pgdir oldsz a rule: dealloc_loop.induct)
  case (1 pgdir oldsz a)
  show ?case by (subst dealloc_loop.simps) (intro frame 1; simp add: tree_simps)
qed

lemma deallocuvm_frame [frame]: "keeps_tree (deallocuvm pgdir oldsz newsz)"
  unfolding deallocuvm_def by (intro frame; simp add: tree_simps)

lemma freevm_frame [frame]: "keeps_tree (freevm pgdir)"
  unfolding freevm_def by (intro frame; simp add: tree_simps)

lemma setupkvm_loop_frame [frame]: "keeps_tree (setupkvm_loop pgdir ks)"
proof (induction ks)
  case (Cons k ks)
  then show ?case unfolding setupkvm_loop.simps by (intro frame Cons; simp add: tree_simps)
qed (simp only: setupkvm_loop.simps, intro frame)

lemma setupkvm_frame [frame]: "keeps_tree (setupkvm data_sym)"
  unfolding setupkvm_def by (intro frame; simp add: tree_simps)

lemma alloc_loop_frame [frame]: "keeps_tree (alloc_loop pgdir newsz a)"
proof (induction pgdir newsz a rule: alloc_loop.induct)
  case (1 pgdir newsz a)
  show ?case by (subst alloc_loop.simps) (intro frame 1; simp add: tree_simps)
qed

lemma allocuvm_frame [frame]:
  assumes p: "\<And>m. keeps_tree (pr m)"
  shows "keeps_tree (allocuvm pr pgdir oldsz newsz)"
  unfolding allocuvm_def by (intro frame p; simp add: tree_simps)

lemma clearpteu_frame [frame]: "keeps_tree (clearpteu pgdir uva)"
  unfolding clearpteu_def by (intro frame; simp add: tree_simps)

lemma copyuvm_loop_frame [frame]: "keeps_tree (copyuvm_loop pgdir d sz i)"
proof (induction pgdir d sz i rule: copyuvm_loop.induct)
  case (1 pgdir d sz i)
  show ?case by (subst copyuvm_loop.simps) (intro frame 1; simp add: tree_simps)
qed

lemma vm_frames10 [frame]:
  "keeps_tree (copyuvm data_sym pgdir sz)" "keeps_tree (uva2ka pgdir uva)"
  unfolding copyuvm_def uva2ka_def
  by (intro frame; simp add: tree_simps)+

lemma copyout_frame [frame]: "keeps_tree (copyout pgdir va bs)"
proof (induction pgdir va bs rule: copyout.induct)
  case (1 pgdir va bs)
  show ?case by (subst copyout.simps) (intro frame 1; simp add: tree_simps)
qed

subsection \<open>Processes\<close>

lemma wakeup1_frame [frame]: "keeps_tree (wakeup1 c)"
  unfolding wakeup1_def by (intro frame; simp add: tree_simps)

lemma proc_frames2 [frame]:
  "keeps_tree (wakeup c)" "keeps_tree (sleep c)" "keeps_tree (kill pid)" "keeps_tree (switchuvm i)"
  unfolding wakeup_def sleep_def kill_def switchuvm_def
  by (intro frame; simp add: tree_simps)+

subsection \<open>Disk and buffer cache\<close>

lemma acquiresleep_frame [frame]: "(\<And>l s. tree_step s (put l s)) \<Longrightarrow> keeps_tree (acquiresleep lk put c)"
  unfolding acquiresleep_def by (intro frame; simp add: tree_simps)

lemma releasesleep_frame [frame]: "(\<And>l s. tree_step s (put l s)) \<Longrightarrow> keeps_tree (releasesleep put c)"
  unfolding releasesleep_def by (intro frame; simp add: tree_simps)

lemma holdingsleep_frame [frame]: "keeps_tree (holdingsleep lk)"
  unfolding holdingsleep_def by (intro frame; simp add: tree_simps)

lemma idestart_frame [frame]: "keeps_tree (idestart i)"
  unfolding idestart_def by (intro frame; simp add: tree_simps)

lemma ideintr_frame [frame]: "keeps_tree ideintr"
  unfolding ideintr_def by (intro frame; simp add: tree_simps)

lemma ide_wait_frame [frame]: "keeps_tree (ide_wait n i)"
proof (induction n)
  case (Suc n)
  then show ?case unfolding ide_wait.simps by (intro frame Suc; simp add: tree_simps)
qed (simp only: ide_wait.simps, intro frame)

lemma iderw_frame [frame]: "keeps_tree (iderw i)"
  unfolding iderw_def by (intro frame; simp add: tree_simps)

lemma bget_frame [frame]: "keeps_tree (bget dev blockno)"
  unfolding bget_def by (intro frame; simp add: tree_simps)

lemma bio_frames2 [frame]:
  "keeps_tree (bread dev blockno)" "keeps_tree (bwrite i)" "keeps_tree (brelse i)" "keeps_tree (buf_data i)"
  "keeps_tree (set_buf_data i d)"
  unfolding bread_def bwrite_def brelse_def buf_data_def set_buf_data_def
  by (intro frame; simp add: tree_simps)+

subsection \<open>Log\<close>

lemma log_frames1 [frame]:
  "keeps_tree install_trans" "keeps_tree write_head" "keeps_tree begin_op" "keeps_tree write_log"
  unfolding install_trans_def write_head_def begin_op_def write_log_def
  by (intro frame; simp add: tree_simps)+

lemma commit_frame [frame]: "keeps_tree commit"
  unfolding commit_def by (intro frame; simp add: tree_simps)

lemma log_frames3 [frame]:
  "keeps_tree end_op" "keeps_tree (log_write b)"
  unfolding end_op_def log_write_def
  by (intro frame; simp add: tree_simps)+

subsection \<open>Inodes and blocks\<close>

lemma bzero_frame [frame]: "keeps_tree (bzero dev bno)"
  unfolding bzero_def by (intro frame; simp add: tree_simps)

lemma balloc_from_frame [frame]: "keeps_tree (balloc_from dev sb b)"
proof (induction dev sb b rule: balloc_from.induct)
  case (1 dev sb b)
  show ?case by (subst balloc_from.simps) (intro frame 1; simp add: tree_simps)
qed

lemma balloc_frames2 [frame]:
  "keeps_tree (balloc dev)" "keeps_tree (bfree dev b)"
  unfolding balloc_def bfree_def
  by (intro frame; simp add: tree_simps)+

lemma iget_frame [frame]: "keeps_tree (iget dev inum)"
  unfolding iget_def by (intro frame; simp add: tree_simps)

lemma ialloc_from_frame [frame]: "keeps_tree (ialloc_from dev ty sb inum)"
proof (induction dev ty sb inum rule: ialloc_from.induct)
  case (1 dev ty sb inum)
  show ?case by (subst ialloc_from.simps) (intro frame 1; simp add: tree_simps)
qed

lemma icache_frames2 [frame]:
  "keeps_tree (ialloc dev ty)" "keeps_tree (iupdate i)" "keeps_tree (idup i)" "keeps_tree (ilock i)" "keeps_tree (iunlock i)"
  "keeps_tree (addr_slot i k)"
  unfolding ialloc_def iupdate_def idup_def ilock_def iunlock_def addr_slot_def
  by (intro frame; simp add: tree_simps)+

lemma icache_frames3 [frame]:
  "keeps_tree (bmap i bn)" "keeps_tree (itrunc i)"
  unfolding bmap_def itrunc_def
  by (intro frame; simp add: tree_simps)+

lemma iput_frame [frame]: "keeps_tree (iput i)"
  unfolding iput_def by (intro frame; simp add: tree_simps)

lemma icache_frames5 [frame]:
  "keeps_tree (iunlockput i)" "keeps_tree (stati i)"
  unfolding iunlockput_def stati_def
  by (intro frame; simp add: tree_simps)+

subsection \<open>Console\<close>

lemma console_frames1 [frame]:
  "keeps_tree (uartputc c)" "keeps_tree (cgaputc c)"
  unfolding uartputc_def cgaputc_def
  by (intro frame; simp add: tree_simps)+

lemma consputc_frame [frame]: "keeps_tree (consputc c)"
  unfolding consputc_def by (intro frame; simp add: tree_simps)

lemma kill_line_frame [frame]: "keeps_tree (kill_line k)"
proof (induction k)
  case (Suc k)
  then show ?case unfolding kill_line.simps by (intro frame Suc; simp add: tree_simps)
qed (simp only: kill_line.simps, intro frame)

lemma consoleintr_char_frame [frame]: "keeps_tree (consoleintr_char c)"
  unfolding consoleintr_char_def by (intro frame; simp add: tree_simps)

lemma consoleintr_loop_frame [frame]: "keeps_tree (consoleintr_loop cs dump)"
proof (induction cs arbitrary: dump)
  case (Cons c cs)
  then show ?case unfolding consoleintr_loop.simps by (intro frame Cons; simp add: tree_simps)
qed (simp only: consoleintr_loop.simps, intro frame)

lemma consoleintr_frame [frame]: "keeps_tree dump \<Longrightarrow> keeps_tree (consoleintr dump cs)"
  unfolding consoleintr_def by (intro frame; simp add: tree_simps)

lemma consoleread_loop_frame [frame]: "keeps_tree (consoleread_loop target n dst)"
proof (induction n arbitrary: dst)
  case (Suc n)
  then show ?case unfolding consoleread_loop.simps by (intro frame Suc; simp add: tree_simps)
qed (simp only: consoleread_loop.simps, intro frame)

lemma consoleread_resume_frame [frame]: "keeps_tree (consoleread_resume i target n dst)"
  unfolding consoleread_resume_def by (intro frame; simp add: tree_simps)

lemma console_frames6 [frame]:
  "keeps_tree (consoleread i n)" "keeps_tree (consolewrite i bs)"
  unfolding consoleread_def consolewrite_def
  by (intro frame; simp add: tree_simps)+

subsection \<open>Files and directories\<close>

lemma readi_loop_frame [frame]: "keeps_tree (readi_loop i off n)"
proof (induction i off n rule: readi_loop.induct)
  case (1 i off n)
  show ?case by (subst readi_loop.simps) (intro frame 1; simp add: tree_simps)
qed

lemma readi_frame [frame]: "keeps_tree (readi i off n)"
  unfolding readi_def by (intro frame; simp add: tree_simps)

lemma writei_loop_frame [frame]: "keeps_tree (writei_loop i off bs)"
proof (induction i off bs rule: writei_loop.induct)
  case (1 i off bs)
  show ?case by (subst writei_loop.simps) (intro frame 1; simp add: tree_simps)
qed

lemma fs_frames2 [frame]:
  "keeps_tree (writei i off bs)" "keeps_tree (read_dirent msg dp off)"
  unfolding writei_def read_dirent_def
  by (intro frame; simp add: tree_simps)+

lemma dir_scan_frame [frame]: "keeps_tree (dir_scan msg dp P sz off)"
proof (induction msg dp P sz off rule: dir_scan.induct)
  case (1 msg dp P sz off)
  show ?case by (subst dir_scan.simps) (intro frame 1; simp add: tree_simps)
qed

lemma dirlookup_frame [frame]: "keeps_tree (dirlookup dp name)"
  unfolding dirlookup_def by (intro frame; simp add: tree_simps)

lemma dirlink_frame [frame]: "keeps_tree (dirlink dp name inum)"
  unfolding dirlink_def by (intro frame; simp add: tree_simps)

lemma namex_loop_frame [frame]: "keeps_tree (namex_loop ip parent name path)"
proof (induction ip parent name path rule: namex_loop.induct)
  case (1 ip parent name path)
  show ?case by (subst namex_loop.simps) (intro frame 1; simp add: tree_simps)
qed

lemma namex_frame [frame]: "keeps_tree (namex path parent)"
  unfolding namex_def by (intro frame; simp add: tree_simps)

lemma fs_frames6 [frame]:
  "keeps_tree (namei path)" "keeps_tree (nameiparent path)" "keeps_tree (chmod i mode)"
  unfolding namei_def nameiparent_def chmod_def
  by (intro frame; simp add: tree_simps)+

subsection \<open>Pipes and open files\<close>

lemma pipe_frames1 [frame]:
  "keeps_tree (pipeclose a writable)" "keeps_tree (fall_asleep c)"
  unfolding pipeclose_def fall_asleep_def
  by (intro frame; simp add: tree_simps)+

lemma pipewrite_loop_frame [frame]: "keeps_tree (pipewrite_loop a cs)"
proof (induction cs)
  case (Cons c cs)
  then show ?case unfolding pipewrite_loop.simps by (intro frame Cons; simp add: tree_simps)
qed (simp only: pipewrite_loop.simps, intro frame)

lemma pipewrite_resume_frame [frame]: "keeps_tree (pipewrite_resume a n bs)"
  unfolding pipewrite_resume_def by (intro frame; simp add: tree_simps)

lemma pipewrite_frame [frame]: "keeps_tree (pipewrite a bs)"
  unfolding pipewrite_def by (intro frame; simp add: tree_simps)

lemma piperead_loop_frame [frame]: "keeps_tree (piperead_loop a n)"
proof (induction n)
  case (Suc n)
  then show ?case unfolding piperead_loop.simps by (intro frame Suc; simp add: tree_simps)
qed (simp only: piperead_loop.simps, intro frame)

lemma piperead_frame [frame]: "keeps_tree (piperead a n)"
  unfolding piperead_def by (intro frame; simp add: tree_simps)

lemma file_frames1 [frame]:
  "keeps_tree filealloc" "keeps_tree (filedup f)" "keeps_tree (fileclose f)"
  unfolding filealloc_def filedup_def fileclose_def
  by (intro frame; simp add: tree_simps)+

lemma file_frames2 [frame]:
  "keeps_tree pipealloc" "keeps_tree (filestat f)" "keeps_tree (fileread f n)" "keeps_tree (write_chunk f bs)"
  unfolding pipealloc_def filestat_def fileread_def write_chunk_def
  by (intro frame; simp add: tree_simps)+

lemma filewrite_loop_frame [frame]: "keeps_tree (filewrite_loop f bs)"
proof (induction f bs rule: filewrite_loop.induct)
  case (1 f bs)
  show ?case by (subst filewrite_loop.simps) (intro frame 1; simp add: tree_simps)
qed

lemma filewrite_frame [frame]: "keeps_tree (filewrite f bs)"
  unfolding filewrite_def by (intro frame; simp add: tree_simps)

subsection \<open>System calls\<close>

lemma ubyte_frame [frame]: "keeps_tree (ubyte va)"
  unfolding ubyte_def by (intro frame; simp add: tree_simps)

lemma uload_frame [frame]: "keeps_tree (uload va n)"
proof (induction n arbitrary: va)
  case (Suc n)
  then show ?case unfolding uload.simps by (intro frame Suc; simp add: tree_simps)
qed (simp only: uload.simps, intro frame)

lemma ustore_frame [frame]: "keeps_tree (ustore va bs)"
proof (induction bs arbitrary: va)
  case (Cons b bs)
  then show ?case unfolding ustore.simps by (intro frame Cons; simp add: tree_simps)
qed (simp only: ustore.simps, intro frame)

lemma fetchint_frame [frame]: "keeps_tree (fetchint addr)"
  unfolding fetchint_def by (intro frame; simp add: tree_simps)

lemma fetchstr_loop_frame [frame]: "keeps_tree (fetchstr_loop k a acc)"
proof (induction k arbitrary: a acc)
  case (Suc k)
  then show ?case unfolding fetchstr_loop.simps by (intro frame Suc; simp add: tree_simps)
qed (simp only: fetchstr_loop.simps, intro frame)

lemma uaccess_frames3 [frame]:
  "keeps_tree (fetchstr addr)" "keeps_tree (argint n)"
  unfolding fetchstr_def argint_def
  by (intro frame; simp add: tree_simps)+

lemma uaccess_frames4 [frame]:
  "keeps_tree (argptr n sz)" "keeps_tree (argstr n)" "keeps_tree (argfd n)"
  unfolding argptr_def argstr_def argfd_def
  by (intro frame; simp add: tree_simps)+

lemma set_name_frame [frame]: "keeps_tree (set_name i nm)"
  unfolding set_name_def by (intro frame; simp add: tree_simps)

lemma growproc_frame [frame]:
  assumes p: "\<And>m. keeps_tree (pr m)"
  shows "keeps_tree (growproc pr n)"
  unfolding growproc_def by (intro frame p; simp add: tree_simps)

lemma proclife_frames3 [frame]:
  "keeps_tree (fork_file np i fo)" "keeps_tree (close_fd fd)"
  unfolding fork_file_def close_fd_def
  by (intro frame; simp add: tree_simps)+

lemma loaduvm_loop_frame [frame]: "keeps_tree (loaduvm_loop pgdir addr ip off sz i)"
proof (induction pgdir addr ip off sz i rule: loaduvm_loop.induct)
  case (1 pgdir addr ip off sz i)
  show ?case by (subst loaduvm_loop.simps) (intro frame 1; simp add: tree_simps)
qed

lemma loaduvm_frame [frame]: "keeps_tree (loaduvm pgdir addr ip off sz)"
  unfolding loaduvm_def by (intro frame; simp add: tree_simps)

lemma load_segments_frame [frame]:
  assumes p: "\<And>m. keeps_tree (pr m)"
  shows "keeps_tree (load_segments pr pgdir ip k off sz)"
proof (induction k arbitrary: off sz)
  case (Suc k)
  then show ?case unfolding load_segments.simps by (intro frame p Suc; simp add: tree_simps)
qed (simp only: load_segments.simps, intro frame)

lemma push_args_frame [frame]: "keeps_tree (push_args pgdir as sp ptrs)"
proof (induction as arbitrary: sp ptrs)
  case (Cons a as)
  then show ?case unfolding push_args.simps by (intro frame Cons; simp add: tree_simps)
qed (simp only: push_args.simps, intro frame)

lemma build_stack_frame [frame]:
  assumes p: "\<And>m. keeps_tree (pr m)"
  shows "keeps_tree (build_stack pr pgdir sz argv)"
  unfolding build_stack_def by (intro frame p; simp add: tree_simps)

lemma exec_frames3 [frame]:
  "keeps_tree (exec_bad pgdir ipo)" "keeps_tree (exec_commit pgdir sz entry sp path)"
  unfolding exec_bad_def exec_commit_def
  by (intro frame; simp add: tree_simps)+

lemma exec_frame [frame]:
  assumes p: "\<And>m. keeps_tree (pr m)"
  shows "keeps_tree (exec data_sym pr path argv)"
  unfolding exec_def by (intro frame p; simp add: tree_simps)

lemma fetch_argv_frame [frame]: "keeps_tree (fetch_argv k uargv acc)"
proof (induction k arbitrary: uargv acc)
  case (Suc k)
  then show ?case unfolding fetch_argv.simps by (intro frame Suc; simp add: tree_simps)
qed (simp only: fetch_argv.simps, intro frame)

lemma sys_exec_frame [frame]:
  assumes p: "\<And>m. keeps_tree (pr m)"
  shows "keeps_tree (sys_exec data_sym pr)"
  unfolding sys_exec_def by (intro frame p; simp add: tree_simps)

lemma sysfile_frames1 [frame]:
  "keeps_tree (fdalloc f)" "keeps_tree (set_ofile fd fo)"
  unfolding fdalloc_def set_ofile_def
  by (intro frame; simp add: tree_simps)+

lemma sysfile_frames2 [frame]:
  "keeps_tree sys_dup" "keeps_tree sys_read" "keeps_tree sys_write" "keeps_tree sys_close" "keeps_tree sys_fstat"
  "keeps_tree (add_nlink i k)" "keeps_tree fail_op"
  unfolding sys_dup_def sys_read_def sys_write_def sys_close_def sys_fstat_def add_nlink_def fail_op_def
  by (intro frame; simp add: tree_simps)+

lemma sys_link_bad_frame [frame]: "keeps_tree (sys_link_bad ip)"
  unfolding sys_link_bad_def by (intro frame; simp add: tree_simps)

lemma sysfile_frames4 [frame]:
  "keeps_tree sys_link" "keeps_tree (isdirempty dp)"
  unfolding sys_link_def isdirempty_def
  by (intro frame; simp add: tree_simps)+

lemma sysfile_frames5 [frame]:
  "keeps_tree sys_unlink" "keeps_tree (create path ty major minor)"
  unfolding sys_unlink_def create_def
  by (intro frame; simp add: tree_simps)+

lemma open_inode_frame [frame]: "keeps_tree (open_inode path omode)"
  unfolding open_inode_def by (intro frame; simp add: tree_simps)

lemma sysfile_frames7 [frame]:
  "keeps_tree sys_open" "keeps_tree (finish_create r)"
  unfolding sys_open_def finish_create_def
  by (intro frame; simp add: tree_simps)+

lemma sysfile_frames8 [frame]:
  "keeps_tree sys_mkdir" "keeps_tree sys_mknod" "keeps_tree sys_chdir" "keeps_tree sys_pipe" "keeps_tree sys_chmod"
  unfolding sys_mkdir_def sys_mknod_def sys_chdir_def sys_pipe_def sys_chmod_def
  by (intro frame; simp add: tree_simps)+

lemma cons_print_frame [frame]: "keeps_tree (cons_print bs)"
  unfolding cons_print_def by (intro frame; simp add: tree_simps)

lemma syscall_frames2 [frame]:
  "keeps_tree (cprint msg)" "keeps_tree sys_kill" "keeps_tree sys_getpid"
  unfolding cprint_def sys_kill_def sys_getpid_def
  by (intro frame; simp add: tree_simps)+

lemma syscall_frames3 [frame]:
  "keeps_tree sys_sbrk" "keeps_tree (sys_sleep_loop ticks0 n)"
  unfolding sys_sbrk_def sys_sleep_loop_def
  by (intro frame; simp add: tree_simps)+

lemma syscall_frames4 [frame]:
  "keeps_tree sys_sleep" "keeps_tree sys_uptime" "keeps_tree (set_eax r)"
  unfolding sys_sleep_def sys_uptime_def set_eax_def
  by (intro frame; simp add: tree_simps)+

lemma procdump_frame [frame]: "keeps_tree procdump"
  unfolding procdump_def procdump_one_def by (intro frame; simp)

end
