(* ===== verification/ProcInv.thy ===== *)
theory ProcInv
  imports ProcTree
begin

text \<open>
  The process table is well-formed at all times: the invariant \<open>proc_inv\<close> and the proof that no trap can break it, whatever system call,
  interrupt or fault it is and whichever way the kernel handles it.
\<close>

section \<open>The invariant\<close>

text \<open>Processes that are not free have identifiers that were handed out and are theirs alone.  Only the current process runs, and a sleeping
  process has a channel.  The first process is there, and every other live or ended one has a parent that lives, which can wait for it.\<close>

definition slot_ok :: "'a proc_state_scheme \<Rightarrow> nat \<Rightarrow> bool" where
  "slot_ok s i \<longleftrightarrow> (let p = ptable s i in
     (p_state p \<noteq> UNUSED \<longrightarrow> 0 < p_pid p \<and> p_pid p < nextpid s) \<and>
     (p_state p = RUNNING \<longrightarrow> i = curproc s) \<and>
     (p_state p = SLEEPING \<longrightarrow> p_chan p \<noteq> None) \<and>
     ((alive p \<or> p_state p = ZOMBIE) \<and> i \<noteq> initproc s \<longrightarrow> (\<exists>q < NPROC. p_parent p = Some q \<and> alive (ptable s q))))"

definition pids_unique :: "'a proc_state_scheme \<Rightarrow> bool" where
  "pids_unique s \<longleftrightarrow> (\<forall>i < NPROC. \<forall>j < NPROC. p_state (ptable s i) \<noteq> UNUSED \<and> p_state (ptable s j) \<noteq> UNUSED \<and>
     p_pid (ptable s i) = p_pid (ptable s j) \<longrightarrow> i = j)"

definition proc_inv :: "'a proc_state_scheme \<Rightarrow> bool" where
  "proc_inv s \<longleftrightarrow> curproc s < NPROC \<and> 0 < nextpid s \<and> initproc s < NPROC \<and> alive (ptable s (initproc s)) \<and>
     pids_unique s \<and> (\<forall>i < NPROC. slot_ok s i)"

lemma slot_step_facts:
  assumes "slot_step p q"
  shows "p_pid q = p_pid p" "p_parent q = p_parent p" "alive q = alive p" "p_state q = UNUSED \<longleftrightarrow> p_state p = UNUSED"
    "p_state q = ZOMBIE \<longleftrightarrow> p_state p = ZOMBIE" "p_state q = EMBRYO \<longleftrightarrow> p_state p = EMBRYO"
    "p_state q = RUNNING \<Longrightarrow> p_state p = RUNNING"
    "p_state q = SLEEPING \<Longrightarrow> p_state p = SLEEPING \<and> p_chan q = p_chan p \<or> p_chan q \<noteq> None"
  using assms by (auto simp: slot_step_def alive_def)

lemma tree_step_facts:
  assumes "tree_step s t"
  shows "curproc t = curproc s" "nextpid t = nextpid s" "initproc t = initproc s" "slot_step (ptable s i) (ptable t i)"
    "p_pid (ptable t i) = p_pid (ptable s i)" "p_parent (ptable t i) = p_parent (ptable s i)"
    "alive (ptable t i) = alive (ptable s i)" "p_state (ptable t i) = UNUSED \<longleftrightarrow> p_state (ptable s i) = UNUSED"
    "p_state (ptable t i) = ZOMBIE \<longleftrightarrow> p_state (ptable s i) = ZOMBIE" "p_state (ptable t i) = EMBRYO \<longleftrightarrow> p_state (ptable s i) = EMBRYO"
  using assms slot_step_facts [of "ptable s i" "ptable t i"] by (auto simp: tree_step_def)

lemma proc_inv_tree:
  assumes "proc_inv s" "tree_step s t"
  shows "proc_inv t"
proof -
  note f = tree_step_facts [OF assms(2)]
  have "slot_ok t i" if "i < NPROC" for i
  proof -
    have "slot_ok s i" using assms(1) that by (simp add: proc_inv_def)
    then show ?thesis using slot_step_facts(7,8) [OF f(4) [of i]] by (auto simp: slot_ok_def Let_def f)
  qed
  moreover have "pids_unique t" using assms(1) by (simp add: proc_inv_def pids_unique_def f)
  ultimately show ?thesis using assms(1) by (simp add: proc_inv_def f)
qed

text \<open>Changing one slot other than that of the first process.  A slot that stops being alive must have no children.\<close>

definition slot_new :: "'a proc_state_scheme \<Rightarrow> nat \<Rightarrow> proc \<Rightarrow> bool" where
  "slot_new s i q \<longleftrightarrow> i \<noteq> initproc s \<and>
     (p_state q \<noteq> UNUSED \<longrightarrow> 0 < p_pid q \<and> p_pid q < nextpid s \<and> p_state (ptable s i) \<noteq> UNUSED \<and> p_pid q = p_pid (ptable s i)) \<and>
     (p_state q \<noteq> RUNNING \<and> p_state q \<noteq> SLEEPING) \<and>
     (alive q \<or> p_state q = ZOMBIE \<longrightarrow> (\<exists>r < NPROC. r \<noteq> i \<and> p_parent q = Some r \<and> alive (ptable s r))) \<and>
     (alive (ptable s i) \<and> \<not> alive q \<longrightarrow> (\<forall>j < NPROC. p_parent (ptable s j) \<noteq> Some i))"

lemma proc_inv_slot:
  assumes inv: "proc_inv s" and new: "slot_new s i (f (ptable s i))"
  shows "proc_inv (upd_proc i f s)"
proof -
  define q where "q = f (ptable s i)"
  have t: "ptable (upd_proc i f s) = (ptable s)(i := q)" by (simp add: upd_proc_def q_def)
  have o: "curproc (upd_proc i f s) = curproc s" "nextpid (upd_proc i f s) = nextpid s" "initproc (upd_proc i f s) = initproc s"
    by (simp_all add: upd_proc_def)
  note n = new [folded q_def, unfolded slot_new_def]
  have "slot_ok (upd_proc i f s) j" if j: "j < NPROC" for j
  proof (cases "j = i")
    case True
    then show ?thesis using n by (auto simp: slot_ok_def Let_def t o)
  next
    case False
    have ok: "slot_ok s j" using inv j by (simp add: proc_inv_def)
    have "\<exists>r < NPROC. p_parent (ptable s j) = Some r \<and> alive (if r = i then q else ptable s r)"
      if "(alive (ptable s j) \<or> p_state (ptable s j) = ZOMBIE) \<and> j \<noteq> initproc s"
    proof -
      from ok that obtain r where r: "r < NPROC" "p_parent (ptable s j) = Some r" "alive (ptable s r)"
        unfolding slot_ok_def Let_def by blast
      then have "r = i \<Longrightarrow> alive q" using n j by blast
      with r show ?thesis by (intro exI [of _ r]) simp
    qed
    then show ?thesis using False ok by (simp add: slot_ok_def Let_def t o)
  qed
  moreover have "pids_unique (upd_proc i f s)" using inv n by (auto simp: proc_inv_def pids_unique_def t)
  ultimately show ?thesis using inv n by (simp add: proc_inv_def t o)
qed

text \<open>While a process is in the kernel it is alive.\<close>

definition live :: "'a proc_state_scheme \<Rightarrow> bool" where
  "live s \<longleftrightarrow> proc_inv s \<and> cur_alive s"

definition stable :: "('a proc_state_scheme \<Rightarrow> bool) \<Rightarrow> bool" where
  "stable Q \<longleftrightarrow> (\<forall>s t. Q s \<longrightarrow> live s \<and> (tree_step s t \<longrightarrow> Q t))"

lemma stable_keeps: "stable Q \<Longrightarrow> keeps_tree f \<Longrightarrow> triple proc_inv Q f (\<lambda>_. Q)"
  by (rule triple_keeps [of cur_alive tree_step]) (auto simp: stable_def live_def)

lemma bind_keeps:
  "stable Q \<Longrightarrow> keeps_tree f \<Longrightarrow> (\<And>a. triple proc_inv Q (g a) S) \<Longrightarrow> triple proc_inv Q (kbind f g) S"
  by (rule triple_kbind [OF stable_keeps])

lemma seq_keeps: "stable Q \<Longrightarrow> keeps_tree f \<Longrightarrow> triple proc_inv Q g S \<Longrightarrow> triple proc_inv Q (kseq f g) S"
  by (rule triple_kseq [OF stable_keeps])

lemma seq_kmodify: "(\<And>s. P s \<Longrightarrow> Q (f s)) \<Longrightarrow> triple E Q g S \<Longrightarrow> triple E P (kseq (kmodify f) g) S"
  by (rule triple_kseq [OF triple_kmodify])

lemma live_tree: "live s \<Longrightarrow> tree_step s t \<Longrightarrow> live t"
  by (auto simp: live_def myproc_def tree_step_facts intro: proc_inv_tree)

lemma stable_live [simp]: "stable live"
  by (auto simp: stable_def intro: live_tree)

section \<open>Creating a process\<close>

definition embryo :: "nat \<Rightarrow> 'a proc_state_scheme \<Rightarrow> bool" where
  "embryo i s \<longleftrightarrow> live s \<and> i < NPROC \<and> p_state (ptable s i) = EMBRYO"

definition child :: "nat \<Rightarrow> 'a proc_state_scheme \<Rightarrow> bool" where
  "child i s \<longleftrightarrow> embryo i s \<and> p_parent (ptable s i) = Some (curproc s)"

lemma stable_embryo [simp]: "stable (embryo i)"
  by (auto simp: stable_def embryo_def tree_step_facts intro: live_tree)

lemma stable_child [simp]: "stable (child i)"
  by (auto simp: stable_def child_def embryo_def tree_step_facts intro: live_tree)

lemma embryo_new:
  assumes "embryo i s"
  shows "i \<noteq> initproc s" "i \<noteq> curproc s" "0 < p_pid (ptable s i)" "p_pid (ptable s i) < nextpid s" "\<not> alive (ptable s i)" "i < NPROC"
    "proc_inv s" "cur_alive s" "curproc s < NPROC" "p_state (ptable s i) = EMBRYO"
proof -
  have i: "i < NPROC" "p_state (ptable s i) = EMBRYO" and inv: "proc_inv s" "cur_alive s" using assms by (simp_all add: embryo_def live_def)
  then have "slot_ok s i" "alive (ptable s (initproc s))" and c: "curproc s < NPROC" by (simp_all add: proc_inv_def)
  then show "i \<noteq> initproc s" "i \<noteq> curproc s" "0 < p_pid (ptable s i)" "p_pid (ptable s i) < nextpid s" "\<not> alive (ptable s i)"
    using i inv(2) by (auto simp: slot_ok_def Let_def alive_def myproc_def)
  show "i < NPROC" "proc_inv s" "cur_alive s" "curproc s < NPROC" "p_state (ptable s i) = EMBRYO" by (fact i inv c)+
qed

lemma myproc_other [simp]: "i \<noteq> curproc s \<Longrightarrow> myproc (upd_proc i f s) = myproc s"
  by (simp add: myproc_def upd_proc_def)

lemma upd_proc_same [simp]: "ptable (upd_proc i f s) i = f (ptable s i)" "curproc (upd_proc i f s) = curproc s"
  by (simp_all add: upd_proc_def)

lemma allocate_slot:
  assumes "live s" "i < NPROC" "p_state (ptable s i) = UNUSED"
  shows "embryo i (upd_proc i (\<lambda>p. p\<lparr>p_state := EMBRYO, p_pid := nextpid s\<rparr>) (s\<lparr>nextpid := nextpid s + 1\<rparr>))" (is "embryo i ?t")
proof -
  have inv: "proc_inv s" "cur_alive s" using assms(1) by (simp_all add: live_def)
  have ne: "i \<noteq> initproc s" "i \<noteq> curproc s" using inv assms(3) by (auto simp: proc_inv_def myproc_def alive_def)
  have pid: "p_pid (ptable s j) \<noteq> nextpid s" if "j < NPROC" "p_state (ptable s j) \<noteq> UNUSED" for j
  proof -
    have "slot_ok s j" using inv that by (simp add: proc_inv_def)
    then show ?thesis using that by (simp add: slot_ok_def Let_def)
  qed
  have "slot_ok ?t j" if j: "j < NPROC" for j
  proof -
    have ok: "slot_ok s j" using inv j by (simp add: proc_inv_def)
    have "\<exists>r < NPROC. p_parent (ptable s j) = Some r \<and> r \<noteq> i \<and> alive (ptable s r)"
      if "(alive (ptable s j) \<or> p_state (ptable s j) = ZOMBIE) \<and> j \<noteq> initproc s"
    proof -
      from ok that obtain r where r: "r < NPROC" "p_parent (ptable s j) = Some r" "alive (ptable s r)"
        unfolding slot_ok_def Let_def by blast
      then show ?thesis using assms(3) by (intro exI [of _ r]) (auto simp: alive_def)
    qed
    then show ?thesis using ok inv(1)
      by (cases "j = i") (auto simp: slot_ok_def Let_def upd_proc_def alive_def [of "_\<lparr>p_state := _, p_pid := _\<rparr>"] proc_inv_def)
  qed
  moreover have "pids_unique ?t" using inv(1) by (auto simp: proc_inv_def pids_unique_def upd_proc_def dest: pid pid [THEN not_sym])
  ultimately show ?thesis using inv ne assms by (simp add: embryo_def live_def proc_inv_def upd_proc_def myproc_def)
qed

lemma release_slot:
  assumes "embryo i s" "p_state (f (ptable s i)) = UNUSED"
  shows "live (upd_proc i f s)"
proof -
  note e = embryo_new [OF assms(1)]
  have "slot_new s i (f (ptable s i))" using e assms(2) by (simp add: slot_new_def alive_def)
  then show ?thesis using e by (simp add: live_def proc_inv_slot)
qed

lemma name_parent:
  assumes "embryo i s"
  shows "child i (upd_proc i (\<lambda>p. p\<lparr>p_sz := n, p_parent := Some (curproc s), p_tf := tf\<rparr>) s)"
proof -
  note e = embryo_new [OF assms]
  have "slot_new s i ((ptable s i)\<lparr>p_sz := n, p_parent := Some (curproc s), p_tf := tf\<rparr>)" using e by (simp add: slot_new_def alive_def)
  then show ?thesis using e by (simp add: child_def embryo_def live_def proc_inv_slot)
qed

lemma start_child:
  assumes "child i s"
  shows "live (upd_proc i (\<lambda>p. p\<lparr>p_state := RUNNABLE\<rparr>) s)"
proof -
  have "embryo i s" and p: "p_parent (ptable s i) = Some (curproc s)" using assms by (simp_all add: child_def)
  note e = embryo_new [OF this(1)]
  have "alive (ptable s (curproc s))" using e by (simp add: myproc_def)
  then have "slot_new s i ((ptable s i)\<lparr>p_state := RUNNABLE\<rparr>)" using e p by (auto simp: slot_new_def)
  then show ?thesis using e by (simp add: live_def proc_inv_slot)
qed

lemma allocproc_triple: "triple proc_inv live allocproc (\<lambda>r. case r of None \<Rightarrow> live | Some i \<Rightarrow> embryo i)"
  unfolding allocproc_def Let_def
proof (rule triple_kget, rule triple_option, goal_cases)
  case (1 pt)
  then show ?case by (intro triple_kreturn) simp
next
  case (2 pt i)
  show ?case
    apply (rule seq_kmodify [where Q = "embryo i"])
    using find_Some_iff' [OF 2] apply (simp add: allocate_slot)
    apply (rule bind_keeps, simp, intro frame, rule seq_keeps, simp, intro frame, simp add: tree_simps)
    apply (rule triple_if)
    apply (rule seq_kmodify [where Q = live], erule release_slot, simp, rule triple_kreturn, simp)
    apply (rule seq_keeps, simp, intro frame, simp add: tree_simps)+
    apply (rule triple_kreturn, simp)
    done
qed

lemma stable_conj [simp]: "stable Q \<Longrightarrow> stable (\<lambda>s. Q s \<and> curproc s = c)"
  by (auto simp: stable_def tree_step_facts)

lemma fork_triple: "triple proc_inv live (fork data_sym) (\<lambda>_. live)"
  unfolding fork_def
proof (rule triple_kbind [OF allocproc_triple], rule triple_option, goal_cases)
  case (1 r)
  then show ?case by (intro triple_kreturn) simp
next
  case (2 r i)
  show ?case
    apply (rule triple_kget, simp add: 2 split_beta del: split_paired_All)
    subgoal for x
      apply (rule triple_pre [where P = "\<lambda>s. embryo i s \<and> curproc s = fst x"])
       apply (rule bind_keeps, simp, intro frame, rule seq_keeps, simp, intro frame, simp add: tree_simps, rule triple_if)
        apply (rule bind_keeps, simp, intro frame, rule seq_keeps, simp, intro frame)
        apply (rule seq_kmodify [where Q = live], simp add: release_slot, rule triple_kreturn, simp)
       apply (rule seq_kmodify [where Q = "child i"], metis name_parent)
       apply (rule seq_keeps, simp, intro frame, rule bind_keeps, simp, intro frame, rule seq_keeps, simp, intro frame, simp add: tree_simps)
       apply (rule seq_keeps, simp, intro frame, rule bind_keeps, simp, intro frame)
       apply (rule seq_kmodify [where Q = live], erule start_child, rule triple_kreturn, simp, simp)
      done
    done
qed

section \<open>Ending a process\<close>

text \<open>A process that has ended has no children: their parent would have to be alive.\<close>

lemma no_children:
  assumes "proc_inv s" "\<not> alive (ptable s i)" "j < NPROC" "alive (ptable s j) \<or> p_state (ptable s j) = ZOMBIE" "j \<noteq> initproc s"
  shows "p_parent (ptable s j) \<noteq> Some i"
proof -
  have "slot_ok s j" using assms(1,3) by (simp add: proc_inv_def)
  then show ?thesis using assms(2,4,5) by (auto simp: slot_ok_def Let_def)
qed

definition zombie :: "nat \<Rightarrow> 'a proc_state_scheme \<Rightarrow> bool" where
  "zombie i s \<longleftrightarrow> live s \<and> i < NPROC \<and> p_state (ptable s i) = ZOMBIE"

lemma stable_zombie [simp]: "stable (zombie i)"
  by (auto simp: stable_def zombie_def tree_step_facts intro: live_tree)

lemma free_zombie:
  assumes "zombie i s" "p_state (f (ptable s i)) = UNUSED"
  shows "live (upd_proc i f s)"
proof -
  have z: "proc_inv s" "cur_alive s" "p_state (ptable s i) = ZOMBIE" using assms by (simp_all add: zombie_def live_def)
  then have "i \<noteq> initproc s" "i \<noteq> curproc s" by (auto simp: proc_inv_def myproc_def alive_def)
  moreover from this have "slot_new s i (f (ptable s i))" using z assms(2) by (simp add: slot_new_def alive_def)
  ultimately show ?thesis using z by (simp add: live_def proc_inv_slot)
qed

lemma reap_triple: "triple proc_inv (zombie i) (reap i) (\<lambda>_. live)"
  unfolding reap_def
  apply (rule bind_keeps, simp, intro frame, rule seq_keeps, simp, intro frame, rule seq_keeps, simp, intro frame, simp add: tree_simps)
  apply (rule seq_keeps, simp, intro frame)
  apply (rule seq_kmodify [where Q = live], erule free_zombie, simp, rule triple_kreturn, simp)
  done

lemma wait_triple: "triple proc_inv live wait (\<lambda>_. live)"
  unfolding wait_def Let_def
proof (rule triple_kget, rule triple_option, goal_cases)
  case (1 s)
  show ?case by (rule triple_pre [of _ live], rule stable_keeps, simp, intro frame, simp)
next
  case (2 s i)
  then have "p_state (ptable s i) = ZOMBIE" "i < NPROC" using find_Some_iff' [OF 2] by auto
  then show ?case by (intro triple_pre [OF reap_triple]) (simp add: zombie_def)
qed

text \<open>\<open>exit\<close> hands the children over to the first process, one slot at a time, and then ends the process.\<close>

definition leaving :: "nat list \<Rightarrow> 'a proc_state_scheme \<Rightarrow> bool" where
  "leaving is s \<longleftrightarrow> live s \<and> curproc s \<noteq> initproc s \<and> (\<forall>j < NPROC. j \<notin> set is \<longrightarrow> p_parent (ptable s j) \<noteq> Some (curproc s))"

lemma stable_leaving [simp]: "stable (leaving is)"
  by (auto simp: stable_def leaving_def tree_step_facts intro: live_tree)

lemma adopt:
  assumes "leaving (i # is) s"
  shows "leaving is (upd_proc i (\<lambda>p. p\<lparr>p_parent := Some (initproc s)\<rparr>) s)" (is "leaving is ?t")
proof -
  have inv: "proc_inv s" "cur_alive s" "curproc s \<noteq> initproc s" using assms by (simp_all add: leaving_def live_def)
  have same: "curproc ?t = curproc s" "nextpid ?t = nextpid s" "initproc ?t = initproc s"
    "p_state (ptable ?t j) = p_state (ptable s j)" "p_pid (ptable ?t j) = p_pid (ptable s j)" "p_chan (ptable ?t j) = p_chan (ptable s j)"
    "alive (ptable ?t j) = alive (ptable s j)" "p_parent (ptable ?t j) = (if j = i then Some (initproc s) else p_parent (ptable s j))" for j
    by (simp_all add: upd_proc_def alive_def)
  have init: "initproc s < NPROC" "alive (ptable s (initproc s))" using inv by (simp_all add: proc_inv_def)
  have "slot_ok ?t j" if "j < NPROC" for j
  proof -
    have "slot_ok s j" using inv that by (simp add: proc_inv_def)
    then show ?thesis using init unfolding slot_ok_def Let_def same by auto
  qed
  moreover have "pids_unique ?t" using inv(1) by (simp add: proc_inv_def pids_unique_def same)
  ultimately have "proc_inv ?t" using inv(1) by (simp add: proc_inv_def same)
  then show ?thesis using assms inv by (auto simp: leaving_def live_def same myproc_def)
qed

lemma reparent_triple: "triple proc_inv (leaving (i # is)) (reparent i) (\<lambda>_. leaving is)"
  unfolding reparent_def kwhen_def
proof (rule triple_kget, rule triple_if, goal_cases)
  case (1 s)
  show ?case
    by (rule triple_kseq [where Q = "leaving is"], rule triple_kmodify, simp add: adopt)
      (rule stable_keeps [OF stable_leaving], intro frame)
next
  case (2 s)
  then show ?case by (intro triple_kreturn) (auto simp: leaving_def)
qed

lemma reparent_all_triple: "triple proc_inv (leaving is) (kfor is reparent) (\<lambda>_. leaving [])"
proof (induction "is")
  case (Cons i "is")
  then show ?case by (simp add: triple_kseq [OF reparent_triple])
qed (simp add: triple_kreturn)

lemma end_process:
  assumes "leaving [] s"
  shows "proc_inv (upd_proc (curproc s) (\<lambda>p. p\<lparr>p_state := ZOMBIE\<rparr>) s)"
proof -
  let ?c = "curproc s"
  have inv: "proc_inv s" "alive (ptable s ?c)" "?c \<noteq> initproc s" using assms by (simp_all add: leaving_def live_def myproc_def)
  have none: "p_parent (ptable s j) \<noteq> Some ?c" if "j < NPROC" for j using assms that by (simp add: leaving_def)
  have c: "?c < NPROC" "slot_ok s ?c" using inv by (simp_all add: proc_inv_def)
  then obtain r where "r < NPROC" "p_parent (ptable s ?c) = Some r" "alive (ptable s r)"
    using inv by (auto simp: slot_ok_def Let_def)
  then have "slot_new s ?c ((ptable s ?c)\<lparr>p_state := ZOMBIE\<rparr>)" using none c inv
    by (auto simp: slot_new_def slot_ok_def Let_def alive_def)
  then show ?thesis by (rule proc_inv_slot [OF inv(1)])
qed

definition quitting :: "'a proc_state_scheme \<Rightarrow> bool" where
  "quitting s \<longleftrightarrow> live s \<and> curproc s \<noteq> initproc s"

lemma stable_quitting [simp]: "stable quitting"
  by (auto simp: stable_def quitting_def tree_step_facts intro: live_tree)

lemma exit_triple: "triple proc_inv live exit (\<lambda>_. proc_inv)"
  unfolding exit_def
proof (rule triple_kget, rule triple_if, goal_cases)
  case (2 s)
  show ?case
    apply (rule triple_pre [where P = quitting])
     apply (rule seq_keeps, simp, intro frame, rule seq_keeps, simp, intro frame, rule bind_keeps, simp, intro frame)
     apply (rule seq_keeps, simp, intro frame, rule seq_keeps, simp, intro frame, rule seq_keeps, simp, intro frame, simp add: tree_simps)
     apply (rule seq_keeps, simp, intro frame)
     apply (rule triple_kseq, rule triple_pre, rule reparent_all_triple, simp add: quitting_def leaving_def)
     apply (rule triple_kmodify, erule end_process)
    using 2 by (simp add: quitting_def)
qed (rule triple_kpanic)

section \<open>Traps\<close>

definition goes_on :: "bool \<Rightarrow> 'a proc_state_scheme \<Rightarrow> bool" where
  "goes_on go s \<longleftrightarrow> proc_inv s \<and> (go \<longrightarrow> live s)"

lemma live_goes_on: "live s \<Longrightarrow> goes_on go s"
  by (simp add: goes_on_def live_def)

lemma exit_stops: "triple proc_inv live (kseq exit (kreturn False)) goes_on"
  by (rule triple_kseq [OF exit_triple], rule triple_kreturn) (simp add: goes_on_def)

lemma returns_triple:
  "triple proc_inv live f (\<lambda>_. live) \<Longrightarrow> triple proc_inv live (returns f) (\<lambda>r. case r of None \<Rightarrow> proc_inv | Some _ \<Rightarrow> live)"
  unfolding returns_def by (erule triple_kbind, rule triple_kreturn) simp

lemma returns_keeps: "keeps_tree f \<Longrightarrow> triple proc_inv live (returns f) (\<lambda>r. case r of None \<Rightarrow> proc_inv | Some _ \<Rightarrow> live)"
  by (rule returns_triple, rule stable_keeps [OF stable_live])

lemma exit_call: "triple proc_inv live (kseq exit (kreturn None)) (\<lambda>r. case r of None \<Rightarrow> proc_inv | Some _ \<Rightarrow> live)"
  by (rule triple_kseq [OF exit_triple], rule triple_kreturn) simp

lemma syscalls_triple:
  assumes "syscalls data_sym num = Some f"
  shows "triple proc_inv live f (\<lambda>r. case r of None \<Rightarrow> proc_inv | Some _ \<Rightarrow> live)"
proof -
  have "f \<in> {returns (fork data_sym), returns wait, kseq exit (kreturn None)} \<or> (\<exists>g. f = returns g \<and> keeps_tree g)"
    using assms unfolding syscalls_def by (auto split: if_splits intro!: frame)
  then show ?thesis using returns_triple [OF fork_triple] returns_triple [OF wait_triple] exit_call returns_keeps by blast
qed

lemma set_eax_triple: "triple proc_inv live (kseq (set_eax r) (kreturn True)) goes_on"
  by (rule seq_keeps, simp, intro frame, rule triple_kreturn, rule live_goes_on)

lemma syscall_triple: "triple proc_inv live (syscall data_sym) goes_on"
  unfolding syscall_def Let_def
proof (rule bind_keeps, simp, intro frame, rule triple_option, goal_cases)
  case (1 p)
  then show ?case by (intro seq_keeps set_eax_triple stable_live frame)
next
  case (2 p f)
  then show ?case
    by (intro triple_kbind [OF syscalls_triple [OF 2]] triple_option) (auto intro: triple_kreturn set_eax_triple simp: goes_on_def)
qed

lemma interrupt_frame: "keeps_tree dump \<Longrightarrow> keeps_tree (interrupt dump inp tf)"
  unfolding interrupt_def by (intro frame; simp add: tree_simps)

lemma yield_frame: "keeps_tree yield"
  unfolding yield_def by (intro frame; simp add: tree_simps)

lemma exit_if_killed_triple: "triple proc_inv live (exit_if_killed tf) goes_on"
  unfolding exit_if_killed_def
  by (intro bind_keeps stable_live frame triple_if exit_stops triple_kreturn live_goes_on)

lemma stopped: "triple E (goes_on go) (kreturn False) goes_on"
  by (rule triple_kreturn) (simp add: goes_on_def)

lemma going: "go \<Longrightarrow> triple E live f Q \<Longrightarrow> triple E (goes_on go) f Q"
  by (erule triple_pre) (simp add: goes_on_def)

lemma trap_triple:
  assumes "keeps_tree dump"
  shows "triple proc_inv live (trap data_sym dump inp tf) goes_on"
  unfolding trap_def
  apply (intro triple_if bind_keeps stable_live frame exit_stops)
   apply (rule seq_keeps [OF stable_live], intro frame, simp add: tree_simps)
   apply (rule triple_kbind [OF syscall_triple], rule triple_if, rule stopped, rule going, simp)
   apply (intro triple_if bind_keeps stable_live frame exit_stops triple_kreturn live_goes_on, assumption)
  apply (rule seq_keeps [OF stable_live interrupt_frame [OF assms]])
  apply (rule triple_kbind [OF exit_if_killed_triple], rule triple_if, rule stopped, rule going, simp)
  apply (rule seq_keeps [OF stable_live], intro frame yield_frame, rule exit_if_killed_triple)
  done

section \<open>The scheduler\<close>

lemma scheduler_runs:
  assumes inv: "proc_inv s" and i: "i < NPROC" and idle: "\<forall>j < NPROC. p_state (ptable s j) \<noteq> RUNNING"
    and run: "scheduler_try i s = Done b t"
  shows "proc_inv t \<and> (b \<longrightarrow> curproc t = i \<and> p_state (myproc t) = RUNNING) \<and> (\<not> b \<longrightarrow> t = s)"
proof (cases "p_state (ptable s i) = RUNNABLE")
  case False
  then show ?thesis using run inv by (simp add: scheduler_try_def kernel_defs)
next
  case True
  then have t: "t = s\<lparr>curproc := i, ptable := (ptable s)(i := (ptable s i)\<lparr>p_state := RUNNING\<rparr>)\<rparr>" and b
    using run by (auto simp: scheduler_try_def switchuvm_def upd_proc_def kernel_defs split: if_splits)
  have al: "alive (ptable t j) = alive (ptable s j)" "p_state (ptable t j) = (if j = i then RUNNING else p_state (ptable s j))"
    "p_parent (ptable t j) = p_parent (ptable s j)" "p_pid (ptable t j) = p_pid (ptable s j)" "p_chan (ptable t j) = p_chan (ptable s j)" for j
    using True by (simp_all add: t alive_def)
  have o: "curproc t = i" "initproc t = initproc s" "nextpid t = nextpid s" by (simp_all add: t)
  have "slot_ok t j" if "j < NPROC" for j
  proof -
    have "slot_ok s j" "p_state (ptable s j) \<noteq> RUNNING" using inv idle that by (simp_all add: proc_inv_def)
    then show ?thesis using True unfolding slot_ok_def Let_def al o by auto
  qed
  moreover have "pids_unique t" using inv True by (auto simp: proc_inv_def pids_unique_def al)
  ultimately have "proc_inv t" using inv i by (simp add: proc_inv_def al o)
  then show ?thesis using \<open>b\<close> by (simp add: o al myproc_def)
qed

section \<open>Properties\<close>


definition demo_sys :: sys_state where
  "demo_sys = file_state.extend (demo_open\<lparr>nextpid := 3, curproc := 1, initproc := 0,
     ptable := (\<lambda>_. zero_proc)(0 := zero_proc\<lparr>p_state := SLEEPING, p_pid := 1, p_chan := Some (Chan_proc 0)\<rparr>,
       1 := zero_proc\<lparr>p_state := RUNNING, p_pid := 2, p_parent := Some 0\<rparr>)\<rparr>) (sys_state.fields 0)"

lemma demo_sys_fields:
  "nextpid demo_sys = 3" "curproc demo_sys = 1" "initproc demo_sys = 0"
  "ptable demo_sys = (\<lambda>_. zero_proc)(0 := zero_proc\<lparr>p_state := SLEEPING, p_pid := 1, p_chan := Some (Chan_proc 0)\<rparr>,
       1 := zero_proc\<lparr>p_state := RUNNING, p_pid := 2, p_parent := Some 0\<rparr>)"
  by (simp_all add: demo_sys_def file_state.defs sys_state.defs)


text \<open>C39: \<open>kill\<close> with identifier 0 reaches into the free slots.  A free slot has identifier 0, and \<open>kill\<close> does not look at the state, so it
  reports success and marks the slot as killed; \<open>allocproc\<close> does not clear the mark, and the next process that is created there is
  killed when it first traps.\<close>

theorem kill_zero_marks_free_slot:
  fixes s :: "'a proc_state_scheme"
  assumes slot: "List.find (\<lambda>i. p_state (ptable s i) = UNUSED) [0..<NPROC] = Some i"
    and pid: "List.find (\<lambda>i. p_pid (ptable s i) = 0) [0..<NPROC] = Some i" and page: "kmem_inv s (k # ks)"
  shows "\<exists>t u. kill 0 s = Done 0 t \<and> allocproc t = Done (Some i) u \<and> p_killed (ptable u i) \<and> p_state (ptable u i) = EMBRYO"
proof -
  define t where "t = upd_proc i (\<lambda>p. p\<lparr>p_killed := True, p_state := UNUSED\<rparr>) s"
  have i: "p_state (ptable s i) = UNUSED" using find_Some_iff' [OF slot] by simp
  have k: "kill 0 s = Done 0 t" using pid i by (simp add: kill_def kernel_defs t_def upd_proc_def)
  have "List.find (\<lambda>j. p_state (ptable t j) = UNUSED) [0..<NPROC] = Some i"
    using slot i find_cong' [of "[0..<NPROC]" "\<lambda>j. p_state (ptable t j) = UNUSED" "\<lambda>j. p_state (ptable s j) = UNUSED"]
    by (simp add: t_def upd_proc_def)
  moreover have "km_freelist s = k" "k \<noteq> 0" using page by (auto simp: kmem_inv_def)
  ultimately have "\<exists>u. allocproc t = Done (Some i) u \<and> p_killed (ptable u i) \<and> p_state (ptable u i) = EMBRYO"
    by (simp add: allocproc_def kernel_defs kalloc_def upd_proc_def Let_def t_def)
  then show ?thesis using k by blast
qed

definition demo_empty :: proc_state where
  "demo_empty = \<lparr>km_mem = (\<lambda>_. 0), km_freelist = 0x80400000, km_use_lock = True, km_end = 0x80400000, ptable = demo_ptable, nextpid = 2,
     curproc = 0, initproc = 0, sym_trapret = 0, sym_forkret = 0\<rparr>"

theorem kill_zero_marks_free_slot_witness:
  "\<exists>t u. kill 0 demo_empty = Done 0 t \<and> allocproc t = Done (Some 1) u \<and> p_killed (ptable u 1) \<and> p_state (ptable u 1) = EMBRYO"
proof (rule kill_zero_marks_free_slot)
  have "[0..<NPROC] = 0 # 1 # [2..<NPROC]" by (simp add: upt_conv_Cons)
  then show "List.find (\<lambda>i. p_state (ptable demo_empty i) = UNUSED) [0..<NPROC] = Some 1"
    "List.find (\<lambda>i. p_pid (ptable demo_empty i) = 0) [0..<NPROC] = Some 1"
    by (simp_all add: demo_empty_def demo_ptable_def zero_proc_def)
  show "kmem_inv demo_empty [0x80400000]"
    by (simp add: kmem_inv_def demo_empty_def page_ok_def V2P_def read_u32_def mem_read_def)
qed

end
