(* ===== verification/Spec2Isabelle.thy ===== *)
theory Spec2Isabelle
  imports Base64 Utils ShRun Kbd Pool MemIde VmAlloc UserMem ProcInv
begin

text \<open>
  Verification of xv6 with its user programs: see the theories imported here.
\<close>

end
